(* ===== verification/Prelude.thy ===== *)
theory Prelude
  imports Main "HOL-Library.Word"
begin

text \<open>
  Shared vocabulary of the development: the C integer types as words, the one-bit-per-byte
  convention of the receiver's bit vectors, C's truncating remainder, and the list lemmas
  that several components use.
\<close>

unbundle bit_operations_syntax

named_theorems onebit \<open>facts about bytes that hold a single bit\<close>
named_theorems length_simps \<open>lengths of the lists the operations return\<close>

type_synonym u8 = "8 word"
type_synonym u16 = "16 word"
type_synonym u32 = "32 word"

section \<open>One bit per byte\<close>

text \<open>
  Every bit vector of the decoders is a \<open>uint8_t\<close> array with one bit in each byte.
\<close>

definition is_bit :: "u8 \<Rightarrow> bool" where
  "is_bit x \<longleftrightarrow> x = 0 \<or> x = 1"

definition bits :: "u8 list \<Rightarrow> bool" where
  "bits xs \<longleftrightarrow> (\<forall>x \<in> set xs. is_bit x)"

lemma is_bit_0 [onebit, simp]: "is_bit 0" and is_bit_1 [onebit, simp]: "is_bit 1"
  by (simp_all add: is_bit_def)

lemma is_bitE [elim]: "is_bit x \<Longrightarrow> (x = 0 \<Longrightarrow> P) \<Longrightarrow> (x = 1 \<Longrightarrow> P) \<Longrightarrow> P"
  by (auto simp: is_bit_def)

lemma is_bit_xor [onebit, intro]: "is_bit x \<Longrightarrow> is_bit y \<Longrightarrow> is_bit (x XOR y)"
  by (auto simp: is_bit_def)

lemma is_bit_and_1 [onebit, simp]: "is_bit (x AND 1)"
  by (simp add: is_bit_def and_one_eq mod_2_eq_odd)

lemma is_bit_neq_0: "is_bit x \<Longrightarrow> x \<noteq> 0 \<longleftrightarrow> x = 1"
  by (auto simp: is_bit_def)

lemma is_bit_neq_1: "is_bit x \<Longrightarrow> x \<noteq> 1 \<longleftrightarrow> x = 0"
  by (auto simp: is_bit_def)

lemma xor_bit_eq_1: "is_bit x \<Longrightarrow> is_bit y \<Longrightarrow> x XOR y = 1 \<longleftrightarrow> x \<noteq> y"
  by (auto simp: is_bit_def)

lemma xor_bit_eq_0: "(x :: 'a::len word) XOR y = 0 \<longleftrightarrow> x = y"
  by (metis xor.right_neutral xor_self_eq bit.xor_left_self)

lemma xor_bit_self_left [simp]: "(x :: 'a::len word) XOR (x XOR y) = y"
  by (simp add: xor.assoc [symmetric])

lemma bits_Nil [onebit, simp]: "bits []"
  by (simp add: bits_def)

lemma bits_Cons [onebit, simp]: "bits (x # xs) \<longleftrightarrow> is_bit x \<and> bits xs"
  by (simp add: bits_def)

lemma bits_append [onebit, simp]: "bits (xs @ ys) \<longleftrightarrow> bits xs \<and> bits ys"
  by (auto simp: bits_def)

lemma bits_nth [onebit]: "bits xs \<Longrightarrow> i < length xs \<Longrightarrow> is_bit (xs ! i)"
  by (simp add: bits_def)

lemma bits_replicate [onebit]: "is_bit x \<Longrightarrow> bits (replicate n x)"
  by (induction n) auto

lemma bits_take [onebit]: "bits xs \<Longrightarrow> bits (take n xs)"
  by (auto simp: bits_def dest: in_set_takeD)

lemma bits_drop [onebit]: "bits xs \<Longrightarrow> bits (drop n xs)"
  by (auto simp: bits_def dest: in_set_dropD)

lemma bits_tl [onebit]: "bits xs \<Longrightarrow> bits (tl xs)"
  by (cases xs) auto

lemma bits_update [onebit]: "bits xs \<Longrightarrow> is_bit x \<Longrightarrow> bits (xs[i := x])"
  by (auto simp: bits_def dest!: set_update_subset_insert [THEN subsetD])

lemma bits_map_xor [onebit]: "bits xs \<Longrightarrow> is_bit y \<Longrightarrow> bits (map (\<lambda>x. x XOR y) xs)"
  by (auto simp: bits_def)

lemma bits_map2_xor: "bits xs \<Longrightarrow> bits ys \<Longrightarrow> bits (map2 (XOR) xs ys)"
  by (induction xs ys rule: list_induct2') (simp_all add: is_bit_xor)

lemma map_xor_1_involution [simp]: "map (\<lambda>x. x XOR 1) (map (\<lambda>x. x XOR (1 :: u8)) xs) = xs"
  by (induction xs) (simp_all add: xor.assoc)

section \<open>Lists\<close>

lemma list_split3: "xs = take i xs @ take j (drop i xs) @ drop (i + j) xs"
proof -
  have "drop (i + j) xs = drop j (drop i xs)" by (simp add: add.commute)
  then show ?thesis by (simp only: append_take_drop_id)
qed

text \<open>Writing a slice into a list, \<open>memcpy (&dst [at], src, n)\<close>.\<close>

definition blit :: "nat \<Rightarrow> 'a list \<Rightarrow> 'a list \<Rightarrow> 'a list" where
  "blit at src dst = take at dst @ src @ drop (at + length src) dst"

lemma length_blit [length_simps, simp]:
  "at + length src \<le> length dst \<Longrightarrow> length (blit at src dst) = length dst"
  by (simp add: blit_def)

lemma nth_blit:
  "at + length src \<le> length dst \<Longrightarrow> i < length dst \<Longrightarrow>
   blit at src dst ! i = (if at \<le> i \<and> i < at + length src then src ! (i - at) else dst ! i)"
  by (auto simp: blit_def nth_append min_def)

section \<open>C's integer remainder\<close>

text \<open>C truncates the quotient towards zero: the remainder has the sign of the dividend.\<close>

definition c_rem :: "int \<Rightarrow> int \<Rightarrow> int" where
  "c_rem a b = sgn a * (\<bar>a\<bar> mod \<bar>b\<bar>)"

lemma c_rem_nonneg: "0 \<le> a \<Longrightarrow> 0 < b \<Longrightarrow> c_rem a b = a mod b"
  by (cases "a = 0") (simp_all add: c_rem_def)

definition c_div :: "int \<Rightarrow> int \<Rightarrow> int" where
  "c_div a b = sgn a * sgn b * (\<bar>a\<bar> div \<bar>b\<bar>)"

lemma c_div_nonneg: "0 \<le> a \<Longrightarrow> 0 < b \<Longrightarrow> c_div a b = a div b"
  by (cases "a = 0") (simp_all add: c_div_def)

text \<open>Conversion to \<open>int16_t\<close>: two's complement wrap-around.\<close>

definition to_int16 :: "int \<Rightarrow> int" where
  "to_int16 x = (x + 2 ^ 15) mod 2 ^ 16 - 2 ^ 15"

lemma to_int16_id: "- (2 ^ 15) \<le> x \<Longrightarrow> x < 2 ^ 15 \<Longrightarrow> to_int16 x = x"
  by (simp add: to_int16_def)

lemma to_int16_nonneg: "0 \<le> x \<Longrightarrow> x < 2 ^ 15 \<Longrightarrow> to_int16 x = x"
  by (rule to_int16_id) simp_all

lemma to_int16_add [simp]: "to_int16 (to_int16 x + y) = to_int16 (x + y)"
proof -
  have "to_int16 x + y + 2 ^ 15 = (x + 2 ^ 15) mod 2 ^ 16 + y" by (simp add: to_int16_def)
  then show ?thesis by (simp only: to_int16_def mod_add_left_eq) (simp add: algebra_simps)
qed

lemma to_int16_range: "- (2 ^ 15) \<le> to_int16 x \<and> to_int16 x < 2 ^ 15"
  by (simp add: to_int16_def)

lemma uint_power2: "j < LENGTH('a) \<Longrightarrow> uint (2 ^ j :: 'a::len word) = 2 ^ j"
  by (simp only: uint_word_of_int word_of_int_2p [symmetric]) simp

section \<open>Rounds\<close>

text \<open>Rounds that pass on what they found: the first one finds it, the others keep it.\<close>

lemma rounds_fixed:
  assumes "\<And>levels. R False levels = Some (b, y)" "R True y = Some (b, y)" "0 < n"
  shows "foldl (\<lambda>r i. Option.bind r (\<lambda>(b, levels). R (0 < i) levels)) (Some mem) [0 ..< n] = Some (b, y)"
  using assms(3)
proof (induction n)
  case (Suc n)
  then show ?case using assms(1,2) by (cases n) (auto simp: split_def)
qed simp

end
