(* ===== verification/FloatArith.thy ===== *)
theory FloatArith
  imports Complex_Main
begin

text \<open>
  The floating point arithmetic the decoders use for sizes and counts: IEEE round to nearest,
  ties to even, with a mantissa of \<open>p\<close> bits (24 for \<open>float\<close>, 53 for \<open>double\<close>), on rationals. Range
  limits are left out: the values rounded here lie between \<open>2 ^ -10\<close> and \<open>2 ^ 20\<close>. The two facts the
  components use are that rounding is monotone and that representable numbers are left alone.
\<close>

section \<open>Exponent and rounding\<close>

fun bitlength :: "nat \<Rightarrow> nat" where
  "bitlength n = (if n = 0 then 0 else Suc (bitlength (n div 2)))"

declare bitlength.simps [simp del]

lemma bitlength_bounds: "0 < n \<Longrightarrow> 2 ^ (bitlength n - 1) \<le> n \<and> n < 2 ^ bitlength n"
proof (induction n rule: bitlength.induct)
  case (1 n)
  show ?case
  proof (cases "n div 2 = 0")
    case True
    then have "n = 1" using 1 by simp
    then show ?thesis by (simp add: bitlength.simps)
  next
    case False
    then have IH: "2 ^ (bitlength (n div 2) - 1) \<le> n div 2" "n div 2 < 2 ^ bitlength (n div 2)"
      using 1 by simp_all
    have "bitlength n = Suc (bitlength (n div 2))" "0 < bitlength (n div 2)"
      using 1 False by (simp_all add: bitlength.simps)
    then show ?thesis using IH by (cases "bitlength (n div 2)") auto
  qed
qed

definition expo :: "rat \<Rightarrow> int" where
  "expo x = (let (n, d) = quotient_of x; k = int (bitlength (nat n)) - int (bitlength (nat d))
    in if 2 powi k \<le> x then k else k - 1)"

definition round_even :: "rat \<Rightarrow> int" where
  "round_even y = (let f = \<lfloor>y\<rfloor>; d = y - of_int f
    in if d < 1 / 2 then f else if 1 / 2 < d then f + 1 else if even f then f else f + 1)"

definition rnd :: "nat \<Rightarrow> rat \<Rightarrow> rat" where
  "rnd p x = (if x = 0 then 0 else
     let s = int p - 1 - expo \<bar>x\<bar> in sgn x * of_int (round_even (\<bar>x\<bar> * 2 powi s)) * 2 powi (- s))"

abbreviation f32 :: "rat \<Rightarrow> rat" where "f32 \<equiv> rnd 24"
abbreviation f64 :: "rat \<Rightarrow> rat" where "f64 \<equiv> rnd 53"

lemma two_powi_mono: "a \<le> b \<Longrightarrow> (2 :: rat) powi a \<le> 2 powi b"
  by (rule power_int_increasing) simp_all

lemma two_powi_strict: "(2 :: rat) powi a < 2 powi b \<Longrightarrow> a < b"
  by (meson linorder_not_less two_powi_mono)

lemma expo_bounds:
  assumes "0 < x"
  shows "2 powi expo x \<le> x \<and> x < 2 powi (expo x + 1)"
proof -
  obtain n d where q: "quotient_of x = (n, d)" by (cases "quotient_of x")
  have d: "0 < d" using quotient_of_denom_pos [OF q] .
  have x: "x = of_int n / of_int d" using quotient_of_div [OF q] .
  have n: "0 < n" using assms d x by (simp add: zero_less_divide_iff)
  define a b where "a = bitlength (nat n)" and "b = bitlength (nat d)"
  have pos: "0 < a" "0 < b"
    using n d by (simp_all add: a_def b_def bitlength.simps [of "nat n"] bitlength.simps [of "nat d"])
  have bn: "2 ^ (a - 1) \<le> nat n" "nat n < 2 ^ a" and bd: "2 ^ (b - 1) \<le> nat d" "nat d < 2 ^ b"
    using bitlength_bounds [of "nat n"] bitlength_bounds [of "nat d"] n d by (simp_all add: a_def b_def)
  have rn: "2 powi (int a - 1) \<le> (of_int n :: rat)" "(of_int n :: rat) < 2 powi int a"
    and rd: "2 powi (int b - 1) \<le> (of_int d :: rat)" "(of_int d :: rat) < 2 powi int b"
  proof -
    have c: "(of_nat (nat n) :: rat) = of_int n" "(of_nat (nat d) :: rat) = of_int d" using n d by simp_all
    have e: "(2 :: rat) powi (int a - 1) = 2 ^ (a - 1)" "(2 :: rat) powi (int b - 1) = 2 ^ (b - 1)"
      using pos by (simp_all add: power_int_def nat_diff_distrib)
    show "2 powi (int a - 1) \<le> (of_int n :: rat)" "2 powi (int b - 1) \<le> (of_int d :: rat)"
      using bn(1) bd(1) unfolding e c [symmetric] by (metis of_nat_le_iff of_nat_numeral of_nat_power)+
    show "(of_int n :: rat) < 2 powi int a" "(of_int d :: rat) < 2 powi int b"
      using bn(2) bd(2) unfolding c [symmetric] power_int_of_nat
      by (metis of_nat_less_iff of_nat_numeral of_nat_power)+
  qed
  have dp: "0 < (of_int d :: rat)" using d by simp
  have lo: "2 powi (int a - int b - 1) \<le> x"
  proof -
    have "2 powi (int a - int b - 1) * of_int d \<le> 2 powi (int a - int b - 1) * (2 powi int b :: rat)"
      using rd(2) by (intro mult_left_mono) simp_all
    also have "\<dots> = 2 powi (int a - 1)" by (subst power_int_add [symmetric]) simp_all
    also note rn(1)
    finally show ?thesis using dp by (simp add: x pos_le_divide_eq)
  qed
  have hi: "x < 2 powi (int a - int b + 1)"
  proof -
    have "of_int n < (2 powi int a :: rat)" by (rule rn(2))
    also have "\<dots> = 2 powi (int a - int b + 1) * 2 powi (int b - 1)"
      by (subst power_int_add [symmetric]) simp_all
    also have "\<dots> \<le> 2 powi (int a - int b + 1) * of_int d"
      using rd(1) by (intro mult_left_mono) simp_all
    finally show ?thesis using dp by (simp add: x pos_divide_less_eq)
  qed
  show ?thesis
    using lo hi by (simp add: expo_def q Let_def flip: a_def b_def)
qed

lemma expo_mono: "0 < x \<Longrightarrow> x \<le> y \<Longrightarrow> expo x \<le> expo y"
  using expo_bounds [of x] expo_bounds [of y] two_powi_strict [of "expo x" "expo y + 1"] by simp

lemma expo_less: "0 < x \<Longrightarrow> x < 2 powi k \<Longrightarrow> expo x < k"
  using expo_bounds [of x] two_powi_strict [of "expo x" k] by simp

section \<open>Rounding\<close>

lemma round_even_of_int [simp]: "round_even (of_int k) = k"
  by (simp add: round_even_def)

lemma round_even_mono:
  assumes "x \<le> y"
  shows "round_even x \<le> round_even y"
proof (cases "\<lfloor>x\<rfloor> = \<lfloor>y\<rfloor>")
  case True
  then show ?thesis using assms by (auto simp: round_even_def Let_def)
next
  case False
  then have "\<lfloor>x\<rfloor> + 1 \<le> \<lfloor>y\<rfloor>" using floor_mono [OF assms] by simp
  then show ?thesis by (auto simp: round_even_def Let_def)
qed

lemma rnd_pos: "0 < x \<Longrightarrow> rnd p x
    = of_int (round_even (x * 2 powi (int p - 1 - expo x))) * 2 powi (- (int p - 1 - expo x))"
  by (simp add: rnd_def Let_def)

lemma scaled:
  assumes "0 < x" "0 < p"
  shows "2 powi (int p - 1) \<le> x * 2 powi (int p - 1 - expo x)" "x * 2 powi (int p - 1 - expo x) \<le> 2 powi (int p)"
proof -
  let ?s = "int p - 1 - expo x"
  have a: "2 powi (int p - 1) = 2 powi expo x * (2 powi ?s :: rat)" by (subst power_int_add [symmetric]) simp_all
  show "2 powi (int p - 1) \<le> x * 2 powi ?s"
    unfolding a using expo_bounds [OF assms(1)] by (intro mult_right_mono) simp_all
  have b: "2 powi int p = 2 powi (expo x + 1) * (2 powi ?s :: rat)" by (subst power_int_add [symmetric]) simp_all
  show "x * 2 powi ?s \<le> 2 powi int p"
    unfolding b using expo_bounds [OF assms(1)] by (intro mult_right_mono) simp_all
qed

lemma two_powi_int: "0 \<le> k \<Longrightarrow> 2 powi k = (of_int (2 ^ nat k) :: rat)"
  by (simp add: power_int_def)

lemma rnd_between:
  assumes "0 < x" "0 < p"
  shows "2 powi expo x \<le> rnd p x \<and> rnd p x \<le> 2 powi (expo x + 1)"
proof -
  let ?s = "int p - 1 - expo x"
  have "round_even (of_int (2 ^ nat (int p - 1))) \<le> round_even (x * 2 powi ?s)"
    using scaled(1) [OF assms] assms(2) by (intro round_even_mono) (simp add: two_powi_int)
  then have "(of_int (2 ^ nat (int p - 1)) :: rat) \<le> of_int (round_even (x * 2 powi ?s))"
    by (simp only: round_even_of_int of_int_le_iff)
  then have "2 powi (int p - 1) * 2 powi (- ?s) \<le> rnd p x"
    unfolding rnd_pos [OF assms(1)] using assms(2) by (intro mult_right_mono) (simp_all add: two_powi_int)
  moreover have "2 powi (int p - 1) * 2 powi (- ?s) = (2 powi expo x :: rat)"
    by (subst power_int_add [symmetric]) simp_all
  moreover have "round_even (x * 2 powi ?s) \<le> round_even (of_int (2 ^ p))"
    using scaled(2) [OF assms] by (intro round_even_mono) (simp add: two_powi_int)
  then have "of_int (round_even (x * 2 powi ?s)) \<le> (of_int (2 ^ p) :: rat)"
    by (simp only: round_even_of_int of_int_le_iff)
  then have "rnd p x \<le> 2 powi int p * 2 powi (- ?s)"
    unfolding rnd_pos [OF assms(1)] by (intro mult_right_mono) (simp_all add: two_powi_int)
  moreover have "2 powi int p * 2 powi (- ?s) = (2 powi (expo x + 1) :: rat)"
    by (subst power_int_add [symmetric]) simp_all
  ultimately show ?thesis by simp
qed

theorem rnd_mono:
  assumes "0 < x" "x \<le> y" "0 < p"
  shows "rnd p x \<le> rnd p y"
proof (cases "expo x = expo y")
  case True
  have "x * 2 powi (int p - 1 - expo y) \<le> y * 2 powi (int p - 1 - expo y)"
    using assms(2) by (intro mult_right_mono) simp_all
  then show ?thesis
    using assms True by (simp add: rnd_pos round_even_mono mult_right_mono)
next
  case False
  then have "expo x + 1 \<le> expo y" using expo_mono [OF assms(1,2)] by simp
  then have "(2 :: rat) powi (expo x + 1) \<le> 2 powi expo y" by (rule two_powi_mono)
  then show ?thesis using rnd_between [of x p] rnd_between [of y p] assms by simp
qed

theorem rnd_exact:
  assumes "0 < m" "m < 2 ^ p" "x = of_int m * 2 powi k"
  shows "rnd p x = x"
proof -
  have x: "0 < x" using assms by simp
  have "(of_int m :: rat) < of_int (2 ^ p)" using assms(2) by (simp only: of_int_less_iff)
  then have "x < 2 powi int p * 2 powi k" unfolding assms(3) by (intro mult_strict_right_mono) simp_all
  also have "\<dots> = 2 powi (int p + k)" by (subst power_int_add [symmetric]) simp_all
  finally have "expo x < int p + k" by (rule expo_less [OF x])
  then have s: "0 \<le> int p - 1 - expo x + k" by simp
  have "x * 2 powi (int p - 1 - expo x) = of_int m * 2 powi (int p - 1 - expo x + k)"
    unfolding assms(3) mult.assoc by (subst power_int_add [symmetric]) (simp_all add: add.commute)
  also have "\<dots> = of_int (m * 2 ^ nat (int p - 1 - expo x + k))" using s by (simp add: two_powi_int)
  finally have i: "x * 2 powi (int p - 1 - expo x) = of_int (m * 2 ^ nat (int p - 1 - expo x + k))" .
  have "rnd p x = x * 2 powi (int p - 1 - expo x) * 2 powi (- (int p - 1 - expo x))"
    unfolding rnd_pos [OF x] i by (simp only: round_even_of_int)
  also have "\<dots> = x" unfolding mult.assoc by (subst power_int_add [symmetric]) simp_all
  finally show ?thesis .
qed

lemma rnd_int: "0 < m \<Longrightarrow> m < 2 ^ p \<Longrightarrow> rnd p (of_int m) = of_int m"
  by (rule rnd_exact [where k = 0]) simp_all

text \<open>Evaluation: the exponent and the nearest mantissa determine the rounded value.\<close>

lemma expo_eq: "2 powi e \<le> x \<Longrightarrow> x < 2 powi (e + 1) \<Longrightarrow> expo x = e"
proof -
  assume a: "2 powi e \<le> x" "x < 2 powi (e + 1)"
  have x: "0 < x" using a(1) by (meson less_le_trans zero_less_numeral zero_less_power_int)
  have "e < expo x + 1" using expo_bounds [OF x] a(1) by (intro two_powi_strict) simp
  moreover have "expo x < e + 1" using expo_less [OF x a(2)] .
  ultimately show ?thesis by simp
qed

lemma round_even_eq:
  assumes "\<bar>y - of_int k\<bar> < 1 / 2 \<or> \<bar>y - of_int k\<bar> = 1 / 2 \<and> even k"
  shows "round_even y = k"
proof -
  consider "of_int k \<le> y" "y < of_int k + 1 / 2" | "y = of_int k + 1 / 2" "even k"
    | "of_int (k - 1) + 1 / 2 < y" "y < of_int k" | "y = of_int (k - 1) + 1 / 2" "even k"
    using assms by (auto simp: abs_if split: if_splits)
  then show ?thesis
  proof cases
    case 1
    then have "\<lfloor>y\<rfloor> = k" by (simp add: floor_eq_iff)
    then show ?thesis using 1 by (simp add: round_even_def Let_def)
  next
    case 2
    then have "\<lfloor>y\<rfloor> = k" by (simp add: floor_eq_iff)
    then show ?thesis using 2 by (simp add: round_even_def Let_def)
  next
    case 3
    then have "\<lfloor>y\<rfloor> = k - 1" by (simp add: floor_eq_iff)
    then show ?thesis using 3 by (simp add: round_even_def Let_def)
  next
    case 4
    then have "\<lfloor>y\<rfloor> = k - 1" by (simp add: floor_eq_iff)
    then show ?thesis using 4 by (simp add: round_even_def Let_def)
  qed
qed

lemma rnd_eq:
  assumes "2 powi e \<le> x" "x < 2 powi (e + 1)"
    "\<bar>x * 2 powi (int p - 1 - e) - of_int k\<bar> < 1 / 2 \<or> \<bar>x * 2 powi (int p - 1 - e) - of_int k\<bar> = 1 / 2 \<and> even k"
  shows "rnd p x = of_int k * 2 powi (e + 1 - int p)"
proof -
  have x: "0 < x" using assms(1) by (meson less_le_trans zero_less_numeral zero_less_power_int)
  show ?thesis
    unfolding rnd_pos [OF x] expo_eq [OF assms(1,2)] round_even_eq [OF assms(3)] by (simp add: algebra_simps)
qed

end
