(* ===== verification/BitField.thy ===== *)
theory BitField
  imports Prelude
begin

text \<open>
  Numbers as sequences of bits, one bit per byte and the highest bit first: how the decoders of the
  FAC, the SDC and the messages read their fields, and how a sender writes them.
\<close>

section \<open>Reading\<close>

text \<open>One step of \<open>(val << 1) | v [i]\<close>.\<close>

definition shift_in :: "nat \<Rightarrow> u8 \<Rightarrow> nat" where
  "shift_in a x = push_bit 1 a OR unat x"

text \<open>\<open>n\<close> bits from position \<open>i\<close> on, by shifts and ors.\<close>

definition bitfield :: "u8 list \<Rightarrow> nat \<Rightarrow> nat \<Rightarrow> nat" where
  "bitfield v i n = foldl shift_in 0 (take n (drop i v))"

lemma shift_in_bit: "is_bit x \<Longrightarrow> shift_in a x = 2 * a + unat x"
  by (auto simp: shift_in_def is_bit_def push_bit_eq_mult or_Suc_0_eq)

lemma unat_bit: "is_bit x \<Longrightarrow> unat x \<le> 1"
  by (auto simp: is_bit_def)

lemma fold_shift_in_less: "bits xs \<Longrightarrow> foldl shift_in 0 xs < 2 ^ length xs"
proof (induction xs rule: rev_induct)
  case (snoc x xs)
  then show ?case using unat_bit [of x] by (simp add: shift_in_bit)
qed simp

lemma bitfield_less: "bits v \<Longrightarrow> bitfield v i n < 2 ^ n"
proof -
  assume v: "bits v"
  then have "bitfield v i n < 2 ^ length (take n (drop i v))"
    unfolding bitfield_def by (intro fold_shift_in_less) (simp add: onebit)
  also have "\<dots> \<le> 2 ^ n" by (rule power_increasing) simp_all
  finally show ?thesis .
qed

lemma bitfield_drop [simp]: "bitfield (drop k v) i n = bitfield v (k + i) n"
  by (simp add: bitfield_def add.commute)

lemma bitfield_take: "i + n \<le> k \<Longrightarrow> bitfield (take k v) i n = bitfield v i n"
  by (simp add: bitfield_def drop_take min_def)

lemma bitfield_append: "length pre \<le> i \<Longrightarrow> bitfield (pre @ v) i n = bitfield v (i - length pre) n"
  by (simp add: bitfield_def)

lemma bitfield_prefix: "i + n \<le> length u \<Longrightarrow> bitfield (u @ w) i n = bitfield u i n"
  by (simp add: bitfield_def)

section \<open>Writing\<close>

definition field_bits :: "nat \<Rightarrow> nat \<Rightarrow> u8 list" where
  "field_bits n x = map (\<lambda>i. of_bool (bit x (n - 1 - i))) [0 ..< n]"

lemma length_field_bits [length_simps, simp]: "length (field_bits n x) = n"
  by (simp add: field_bits_def)

lemma field_bits_Suc: "field_bits (Suc n) x = of_bool (bit x n) # field_bits n x"
proof -
  have "[0 ..< Suc n] = 0 # map Suc [0 ..< n]" by (simp add: map_Suc_upt upt_conv_Cons del: upt_Suc)
  then show ?thesis by (simp add: field_bits_def comp_def del: upt_Suc)
qed

lemma bits_field_bits [onebit, simp]: "bits (field_bits n x)"
  by (auto simp: field_bits_def bits_def is_bit_def)

lemma fold_field_bits: "foldl shift_in a (field_bits n x) = a * 2 ^ n + take_bit n x"
proof (induction n arbitrary: a)
  case (Suc n)
  have b: "is_bit (of_bool (bit x n))" by (simp add: is_bit_def)
  show ?case
    by (simp add: field_bits_Suc Suc shift_in_bit [OF b] take_bit_Suc_from_most algebra_simps)
qed (simp add: field_bits_def)

lemma bitfield_field_bits:
  "length pre = i \<Longrightarrow> x < 2 ^ n \<Longrightarrow> bitfield (pre @ field_bits n x @ post) i n = x"
  using fold_field_bits [of 0 n x] by (simp add: bitfield_def take_bit_eq_mod)

text \<open>A reader that starts at the field.\<close>

lemma bitfield_here: "x < 2 ^ n \<Longrightarrow> bitfield (field_bits n x @ post) 0 n = x"
  using bitfield_field_bits [of "[]" 0 x n post] by simp

lemma bitfield_later: "n \<le> i \<Longrightarrow> bitfield (field_bits n x @ v) i m = bitfield v (i - n) m"
  by (simp add: bitfield_append)

lemma bitfield_Cons: "0 < i \<Longrightarrow> bitfield (x # v) i n = bitfield v (i - 1) n"
  by (cases i) (simp_all add: bitfield_def)

lemma field_bits_1: "x < 2 \<Longrightarrow> field_bits (Suc 0) x = [of_nat x]"
  by (auto simp: less_2_cases_iff field_bits_def bit_0)

lemma field_bits_0: "field_bits n 0 = replicate n 0"
  by (simp add: field_bits_def map_replicate_const)

end
