(* ===== verification/RingBuf.thy ===== *)
theory RingBuf
  imports Prelude
begin

text \<open>
  The lock-free ring buffer between the device threads, the decoders and the sound card
  (\<open>various/ringbuffer.h\<close>): indices that run modulo twice the size, so that full and empty
  differ, an access in at most two regions, and one producer and one consumer that publish their
  work by the update of one index each. The model keeps the 32-bit indices as words; the buffer's
  memory is a list of elements, twice \<open>bufferSize\<close> long as the constructor allocates it.
\<close>

section \<open>The interface: a bounded first-in first-out store\<close>

datatype 'a fifo_op = Put "'a list" | Get nat

text \<open>A run of operations: the elements accepted, the elements handed out, the final store.\<close>

fun fifo_run ::
  "('q \<Rightarrow> 'a list \<Rightarrow> nat \<times> 'q) \<Rightarrow> ('q \<Rightarrow> nat \<Rightarrow> 'a list \<times> 'q) \<Rightarrow>
   'a fifo_op list \<Rightarrow> 'q \<Rightarrow> 'a list \<times> 'a list \<times> 'q" where
  "fifo_run put get [] q = ([], [], q)"
| "fifo_run put get (Put xs # ops) q =
     (let (n, q') = put q xs; (ins, outs, r) = fifo_run put get ops q' in (take n xs @ ins, outs, r))"
| "fifo_run put get (Get n # ops) q =
     (let (ys, q') = get q n; (ins, outs, r) = fifo_run put get ops q' in (ins, ys @ outs, r))"

fun sized :: "'a fifo_op \<Rightarrow> bool" where
  "sized (Put xs) \<longleftrightarrow> length xs \<le> 2 ^ 30"
| "sized (Get n) \<longleftrightarrow> n \<le> 2 ^ 30"

locale bounded_fifo =
  fixes ok :: "'q \<Rightarrow> bool"
    and contents :: "'q \<Rightarrow> 'a list"
    and capacity :: "'q \<Rightarrow> nat"
    and put :: "'q \<Rightarrow> 'a list \<Rightarrow> nat \<times> 'q"
    and get :: "'q \<Rightarrow> nat \<Rightarrow> 'a list \<times> 'q"
  assumes put_ok: "ok q \<Longrightarrow> length xs \<le> 2 ^ 30 \<Longrightarrow> ok (snd (put q xs)) \<and> capacity (snd (put q xs)) = capacity q"
    and put_count: "ok q \<Longrightarrow> length xs \<le> 2 ^ 30 \<Longrightarrow>
      fst (put q xs) = min (length xs) (capacity q - length (contents q))"
    and put_contents: "ok q \<Longrightarrow> length xs \<le> 2 ^ 30 \<Longrightarrow>
      contents (snd (put q xs)) = contents q @ take (fst (put q xs)) xs"
    and get_ok: "ok q \<Longrightarrow> n \<le> 2 ^ 30 \<Longrightarrow> ok (snd (get q n)) \<and> capacity (snd (get q n)) = capacity q"
    and get_front: "ok q \<Longrightarrow> n \<le> 2 ^ 30 \<Longrightarrow> fst (get q n) = take n (contents q)"
    and get_contents: "ok q \<Longrightarrow> n \<le> 2 ^ 30 \<Longrightarrow> contents (snd (get q n)) = drop n (contents q)"
begin

lemma run_fifo:
  "ok q \<Longrightarrow> list_all sized ops \<Longrightarrow> fifo_run put get ops q = (ins, outs, r) \<Longrightarrow>
   ok r \<and> contents q @ ins = outs @ contents r"
proof (induction ops arbitrary: q ins outs)
  case (Cons op ops)
  show ?case
  proof (cases op)
    case (Put xs)
    obtain n q' where p: "put q xs = (n, q')" by (cases "put q xs")
    obtain i o' r' where r: "fifo_run put get ops q' = (i, o', r')" by (cases "fifo_run put get ops q'") auto
    have len: "length xs \<le> 2 ^ 30" using Cons.prems(2) Put by simp
    have "ok r \<and> contents q' @ i = o' @ contents r"
      using Cons.IH [of q'] put_ok [OF Cons.prems(1) len] Cons.prems Put p r by simp
    then show ?thesis using Cons.prems Put p r put_contents [OF Cons.prems(1) len] by auto
  next
    case (Get n)
    obtain ys q' where p: "get q n = (ys, q')" by (cases "get q n")
    obtain i o' r' where r: "fifo_run put get ops q' = (i, o', r')" by (cases "fifo_run put get ops q'") auto
    have len: "n \<le> 2 ^ 30" using Cons.prems(2) Get by simp
    have "ok r \<and> contents q' @ i = o' @ contents r"
      using Cons.IH [of q'] get_ok [OF Cons.prems(1) len] Cons.prems Get p r by simp
    have q': "contents q' = drop n (contents q)" "ys = take n (contents q)"
      using Get p get_front [OF Cons.prems(1) len] get_contents [OF Cons.prems(1) len] by simp_all
    have "contents q @ i = ys @ (contents q' @ i)"
      by (simp add: q' append_assoc [symmetric] del: append_assoc)
    also have "\<dots> = (ys @ o') @ contents r" using \<open>ok r \<and> contents q' @ i = o' @ contents r\<close> by simp
    finally show ?thesis using Cons.prems Get p r \<open>ok r \<and> contents q' @ i = o' @ contents r\<close> by simp
  qed
qed simp

end

section \<open>The model\<close>

record 'a ringBuffer =
  bufferSize :: u32
  writeIndex :: u32
  readIndex :: u32
  bigMask :: u32
  smallMask :: u32
  buf :: "'a list"

text \<open>The constructor; \<open>mem\<close> is what \<open>new\<close> returns, \<open>2 * bufferSize\<close> elements that nobody has set.\<close>

definition new_RingBuffer :: "u32 \<Rightarrow> 'a list \<Rightarrow> 'a ringBuffer" where
  "new_RingBuffer n mem =
     (let elementCount = (if (n - 1) AND n \<noteq> 0 then 2 * 16384 else n) in
      \<lparr>bufferSize = elementCount, writeIndex = 0, readIndex = 0,
       bigMask = elementCount * 2 - 1, smallMask = elementCount - 1, buf = mem\<rparr>)"

definition GetRingBufferReadAvailable :: "'a ringBuffer \<Rightarrow> u32" where
  "GetRingBufferReadAvailable rb = (writeIndex rb - readIndex rb) AND bigMask rb"

definition GetRingBufferWriteAvailable :: "'a ringBuffer \<Rightarrow> u32" where
  "GetRingBufferWriteAvailable rb = bufferSize rb - GetRingBufferReadAvailable rb"

definition FlushRingBuffer :: "'a ringBuffer \<Rightarrow> 'a ringBuffer" where
  "FlushRingBuffer rb = rb\<lparr>writeIndex := 0, readIndex := 0\<rparr>"

definition AdvanceRingBufferWriteIndex :: "'a ringBuffer \<Rightarrow> u32 \<Rightarrow> 'a ringBuffer" where
  "AdvanceRingBufferWriteIndex rb n = rb\<lparr>writeIndex := (writeIndex rb + n) AND bigMask rb\<rparr>"

definition AdvanceRingBufferReadIndex :: "'a ringBuffer \<Rightarrow> u32 \<Rightarrow> 'a ringBuffer" where
  "AdvanceRingBufferReadIndex rb n = rb\<lparr>readIndex := (readIndex rb + n) AND bigMask rb\<rparr>"

text \<open>
  The regions of an access: the number of elements granted, the index of the first region, and
  the sizes of both; the second region, where there is one, starts at index 0.
\<close>

definition GetRingBufferWriteRegions :: "'a ringBuffer \<Rightarrow> u32 \<Rightarrow> u32 \<times> u32 \<times> u32 \<times> u32" where
  "GetRingBufferWriteRegions rb elementCount =
     (let available = GetRingBufferWriteAvailable rb;
          n = (if available < elementCount then available else elementCount);
          index = writeIndex rb AND smallMask rb in
      if bufferSize rb < index + n
      then (let firstHalf = bufferSize rb - index in (n, index, firstHalf, n - firstHalf))
      else (n, index, n, 0))"

definition GetRingBufferReadRegions :: "'a ringBuffer \<Rightarrow> u32 \<Rightarrow> u32 \<times> u32 \<times> u32 \<times> u32" where
  "GetRingBufferReadRegions rb elementCount =
     (let available = GetRingBufferReadAvailable rb;
          n = (if available < elementCount then available else elementCount);
          index = readIndex rb AND smallMask rb in
      if bufferSize rb < index + n
      then (let firstHalf = bufferSize rb - index in (n, index, firstHalf, n - firstHalf))
      else (n, index, n, 0))"

text \<open>The two copies of \<open>putDataIntoBuffer\<close>, and those of \<open>getDataFromBuffer\<close> and \<open>peekBuffer\<close>.\<close>

definition copy_in :: "u32 \<Rightarrow> u32 \<Rightarrow> u32 \<Rightarrow> 'a list \<Rightarrow> 'a list \<Rightarrow> 'a list" where
  "copy_in index size1 size2 xs b =
     (if 0 <s size2
      then blit 0 (take (unat size2) (drop (unat size1) xs)) (blit (unat index) (take (unat size1) xs) b)
      else blit (unat index) (take (unat size1) xs) b)"

definition copy_out :: "u32 \<Rightarrow> u32 \<Rightarrow> u32 \<Rightarrow> 'a list \<Rightarrow> 'a list" where
  "copy_out index size1 size2 b =
     (if 0 <s size2
      then take (unat size1) (drop (unat index) b) @ take (unat size2) b
      else take (unat size1) (drop (unat index) b))"

definition putDataIntoBuffer :: "'a ringBuffer \<Rightarrow> 'a list \<Rightarrow> u32 \<Rightarrow> u32 \<times> 'a ringBuffer" where
  "putDataIntoBuffer rb xs elementCount =
     (let (numWritten, index, size1, size2) = GetRingBufferWriteRegions rb elementCount;
          rb' = rb\<lparr>buf := copy_in index size1 size2 xs (buf rb)\<rparr> in
      (numWritten, AdvanceRingBufferWriteIndex rb' numWritten))"

definition getDataFromBuffer :: "'a ringBuffer \<Rightarrow> u32 \<Rightarrow> 'a list \<times> u32 \<times> 'a ringBuffer" where
  "getDataFromBuffer rb elementCount =
     (let (numRead, index, size1, size2) = GetRingBufferReadRegions rb elementCount;
          out = copy_out index size1 size2 (buf rb) in
      (out, numRead, AdvanceRingBufferReadIndex rb numRead))"

definition peekBuffer :: "'a ringBuffer \<Rightarrow> u32 \<Rightarrow> 'a list \<times> u32" where
  "peekBuffer rb elementCount =
     (let (numRead, index, size1, size2) = GetRingBufferReadRegions rb elementCount in
      (copy_out index size1 size2 (buf rb), numRead))"

definition skipDataInBuffer :: "'a ringBuffer \<Rightarrow> u32 \<Rightarrow> u32 \<times> 'a ringBuffer" where
  "skipDataInBuffer rb n_values =
     (let n = (if GetRingBufferReadAvailable rb < n_values then GetRingBufferReadAvailable rb else n_values) in
      (n, AdvanceRingBufferReadIndex rb n))"

section \<open>The index arithmetic\<close>

lemma uint_and_mask: "uint ((x :: 'a::len word) AND mask n) = uint x mod 2 ^ n"
  by (simp only: take_bit_eq_mask [symmetric] unsigned_take_bit_eq) (simp only: take_bit_eq_mod)

lemma unat_and_mask: "unat ((x :: 'a::len word) AND mask n) = unat x mod 2 ^ n"
  by (simp only: take_bit_eq_mask [symmetric] unsigned_take_bit_eq) (simp only: take_bit_eq_mod)

lemma uint_minus_mask:
  assumes "n \<le> 32"
  shows "uint (((x :: u32) - y) AND mask n) = (uint x - uint y) mod 2 ^ n"
proof -
  have "(2 :: int) ^ n dvd 2 ^ 32" using assms by (rule le_imp_power_dvd)
  then show ?thesis by (simp add: uint_and_mask uint_word_ariths mod_mod_cancel)
qed

lemma uint_plus_mask:
  assumes "n \<le> 32"
  shows "uint (((x :: u32) + y) AND mask n) = (uint x + uint y) mod 2 ^ n"
proof -
  have "(2 :: int) ^ n dvd 2 ^ 32" using assms by (rule le_imp_power_dvd)
  then show ?thesis by (simp add: uint_and_mask uint_word_ariths mod_mod_cancel)
qed

text \<open>The invariant of a buffer of \<open>2 ^ k\<close> elements.\<close>

definition rb_ok :: "nat \<Rightarrow> 'a ringBuffer \<Rightarrow> bool" where
  "rb_ok k rb \<longleftrightarrow> k \<le> 30 \<and> bufferSize rb = 2 ^ k \<and> smallMask rb = mask k \<and> bigMask rb = mask (k + 1)
     \<and> uint (writeIndex rb) < 2 ^ (k + 1) \<and> uint (readIndex rb) < 2 ^ (k + 1)
     \<and> unat (GetRingBufferReadAvailable rb) \<le> 2 ^ k \<and> length (buf rb) = 2 * 2 ^ k"

definition held :: "'a ringBuffer \<Rightarrow> nat" where
  "held rb = unat (GetRingBufferReadAvailable rb)"

text \<open>The cell of the element \<open>i\<close> places behind the read index, and the contents.\<close>

definition cell :: "'a ringBuffer \<Rightarrow> nat \<Rightarrow> nat" where
  "cell rb i = (unat (readIndex rb) + i) mod unat (bufferSize rb)"

definition rb_contents :: "'a ringBuffer \<Rightarrow> 'a list" where
  "rb_contents rb = map (\<lambda>i. buf rb ! cell rb i) [0 ..< held rb]"

lemma rb_okD:
  assumes "rb_ok k rb"
  shows "k \<le> 30" "bufferSize rb = 2 ^ k" "smallMask rb = mask k" "bigMask rb = mask (k + 1)"
    "uint (writeIndex rb) < 2 ^ (k + 1)" "uint (readIndex rb) < 2 ^ (k + 1)"
    "held rb \<le> 2 ^ k" "length (buf rb) = 2 * 2 ^ k"
  using assms by (simp_all add: rb_ok_def held_def)

lemma unat_pow2: "k \<le> 31 \<Longrightarrow> unat (2 ^ k :: u32) = 2 ^ k"
  by (simp add: uint_power2 nat_uint_eq [symmetric] nat_power_eq del: nat_uint_eq)

lemma held_int: "rb_ok k rb \<Longrightarrow> int (held rb) = (uint (writeIndex rb) - uint (readIndex rb)) mod 2 ^ (k + 1)"
  by (simp only: held_def uint_nat [symmetric] GetRingBufferReadAvailable_def rb_okD(4))
    (rule uint_minus_mask, use rb_okD(1) [of k rb] in simp)

lemma unat_WriteAvailable:
  assumes "rb_ok k rb"
  shows "unat (GetRingBufferWriteAvailable rb) = 2 ^ k - held rb"
proof -
  have k: "unat (bufferSize rb) = 2 ^ k" using rb_okD [OF assms] by (simp add: unat_pow2)
  have "GetRingBufferReadAvailable rb \<le> bufferSize rb"
    using rb_okD(7) [OF assms] k by (simp add: word_le_nat_alt held_def)
  then show ?thesis using k by (simp add: GetRingBufferWriteAvailable_def unat_sub held_def)
qed

text \<open>Advancing an index by a granted number of elements.\<close>

lemma advance_write:
  assumes "rb_ok k rb" "held rb + unat n \<le> 2 ^ k"
  shows "rb_ok k (AdvanceRingBufferWriteIndex rb n)"
    "held (AdvanceRingBufferWriteIndex rb n) = held rb + unat n"
proof -
  let ?rb = "AdvanceRingBufferWriteIndex rb n"
  note ok = rb_okD [OF assms(1)]
  have w: "uint (writeIndex ?rb) = (uint (writeIndex rb) + uint n) mod 2 ^ (k + 1)"
    using ok(1) by (simp add: AdvanceRingBufferWriteIndex_def ok(4) uint_plus_mask del: power_Suc)
  have "int (held ?rb) = (uint (writeIndex ?rb) - uint (readIndex rb)) mod 2 ^ (k + 1)"
    using ok(1) by (simp add: held_def GetRingBufferReadAvailable_def AdvanceRingBufferWriteIndex_def
      ok(4) uint_nat [symmetric] uint_minus_mask del: power_Suc uint_nat)
  also have "\<dots> = ((uint (writeIndex rb) - uint (readIndex rb)) mod 2 ^ (k + 1) + uint n) mod 2 ^ (k + 1)"
    unfolding w by (simp add: mod_simps algebra_simps del: power_Suc)
  also have "\<dots> = (int (held rb) + int (unat n)) mod 2 ^ (k + 1)"
    by (simp only: held_int [OF assms(1)] uint_nat)
  also have "\<dots> = int (held rb) + int (unat n)"
  proof (rule mod_pos_pos_trivial)
    have "int (held rb + unat n) \<le> int (2 ^ k)" using assms(2) by (simp only: of_nat_le_iff)
    moreover have "0 < (2 :: int) ^ k" by simp
    ultimately show "int (held rb) + int (unat n) < 2 ^ (k + 1)"
      unfolding power_add power_one_right of_nat_add of_nat_power of_nat_numeral by linarith
  qed simp
  finally show h: "held ?rb = held rb + unat n" by linarith
  show "rb_ok k ?rb"
    using ok h assms(2) w unfolding rb_ok_def held_def [symmetric]
    by (simp add: AdvanceRingBufferWriteIndex_def)
qed

lemma advance_read:
  assumes "rb_ok k rb" "unat n \<le> held rb"
  shows "rb_ok k (AdvanceRingBufferReadIndex rb n)"
    "held (AdvanceRingBufferReadIndex rb n) = held rb - unat n"
    "cell (AdvanceRingBufferReadIndex rb n) i = cell rb (unat n + i)"
proof -
  let ?rb = "AdvanceRingBufferReadIndex rb n"
  note ok = rb_okD [OF assms(1)]
  have r: "uint (readIndex ?rb) = (uint (readIndex rb) + uint n) mod 2 ^ (k + 1)"
    using ok(1) by (simp add: AdvanceRingBufferReadIndex_def ok(4) uint_plus_mask del: power_Suc)
  have "int (held ?rb) = (uint (writeIndex rb) - uint (readIndex ?rb)) mod 2 ^ (k + 1)"
    using ok(1) by (simp add: held_def GetRingBufferReadAvailable_def AdvanceRingBufferReadIndex_def
      ok(4) uint_nat [symmetric] uint_minus_mask del: power_Suc uint_nat)
  also have "\<dots> = ((uint (writeIndex rb) - uint (readIndex rb)) mod 2 ^ (k + 1) - uint n) mod 2 ^ (k + 1)"
    unfolding r by (simp add: mod_simps algebra_simps del: power_Suc)
  also have "\<dots> = (int (held rb) - int (unat n)) mod 2 ^ (k + 1)"
    by (simp only: held_int [OF assms(1)] uint_nat)
  also have "\<dots> = int (held rb) - int (unat n)"
  proof (rule mod_pos_pos_trivial)
    have "int (held rb) \<le> int (2 ^ k)" using ok(7) by (simp only: of_nat_le_iff)
    moreover have "0 < (2 :: int) ^ k" by simp
    ultimately show "int (held rb) - int (unat n) < 2 ^ (k + 1)"
      unfolding power_add power_one_right of_nat_power of_nat_numeral by linarith
  qed (use assms(2) in linarith)
  finally show h: "held ?rb = held rb - unat n" using assms(2) by linarith
  show "rb_ok k ?rb"
    using ok h r unfolding rb_ok_def held_def [symmetric] by (simp add: AdvanceRingBufferReadIndex_def)
  have "int (unat (readIndex ?rb)) = int ((unat (readIndex rb) + unat n) mod 2 ^ (k + 1))"
    unfolding zmod_int of_nat_add of_nat_power of_nat_numeral uint_nat [symmetric] by (rule r)
  then have "unat (readIndex ?rb) = (unat (readIndex rb) + unat n) mod 2 ^ (k + 1)"
    by (simp only: of_nat_eq_iff)
  then have "unat (readIndex ?rb) mod 2 ^ k = (unat (readIndex rb) + unat n) mod 2 ^ k"
    by (simp add: mod_mod_cancel le_imp_power_dvd del: power_Suc)
  moreover have "bufferSize ?rb = bufferSize rb" by (simp add: AdvanceRingBufferReadIndex_def)
  ultimately show "cell ?rb i = cell rb (unat n + i)"
    using ok(1) by (simp add: cell_def ok(2) unat_pow2) (metis add.assoc mod_add_left_eq)
qed

section \<open>The regions and the copies\<close>

text \<open>What a region of \<open>n\<close> elements from index \<open>i\<close> covers, in a buffer of \<open>N\<close> elements.\<close>

lemma read_cells:
  assumes "i < N" "n \<le> N" "N \<le> length b"
  shows "(if N < i + n then take (N - i) (drop i b) @ take (n - (N - i)) b else take n (drop i b))
    = map (\<lambda>j. b ! ((i + j) mod N)) [0 ..< n]"
proof (rule nth_equalityI)
  show "length (if N < i + n then take (N - i) (drop i b) @ take (n - (N - i)) b else take n (drop i b))
    = length (map (\<lambda>j. b ! ((i + j) mod N)) [0 ..< n])"
    using assms by auto
next
  fix j
  assume "j < length (if N < i + n then take (N - i) (drop i b) @ take (n - (N - i)) b else take n (drop i b))"
  then have j: "j < n" using assms by (auto split: if_splits)
  have m: "(i + j) mod N = (if i + j < N then i + j else i + j - N)"
    using assms j by (auto simp: mod_if)
  show "(if N < i + n then take (N - i) (drop i b) @ take (n - (N - i)) b else take n (drop i b)) ! j
    = map (\<lambda>j. b ! ((i + j) mod N)) [0 ..< n] ! j"
    using assms j m by (auto simp: nth_append add.commute)
qed

lemma write_cells:
  assumes "i < N" "n \<le> N" "N \<le> length b" "n \<le> length xs"
  defines "b' \<equiv> (if N < i + n then blit 0 (take (n - (N - i)) (drop (N - i) xs)) (blit i (take (N - i) xs) b)
    else blit i (take n xs) b)"
  shows "length b' = length b"
    "p < N \<Longrightarrow> b' ! p = (if (p + N - i) mod N < n then xs ! ((p + N - i) mod N) else b ! p)"
proof -
  show "length b' = length b" using assms by simp
  assume p: "p < N"
  have m: "(p + N - i) mod N = (if i \<le> p then p - i else p + N - i)"
    using assms(1) p by (auto simp: mod_if)
  show "b' ! p = (if (p + N - i) mod N < n then xs ! ((p + N - i) mod N) else b ! p)"
    using assms(1-4) p unfolding m b'_def by (auto simp: nth_blit add.commute)
qed

text \<open>The regions, over the naturals.\<close>

definition regions_nat :: "nat \<Rightarrow> nat \<Rightarrow> nat \<Rightarrow> nat \<times> nat" where
  "regions_nat N i n = (if N < i + n then (N - i, n - (N - i)) else (n, 0))"

lemma regions_word:
  fixes index n bs :: u32
  assumes "k \<le> 30" "unat index < 2 ^ k" "unat n \<le> 2 ^ k" "bs = 2 ^ k"
  shows "(if bs < index + n then (let f = bs - index in (m, index, f, n - f)) else (m, index, n, 0)) =
      (m, index, word_of_nat (fst (regions_nat (2 ^ k) (unat index) (unat n))),
        word_of_nat (snd (regions_nat (2 ^ k) (unat index) (unat n))))"
proof -
  have N: "unat bs = 2 ^ k" using assms by (simp add: unat_pow2)
  have "(2 :: nat) ^ k \<le> 2 ^ 30" using assms(1) by (rule power_increasing) simp
  then have s: "unat (index + n) = unat index + unat n"
    using assms by (subst unat_add_lem [THEN iffD1]) simp_all
  have f: "unat (bs - index) = 2 ^ k - unat index"
    using assms N by (simp add: unat_sub word_le_nat_alt)
  show ?thesis
  proof (cases "bs < index + n")
    case True
    then have lt: "2 ^ k < unat index + unat n" by (simp add: word_less_nat_alt s N)
    have g: "unat (n - (bs - index)) = unat n - (2 ^ k - unat index)"
      using lt f by (simp add: unat_sub word_le_nat_alt)
    show ?thesis
      using True lt by (simp add: regions_nat_def Let_def f [symmetric]) (simp add: f g [symmetric] del: unat_sub_if' of_nat_diff)
  next
    case False
    then show ?thesis by (simp add: regions_nat_def word_less_nat_alt s N)
  qed
qed

lemma signed_pos: "unat (x :: u32) \<le> 2 ^ 30 \<Longrightarrow> 0 <s x \<longleftrightarrow> 0 < unat x"
proof -
  assume "unat x \<le> 2 ^ 30"
  then have "uint x < 2 ^ 31" by (simp add: uint_nat del: of_nat_unat)
  moreover have "- (2 ^ 31) \<le> uint x" by (rule order_trans [of _ 0]) simp_all
  ultimately have "signed_take_bit 31 (uint x) = uint x" by (simp only: signed_take_bit_int_eq_self)
  then have "sint x = uint x" by (simp add: sint_uint)
  moreover have "0 < uint x \<longleftrightarrow> 0 < unat x" unfolding uint_nat by (simp only: of_nat_0_less_iff)
  ultimately show ?thesis unfolding word_sless_alt by simp
qed

lemma regions_bounds:
  assumes "i < 2 ^ k" "n \<le> 2 ^ k" "k \<le> 30"
  shows "fst (regions_nat (2 ^ k) i n) < 2 ^ 32" "snd (regions_nat (2 ^ k) i n) \<le> 2 ^ 30"
proof -
  have "(2 :: nat) ^ k \<le> 2 ^ 30" using assms(3) by (rule power_increasing) simp
  then show "fst (regions_nat (2 ^ k) i n) < 2 ^ 32" "snd (regions_nat (2 ^ k) i n) \<le> 2 ^ 30"
    using assms by (auto simp: regions_nat_def)
qed

lemma unat_small: "n < 2 ^ 32 \<Longrightarrow> unat (word_of_nat n :: u32) = n"
  by (simp add: unat_of_nat)

text \<open>The copies over the regions of \<open>m\<close> elements from \<open>index\<close>.\<close>

definition region_sizes :: "nat \<Rightarrow> u32 \<Rightarrow> u32 \<Rightarrow> u32 \<times> u32" where
  "region_sizes k index m =
     (word_of_nat (fst (regions_nat (2 ^ k) (unat index) (unat m))),
      word_of_nat (snd (regions_nat (2 ^ k) (unat index) (unat m))))"

lemma region_sizes_unat:
  assumes "unat index < 2 ^ k" "unat m \<le> 2 ^ k" "k \<le> 30" "region_sizes k index m = (s1, s2)"
  shows "unat s1 = fst (regions_nat (2 ^ k) (unat index) (unat m))"
    "unat s2 = snd (regions_nat (2 ^ k) (unat index) (unat m))" "0 <s s2 \<longleftrightarrow> 0 < unat s2"
proof -
  note b = regions_bounds [OF assms(1-3)]
  have b2: "snd (regions_nat (2 ^ k) (unat index) (unat m)) < 2 ^ 32" using b(2) by simp
  show "unat s1 = fst (regions_nat (2 ^ k) (unat index) (unat m))"
    using assms(4) unat_small [OF b(1)] by (auto simp: region_sizes_def)
  show s2: "unat s2 = snd (regions_nat (2 ^ k) (unat index) (unat m))"
    using assms(4) unat_small [OF b2] by (auto simp: region_sizes_def)
  then show "0 <s s2 \<longleftrightarrow> 0 < unat s2" using b(2) by (simp add: signed_pos)
qed

lemma copy_out_cells:
  assumes "unat index < 2 ^ k" "unat m \<le> 2 ^ k" "k \<le> 30" "region_sizes k index m = (s1, s2)"
    "2 ^ k \<le> length b"
  shows "copy_out index s1 s2 b = map (\<lambda>j. b ! ((unat index + j) mod 2 ^ k)) [0 ..< unat m]"
  using read_cells [OF assms(1,2,5)] assms(1,2)
  by (simp add: copy_out_def region_sizes_unat [OF assms(1-4)] regions_nat_def split: if_splits)

lemma copy_in_cells:
  assumes "unat index < 2 ^ k" "unat m \<le> 2 ^ k" "k \<le> 30" "region_sizes k index m = (s1, s2)"
    "2 ^ k \<le> length b" "unat m \<le> length xs"
  shows "length (copy_in index s1 s2 xs b) = length b"
    "p < 2 ^ k \<Longrightarrow> copy_in index s1 s2 xs b ! p =
      (if (p + 2 ^ k - unat index) mod 2 ^ k < unat m then xs ! ((p + 2 ^ k - unat index) mod 2 ^ k) else b ! p)"
  using write_cells [OF assms(1,2,5,6)] assms(1,2)
  by (simp_all add: copy_in_def region_sizes_unat [OF assms(1-4)] regions_nat_def split: if_splits)

lemma write_regions:
  fixes n :: u32
  assumes "rb_ok k rb"
  defines "m \<equiv> min n (GetRingBufferWriteAvailable rb)" and "index \<equiv> writeIndex rb AND smallMask rb"
  shows "GetRingBufferWriteRegions rb n = (m, index, region_sizes k index m)"
    "unat index = unat (writeIndex rb) mod 2 ^ k" "unat m = min (unat n) (2 ^ k - held rb)"
proof -
  note ok = rb_okD [OF assms(1)]
  show i: "unat index = unat (writeIndex rb) mod 2 ^ k"
    unfolding index_def ok(3) by (rule unat_and_mask)
  then have i2: "unat index < 2 ^ k" by simp
  show m: "unat m = min (unat n) (2 ^ k - held rb)"
    using unat_WriteAvailable [OF assms(1)] by (auto simp: m_def min_def word_le_nat_alt)
  have m_eq: "(if GetRingBufferWriteAvailable rb < n then GetRingBufferWriteAvailable rb else n) = m"
    by (auto simp: m_def min_def)
  have "unat m \<le> 2 ^ k" using m by simp
  then show "GetRingBufferWriteRegions rb n = (m, index, region_sizes k index m)"
    unfolding GetRingBufferWriteRegions_def region_sizes_def index_def [symmetric]
    using regions_word [OF ok(1) i2 _ ok(2), of m m] by (simp only: Let_def m_eq)
qed

lemma read_regions:
  fixes n :: u32
  assumes "rb_ok k rb"
  defines "m \<equiv> min n (GetRingBufferReadAvailable rb)" and "index \<equiv> readIndex rb AND smallMask rb"
  shows "GetRingBufferReadRegions rb n = (m, index, region_sizes k index m)"
    "unat index = unat (readIndex rb) mod 2 ^ k" "unat m = min (unat n) (held rb)"
proof -
  note ok = rb_okD [OF assms(1)]
  show i: "unat index = unat (readIndex rb) mod 2 ^ k"
    unfolding index_def ok(3) by (rule unat_and_mask)
  then have i2: "unat index < 2 ^ k" by simp
  show m: "unat m = min (unat n) (held rb)"
    by (auto simp: m_def min_def word_le_nat_alt held_def)
  have m_eq: "(if GetRingBufferReadAvailable rb < n then GetRingBufferReadAvailable rb else n) = m"
    by (auto simp: m_def min_def)
  have "unat m \<le> 2 ^ k" using m ok(7) by simp
  then show "GetRingBufferReadRegions rb n = (m, index, region_sizes k index m)"
    unfolding GetRingBufferReadRegions_def region_sizes_def index_def [symmetric]
    using regions_word [OF ok(1) i2 _ ok(2), of m m] by (simp only: Let_def m_eq)
qed

section \<open>Copies and index updates on the contents\<close>

lemma write_pos:
  assumes "rb_ok k rb"
  shows "unat (writeIndex rb) mod 2 ^ k = (unat (readIndex rb) + held rb) mod 2 ^ k"
proof -
  have "(2 :: int) ^ k dvd 2 ^ (k + 1)" by (rule le_imp_power_dvd) simp
  then have "int (held rb) mod 2 ^ k = (uint (writeIndex rb) - uint (readIndex rb)) mod 2 ^ k"
    unfolding held_int [OF assms] by (rule mod_mod_cancel)
  then have "(uint (readIndex rb) + int (held rb)) mod 2 ^ k = uint (writeIndex rb) mod 2 ^ k"
    by (metis add.commute diff_add_cancel mod_add_left_eq)
  then have "int ((unat (readIndex rb) + held rb) mod 2 ^ k) = int (unat (writeIndex rb) mod 2 ^ k)"
    unfolding zmod_int of_nat_add of_nat_power of_nat_numeral uint_nat [symmetric] .
  then show ?thesis by (simp only: of_nat_eq_iff)
qed

lemma cell_mod: "rb_ok k rb \<Longrightarrow> cell rb i = (unat (readIndex rb) + i) mod 2 ^ k"
  using rb_okD [of k rb] by (simp add: cell_def unat_pow2)

lemma cell_less: "rb_ok k rb \<Longrightarrow> cell rb i < 2 ^ k"
  by (simp add: cell_mod)

text \<open>The distance of a cell from the write index.\<close>

lemma mod_distance:
  fixes N r t h :: nat
  assumes "0 < N" "h \<le> N"
  shows "((r + t) mod N + N - (r + h) mod N) mod N = (t + N - h) mod N"
proof -
  have le: "(r + h) mod N \<le> (r + t) mod N + N" "h \<le> t + N"
    using assms by (simp_all add: less_imp_le trans_le_add2)
  have "int (((r + t) mod N + N - (r + h) mod N) mod N)
      = ((int r + int t) mod int N + int N - (int r + int h) mod int N) mod int N"
    using le(1) by (simp add: zmod_int of_nat_diff)
  also have "\<dots> = (int r + int t + int N - (int r + int h)) mod int N"
    by (intro mod_diff_cong mod_add_cong) simp_all
  also have "\<dots> = int ((t + N - h) mod N)"
    using le(2) by (simp add: zmod_int of_nat_diff add_diff_eq)
  finally show ?thesis by (simp only: of_nat_eq_iff)
qed

lemma cell_distance:
  assumes "rb_ok k rb" "t < 2 ^ k"
  shows "(cell rb t + 2 ^ k - unat (writeIndex rb) mod 2 ^ k) mod 2 ^ k
    = (if t < held rb then t + 2 ^ k - held rb else t - held rb)"
  using rb_okD(7) [OF assms(1)] assms(2)
  unfolding cell_mod [OF assms(1)] write_pos [OF assms(1)]
  by (subst mod_distance) (auto simp: mod_if)

lemma copy_in_contents:
  assumes "rb_ok k rb" "unat index = unat (writeIndex rb) mod 2 ^ k" "held rb + unat m \<le> 2 ^ k"
    "unat m \<le> length xs" "region_sizes k index m = (s1, s2)"
  defines "rb' \<equiv> rb\<lparr>buf := copy_in index s1 s2 xs (buf rb)\<rparr>"
  shows "rb_ok k rb'" "held rb' = held rb" "rb_contents rb' = rb_contents rb"
    "j < unat m \<Longrightarrow> buf rb' ! cell rb' (held rb' + j) = xs ! j"
proof -
  note ok = rb_okD [OF assms(1)]
  have i: "unat index < 2 ^ k" using assms(2) by simp
  have m: "unat m \<le> 2 ^ k" using assms(3) by simp
  have b: "2 ^ k \<le> length (buf rb)" using ok(8) by simp
  note c = copy_in_cells [OF i m ok(1) assms(5) b assms(4)]
  show h: "held rb' = held rb" by (simp add: rb'_def held_def GetRingBufferReadAvailable_def)
  have cl: "cell rb' t = cell rb t" for t by (simp add: rb'_def cell_def)
  show ok': "rb_ok k rb'"
    using ok h c(1) unfolding rb_ok_def held_def [symmetric] by (simp add: rb'_def)
  have at: "buf rb' ! cell rb t = (if held rb \<le> t \<and> t < held rb + unat m then xs ! (t - held rb) else buf rb ! cell rb t)"
    if "t < 2 ^ k" for t
    using c(2) [OF cell_less [OF assms(1)], of t] cell_distance [OF assms(1) that] that assms(3) ok(7)
    by (auto simp: rb'_def assms(2))
  show "rb_contents rb' = rb_contents rb"
    using ok(7) by (auto simp: rb_contents_def h cl at)
  show "buf rb' ! cell rb' (held rb' + j) = xs ! j" if "j < unat m"
    using at [of "held rb + j"] that assms(3) by (simp add: h cl)
qed

lemma publish_contents:
  assumes "rb_ok k rb" "held rb + unat m \<le> 2 ^ k"
  shows "rb_contents (AdvanceRingBufferWriteIndex rb m)
    = rb_contents rb @ map (\<lambda>j. buf rb ! cell rb (held rb + j)) [0 ..< unat m]"
proof -
  have "[0 ..< h + n] = [0 ..< h] @ map (\<lambda>j. h + j) [0 ..< n]" for h n :: nat
    by (induction n) simp_all
  moreover have "cell (AdvanceRingBufferWriteIndex rb m) = cell rb"
    "buf (AdvanceRingBufferWriteIndex rb m) = buf rb"
    by (simp_all add: fun_eq_iff cell_def AdvanceRingBufferWriteIndex_def)
  ultimately show ?thesis
    unfolding rb_contents_def advance_write(2) [OF assms] by (simp add: comp_def)
qed

lemma consume_contents:
  assumes "rb_ok k rb" "unat m \<le> held rb"
  shows "rb_contents (AdvanceRingBufferReadIndex rb m) = drop (unat m) (rb_contents rb)"
proof (rule nth_equalityI)
  show "length (rb_contents (AdvanceRingBufferReadIndex rb m)) = length (drop (unat m) (rb_contents rb))"
    by (simp add: rb_contents_def advance_read(2) [OF assms])
next
  fix i assume "i < length (rb_contents (AdvanceRingBufferReadIndex rb m))"
  then have "unat m + i < held rb" "i < held rb - unat m"
    by (simp_all add: rb_contents_def advance_read(2) [OF assms])
  moreover have "buf (AdvanceRingBufferReadIndex rb m) = buf rb"
    by (simp add: AdvanceRingBufferReadIndex_def)
  ultimately show "rb_contents (AdvanceRingBufferReadIndex rb m) ! i = drop (unat m) (rb_contents rb) ! i"
    by (simp add: rb_contents_def advance_read(2,3) [OF assms])
qed

lemma copy_out_contents:
  assumes "rb_ok k rb" "unat index = unat (readIndex rb) mod 2 ^ k" "unat m \<le> held rb"
    "region_sizes k index m = (s1, s2)"
  shows "copy_out index s1 s2 (buf rb) = take (unat m) (rb_contents rb)"
proof -
  note ok = rb_okD [OF assms(1)]
  have i: "unat index < 2 ^ k" using assms(2) by simp
  have m: "unat m \<le> 2 ^ k" using assms(3) ok(7) by simp
  have b: "2 ^ k \<le> length (buf rb)" using ok(8) by simp
  show ?thesis
    unfolding copy_out_cells [OF i m ok(1) assms(4) b]
    using assms(3) by (auto simp: rb_contents_def take_map cell_mod [OF assms(1)] assms(2) mod_simps)
qed

lemma length_rb_contents [length_simps]: "length (rb_contents rb) = held rb"
  by (simp add: rb_contents_def)

lemma map_nth_upt_take: "n \<le> length xs \<Longrightarrow> map ((!) xs) [0 ..< n] = take n xs"
  by (rule nth_equalityI) simp_all

section \<open>The sequential operations\<close>

text \<open>Caller's contract: the memory handed in holds at least the elements it announces.\<close>

lemma put_laws:
  assumes "rb_ok k rb" "unat n \<le> length xs"
  defines "m \<equiv> min (unat n) (2 ^ k - held rb)"
  shows "unat (fst (putDataIntoBuffer rb xs n)) = m"
    "rb_ok k (snd (putDataIntoBuffer rb xs n))"
    "rb_contents (snd (putDataIntoBuffer rb xs n)) = rb_contents rb @ take m xs"
proof -
  define mm index where "mm = min n (GetRingBufferWriteAvailable rb)"
    and "index = writeIndex rb AND smallMask rb"
  note w = write_regions(1) [OF assms(1), of n, folded mm_def index_def]
    write_regions(2) [OF assms(1), folded index_def]
    write_regions(3) [OF assms(1), of n, folded mm_def]
  obtain s1 s2 where s: "region_sizes k index mm = (s1, s2)" by (cases "region_sizes k index mm")
  define rb' where "rb' = rb\<lparr>buf := copy_in index s1 s2 xs (buf rb)\<rparr>"
  have put: "putDataIntoBuffer rb xs n = (mm, AdvanceRingBufferWriteIndex rb' mm)"
    by (simp add: putDataIntoBuffer_def w(1) s rb'_def)
  have b: "held rb + unat mm \<le> 2 ^ k" "unat mm \<le> length xs"
    using w(3) assms(2) rb_okD(7) [OF assms(1)] by auto
  note c = copy_in_contents [OF assms(1) w(2) b s, folded rb'_def]
  have b': "held rb' + unat mm \<le> 2 ^ k" using b c(2) by simp
  show m: "unat (fst (putDataIntoBuffer rb xs n)) = m" by (simp add: put w(3) m_def)
  show "rb_ok k (snd (putDataIntoBuffer rb xs n))" using advance_write(1) [OF c(1) b'] by (simp add: put)
  have "map (\<lambda>j. buf rb' ! cell rb' (held rb' + j)) [0 ..< unat mm] = map ((!) xs) [0 ..< unat mm]"
    using c(4) by simp
  also have "\<dots> = take (unat mm) xs" using b(2) by (simp add: map_nth_upt_take)
  finally show "rb_contents (snd (putDataIntoBuffer rb xs n)) = rb_contents rb @ take m xs"
    using publish_contents [OF c(1) b'] c(3) by (simp add: put w(3) m_def)
qed

lemma get_laws:
  fixes n :: u32
  assumes "rb_ok k rb"
  defines "m \<equiv> min (unat n) (held rb)"
  shows "fst (getDataFromBuffer rb n) = take m (rb_contents rb)"
    "unat (fst (snd (getDataFromBuffer rb n))) = m"
    "rb_ok k (snd (snd (getDataFromBuffer rb n)))"
    "rb_contents (snd (snd (getDataFromBuffer rb n))) = drop m (rb_contents rb)"
    "peekBuffer rb n = (take m (rb_contents rb), fst (snd (getDataFromBuffer rb n)))"
    "skipDataInBuffer rb n = snd (getDataFromBuffer rb n)"
proof -
  define mm index where "mm = min n (GetRingBufferReadAvailable rb)"
    and "index = readIndex rb AND smallMask rb"
  note r = read_regions(1) [OF assms(1), of n, folded mm_def index_def]
    read_regions(2) [OF assms(1), folded index_def]
    read_regions(3) [OF assms(1), of n, folded mm_def]
  obtain s1 s2 where s: "region_sizes k index mm = (s1, s2)" by (cases "region_sizes k index mm")
  have b: "unat mm \<le> held rb" using r(3) by simp
  have get: "getDataFromBuffer rb n = (take m (rb_contents rb), mm, AdvanceRingBufferReadIndex rb mm)"
    using copy_out_contents [OF assms(1) r(2) b s]
    by (simp add: getDataFromBuffer_def r(1,3) s m_def)
  have "unat mm = m" using r(3) by (simp add: m_def)
  then show "fst (getDataFromBuffer rb n) = take m (rb_contents rb)"
    "unat (fst (snd (getDataFromBuffer rb n))) = m"
    "rb_ok k (snd (snd (getDataFromBuffer rb n)))"
    "rb_contents (snd (snd (getDataFromBuffer rb n))) = drop m (rb_contents rb)"
    using advance_read(1) [OF assms(1) b] consume_contents [OF assms(1) b] by (simp_all add: get)
  show "peekBuffer rb n = (take m (rb_contents rb), fst (snd (getDataFromBuffer rb n)))"
    using copy_out_contents [OF assms(1) r(2) b s] by (simp add: peekBuffer_def r(1,3) s get m_def)
  show "skipDataInBuffer rb n = snd (getDataFromBuffer rb n)"
    by (auto simp: skipDataInBuffer_def get mm_def min_def Let_def)
qed

section \<open>The buffer is a bounded store\<close>

definition rb_put :: "'a ringBuffer \<Rightarrow> 'a list \<Rightarrow> nat \<times> 'a ringBuffer" where
  "rb_put rb xs = (let (n, rb') = putDataIntoBuffer rb xs (word_of_nat (length xs)) in (unat n, rb'))"

definition rb_get :: "'a ringBuffer \<Rightarrow> nat \<Rightarrow> 'a list \<times> 'a ringBuffer" where
  "rb_get rb n = (let (out, _, rb') = getDataFromBuffer rb (word_of_nat n) in (out, rb'))"

lemma bufferSize_kept:
  "bufferSize (snd (putDataIntoBuffer rb xs n)) = bufferSize rb"
  "bufferSize (snd (snd (getDataFromBuffer rb n))) = bufferSize rb"
  by (simp_all add: putDataIntoBuffer_def getDataFromBuffer_def Let_def split_def
      AdvanceRingBufferWriteIndex_def AdvanceRingBufferReadIndex_def)

lemma unat_length_word: "n \<le> 2 ^ 30 \<Longrightarrow> unat (word_of_nat n :: u32) = n"
  by (rule unat_small) simp

lemma rb_size: "rb_ok k rb \<Longrightarrow> unat (bufferSize rb) = 2 ^ k"
  using rb_okD [of k rb] by (simp add: unat_pow2)

interpretation rb_fifo: bounded_fifo "\<lambda>rb. \<exists>k. rb_ok k rb" rb_contents "\<lambda>rb. unat (bufferSize rb)" rb_put rb_get
proof unfold_locales
  fix rb :: "'a ringBuffer" and xs :: "'a list"
  assume "\<exists>k. rb_ok k rb" and len: "length xs \<le> 2 ^ 30"
  then obtain k where ok: "rb_ok k rb" by blast
  have l: "unat (word_of_nat (length xs) :: u32) \<le> length xs" using len by (simp add: unat_length_word)
  note p = put_laws [OF ok l, unfolded unat_length_word [OF len]]
  show "(\<exists>k. rb_ok k (snd (rb_put rb xs))) \<and> unat (bufferSize (snd (rb_put rb xs))) = unat (bufferSize rb)"
    using p(2) by (auto simp: rb_put_def split_def Let_def bufferSize_kept)
  show "fst (rb_put rb xs) = min (length xs) (unat (bufferSize rb) - length (rb_contents rb))"
    using p(1) by (simp add: rb_put_def split_def Let_def rb_size [OF ok] length_rb_contents)
  show "rb_contents (snd (rb_put rb xs)) = rb_contents rb @ take (fst (rb_put rb xs)) xs"
    using p(1,3) by (simp add: rb_put_def split_def Let_def)
next
  fix rb :: "'a ringBuffer" and n
  assume "\<exists>k. rb_ok k rb" and len: "n \<le> (2 :: nat) ^ 30"
  then obtain k where ok: "rb_ok k rb" by blast
  note g = get_laws [OF ok, of "word_of_nat n", unfolded unat_length_word [OF len]]
  show "(\<exists>k. rb_ok k (snd (rb_get rb n))) \<and> unat (bufferSize (snd (rb_get rb n))) = unat (bufferSize rb)"
    using g(3) by (auto simp: rb_get_def split_def Let_def bufferSize_kept)
  show "fst (rb_get rb n) = take n (rb_contents rb)"
    using g(1) by (auto simp: rb_get_def split_def Let_def length_rb_contents [symmetric] min_def)
  show "rb_contents (snd (rb_get rb n)) = drop n (rb_contents rb)"
    using g(4) by (auto simp: rb_get_def split_def Let_def length_rb_contents [symmetric] min_def)
qed

section \<open>The constructor\<close>

lemma pow2_and: "(2 ^ k - 1) AND 2 ^ k = (0 :: u32)"
proof -
  have "mask k AND 2 ^ k = (0 :: u32)"
    by (rule bit_eqI) (auto simp: bit_and_iff bit_mask_iff bit_exp_iff)
  then show ?thesis by (simp only: mask_eq_exp_minus_1)
qed

text \<open>The constructor's test recognises exactly the powers of two (0 apart).\<close>

lemma nat_split_pow2:
  assumes "0 < (n :: nat)"
  obtains k m where "n = 2 ^ k + m" "m < 2 ^ k"
proof -
  obtain k where "2 ^ k \<le> n" "n < 2 ^ Suc k" using ex_power_ivl1 [of 2 n] assms by auto
  then show ?thesis using that [of k "n - 2 ^ k"] by simp
qed

lemma and_pred_eq_0:
  assumes "(n :: u32) \<noteq> 0" "(n - 1) AND n = 0"
  shows "\<exists>k. n = 2 ^ k"
proof -
  obtain k m where km: "unat n = 2 ^ k + m" "m < 2 ^ k"
    using nat_split_pow2 [of "unat n"] assms(1) by (metis gr0I unat_eq_0)
  have k: "k < 32"
  proof (rule ccontr)
    assume "\<not> k < 32"
    then have "(2 :: nat) ^ 32 \<le> 2 ^ k" by (intro power_increasing) simp_all
    then show False using km(1) unsigned_less [of n, where 'a = nat] by simp
  qed
  have bit: "bit x k" if "unat x div 2 ^ k = 1" for x :: u32
  proof -
    have "bit (unat x) k" using that by (simp add: bit_iff_odd)
    then show ?thesis by (simp add: bit_unsigned_iff)
  qed
  have "m = 0"
  proof (rule ccontr)
    assume "m \<noteq> 0"
    have "unat (n - 1) = 2 ^ k + (m - 1)"
      using km(1) assms(1) \<open>m \<noteq> 0\<close> by (simp add: unat_minus_one)
    then have "unat (n - 1) div 2 ^ k = 1" "unat n div 2 ^ k = 1" using km by (simp_all add: div_add_self1)
    then have "bit ((n - 1) AND n) k" by (simp only: bit bit_and_iff)
    then show False using assms(2) by simp
  qed
  then have "unat n = unat (2 ^ k :: u32)" using km(1) k by (simp add: unat_pow2)
  then show ?thesis by (auto simp: word_unat_eq_iff)
qed

lemma new_RingBuffer_ok:
  assumes "0 < unat n" "unat n \<le> 2 ^ 30" "length mem = 2 * unat (bufferSize (new_RingBuffer n mem))"
  shows "\<exists>k. rb_ok k (new_RingBuffer n mem)" "rb_contents (new_RingBuffer n mem) = []"
    "(\<exists>k. n = 2 ^ k) \<Longrightarrow> bufferSize (new_RingBuffer n mem) = n"
    "(\<nexists>k. n = 2 ^ k) \<Longrightarrow> bufferSize (new_RingBuffer n mem) = 32768"
proof -
  let ?e = "if (n - 1) AND n \<noteq> 0 then 2 * 16384 else n"
  have pow: "(n - 1) AND n = 0 \<longleftrightarrow> (\<exists>k. n = 2 ^ k)"
    using and_pred_eq_0 [of n] assms(1) pow2_and by (auto simp: unat_gt_0)
  have "\<exists>k \<le> 30. ?e = 2 ^ k"
  proof (cases "(n - 1) AND n = 0")
    case True
    then obtain k where k: "n = 2 ^ k" using pow by blast
    have "k \<le> 30"
    proof (rule ccontr)
      assume "\<not> k \<le> 30"
      moreover have "k < 32" using assms(1) k by (cases "k < 32") (simp_all add: exp_eq_zero_iff [THEN iffD2])
      ultimately have "k = 31" by simp
      then show False using assms(2) k by simp
    qed
    then show ?thesis using True k by auto
  next
    case False
    then show ?thesis by (intro exI [of _ 15]) simp
  qed
  then obtain k where k: "k \<le> 30" "?e = 2 ^ k" by blast
  have new: "new_RingBuffer n mem = \<lparr>bufferSize = 2 ^ k, writeIndex = 0, readIndex = 0,
      bigMask = mask (k + 1), smallMask = mask k, buf = mem\<rparr>"
    unfolding new_RingBuffer_def Let_def k(2) by (simp add: mask_eq_exp_minus_1 mult.commute)
  have "rb_ok k (new_RingBuffer n mem)"
    using assms(3) k(1) unfolding rb_ok_def
    by (simp add: new GetRingBufferReadAvailable_def unat_pow2)
  then show "\<exists>k. rb_ok k (new_RingBuffer n mem)" by blast
  show "rb_contents (new_RingBuffer n mem) = []"
    by (simp add: rb_contents_def held_def GetRingBufferReadAvailable_def new)
  show "(\<exists>k. n = 2 ^ k) \<Longrightarrow> bufferSize (new_RingBuffer n mem) = n"
    "(\<nexists>k. n = 2 ^ k) \<Longrightarrow> bufferSize (new_RingBuffer n mem) = 32768"
    using pow by (auto simp: new_RingBuffer_def)
qed

section \<open>One producer and one consumer\<close>

text \<open>
  The two threads interleave between the computation of the regions, the copy and the update of
  the index. A producer step may thus see a read index that is out of date by the time it copies,
  and the other way round; \<open>published\<close> and \<open>delivered\<close> record what went in and out.
\<close>

datatype 'a producer =
    PIdle
  | PRegions "'a list" "u32 \<times> u32 \<times> u32 \<times> u32"
  | PCopied "'a list" u32

datatype 'a consumer =
    CIdle
  | CRegions "u32 \<times> u32 \<times> u32 \<times> u32"
  | CCopied "'a list" u32

record 'a threads =
  ring :: "'a ringBuffer"
  prod :: "'a producer"
  cons :: "'a consumer"
  published :: "'a list"
  delivered :: "'a list"

inductive rb_step :: "'a threads \<Rightarrow> 'a threads \<Rightarrow> bool" where
  put_regions: "prod s = PIdle \<Longrightarrow> length xs \<le> 2 ^ 30 \<Longrightarrow>
    rb_step s (s\<lparr>prod := PRegions xs (GetRingBufferWriteRegions (ring s) (word_of_nat (length xs)))\<rparr>)"
| put_copy: "prod s = PRegions xs (m, index, s1, s2) \<Longrightarrow>
    rb_step s (s\<lparr>prod := PCopied xs m, ring := (ring s)\<lparr>buf := copy_in index s1 s2 xs (buf (ring s))\<rparr>\<rparr>)"
| put_publish: "prod s = PCopied xs m \<Longrightarrow>
    rb_step s (s\<lparr>prod := PIdle, ring := AdvanceRingBufferWriteIndex (ring s) m,
      published := published s @ take (unat m) xs\<rparr>)"
| get_regions: "cons s = CIdle \<Longrightarrow>
    rb_step s (s\<lparr>cons := CRegions (GetRingBufferReadRegions (ring s) n)\<rparr>)"
| get_copy: "cons s = CRegions (m, index, s1, s2) \<Longrightarrow>
    rb_step s (s\<lparr>cons := CCopied (copy_out index s1 s2 (buf (ring s))) m\<rparr>)"
| get_publish: "cons s = CCopied out m \<Longrightarrow>
    rb_step s (s\<lparr>cons := CIdle, ring := AdvanceRingBufferReadIndex (ring s) m,
      delivered := delivered s @ out\<rparr>)"

inductive_cases rb_stepE: "rb_step s t"

definition start :: "'a ringBuffer \<Rightarrow> 'a threads" where
  "start rb = \<lparr>ring = rb, prod = PIdle, cons = CIdle, published = [], delivered = []\<rparr>"

text \<open>What each thread may rely on while it is between two of its steps.\<close>

fun producer_ok :: "nat \<Rightarrow> 'a ringBuffer \<Rightarrow> 'a producer \<Rightarrow> bool" where
  "producer_ok k rb PIdle \<longleftrightarrow> True"
| "producer_ok k rb (PRegions xs (m, index, s1, s2)) \<longleftrightarrow>
     unat index = unat (writeIndex rb) mod 2 ^ k \<and> held rb + unat m \<le> 2 ^ k \<and>
     unat m \<le> length xs \<and> region_sizes k index m = (s1, s2)"
| "producer_ok k rb (PCopied xs m) \<longleftrightarrow>
     held rb + unat m \<le> 2 ^ k \<and> unat m \<le> length xs \<and>
     (\<forall>j < unat m. buf rb ! cell rb (held rb + j) = xs ! j)"

fun consumer_ok :: "nat \<Rightarrow> 'a ringBuffer \<Rightarrow> 'a consumer \<Rightarrow> bool" where
  "consumer_ok k rb CIdle \<longleftrightarrow> True"
| "consumer_ok k rb (CRegions (m, index, s1, s2)) \<longleftrightarrow>
     unat index = unat (readIndex rb) mod 2 ^ k \<and> unat m \<le> held rb \<and> region_sizes k index m = (s1, s2)"
| "consumer_ok k rb (CCopied out m) \<longleftrightarrow> unat m \<le> held rb \<and> out = take (unat m) (rb_contents rb)"

definition threads_ok :: "nat \<Rightarrow> 'a threads \<Rightarrow> bool" where
  "threads_ok k s \<longleftrightarrow> rb_ok k (ring s) \<and> producer_ok k (ring s) (prod s) \<and> consumer_ok k (ring s) (cons s)
     \<and> published s = delivered s @ rb_contents (ring s)"

lemma advance_write_frame:
  "readIndex (AdvanceRingBufferWriteIndex rb m) = readIndex rb"
  "buf (AdvanceRingBufferWriteIndex rb m) = buf rb"
  "cell (AdvanceRingBufferWriteIndex rb m) = cell rb"
  by (simp_all add: AdvanceRingBufferWriteIndex_def fun_eq_iff cell_def)

lemma advance_read_frame:
  "writeIndex (AdvanceRingBufferReadIndex rb m) = writeIndex rb"
  "buf (AdvanceRingBufferReadIndex rb m) = buf rb"
  by (simp_all add: AdvanceRingBufferReadIndex_def)

text \<open>A thread's facts survive the steps of the other one.\<close>

lemma consumer_ok_publish:
  assumes "rb_ok k rb" "held rb + unat m \<le> 2 ^ k" "consumer_ok k rb c"
  shows "consumer_ok k (AdvanceRingBufferWriteIndex rb m) c"
  using assms(3)
  by (cases "(k, rb, c)" rule: consumer_ok.cases)
    (auto simp: advance_write [OF assms(1,2)] advance_write_frame publish_contents [OF assms(1,2)]
      length_rb_contents)

lemma producer_ok_consume:
  assumes "rb_ok k rb" "unat m \<le> held rb" "producer_ok k rb p"
  shows "producer_ok k (AdvanceRingBufferReadIndex rb m) p"
proof -
  have "unat m + (held rb - unat m + j) = held rb + j" for j using assms(2) by simp
  then show ?thesis
    using assms(3)
    by (cases "(k, rb, p)" rule: producer_ok.cases)
      (auto simp: advance_read [OF assms(1,2)] advance_read_frame)
qed

lemma rb_step_ok:
  assumes "rb_step s t" "threads_ok k s"
  shows "threads_ok k t"
  using assms
proof cases
  case (put_regions xs)
  have ok: "rb_ok k (ring s)" using assms(2) by (simp add: threads_ok_def)
  note r = write_regions(1) [OF ok, of "word_of_nat (length xs)"] write_regions(2) [OF ok]
    write_regions(3) [OF ok, of "word_of_nat (length xs)"]
  obtain s1 s2 where s: "region_sizes k (writeIndex (ring s) AND smallMask (ring s))
      (min (word_of_nat (length xs)) (GetRingBufferWriteAvailable (ring s))) = (s1, s2)"
    by fastforce
  have "producer_ok k (ring s) (PRegions xs (GetRingBufferWriteRegions (ring s) (word_of_nat (length xs))))"
    unfolding r(1) s using r(2,3) s rb_okD(7) [OF ok] unat_length_word [OF put_regions(3)] by simp
  then show ?thesis using assms(2) put_regions(1) by (simp add: threads_ok_def)
next
  case (put_copy xs m index s1 s2)
  have ok: "rb_ok k (ring s)" and p: "producer_ok k (ring s) (PRegions xs (m, index, s1, s2))"
    using assms(2) put_copy(2) by (simp_all add: threads_ok_def)
  let ?rb = "(ring s)\<lparr>buf := copy_in index s1 s2 xs (buf (ring s))\<rparr>"
  have c: "rb_ok k ?rb" "held ?rb = held (ring s)" "rb_contents ?rb = rb_contents (ring s)"
    and w: "\<And>j. j < unat m \<Longrightarrow> buf ?rb ! cell ?rb (held ?rb + j) = xs ! j"
    using copy_in_contents [OF ok, of index m xs s1 s2] p by simp_all
  have "producer_ok k ?rb (PCopied xs m)" using p c(2) w by simp
  moreover have "consumer_ok k ?rb (cons s)"
  proof -
    have "consumer_ok k (ring s) (cons s)" using assms(2) by (simp add: threads_ok_def)
    then show ?thesis
      by (cases "(k, ring s, cons s)" rule: consumer_ok.cases) (auto simp: c(2,3))
  qed
  ultimately show ?thesis using assms(2) c put_copy(1) by (simp add: threads_ok_def)
next
  case (put_publish xs m)
  have ok: "rb_ok k (ring s)" and p: "producer_ok k (ring s) (PCopied xs m)"
    using assms(2) put_publish(2) by (simp_all add: threads_ok_def)
  have h: "held (ring s) + unat m \<le> 2 ^ k" using p by simp
  have "map (\<lambda>j. buf (ring s) ! cell (ring s) (held (ring s) + j)) [0 ..< unat m] = take (unat m) xs"
    using p by (simp add: map_nth_upt_take [symmetric])
  then have "rb_contents (AdvanceRingBufferWriteIndex (ring s) m) = rb_contents (ring s) @ take (unat m) xs"
    by (simp only: publish_contents [OF ok h])
  then show ?thesis
    using assms(2) advance_write(1) [OF ok h] consumer_ok_publish [OF ok h] put_publish(1)
    by (simp add: threads_ok_def)
next
  case (get_regions n)
  have ok: "rb_ok k (ring s)" using assms(2) by (simp add: threads_ok_def)
  note r = read_regions(1) [OF ok, of n] read_regions(2) [OF ok] read_regions(3) [OF ok, of n]
  obtain s1 s2 where s: "region_sizes k (readIndex (ring s) AND smallMask (ring s))
      (min n (GetRingBufferReadAvailable (ring s))) = (s1, s2)"
    by fastforce
  have "consumer_ok k (ring s) (CRegions (GetRingBufferReadRegions (ring s) n))"
    unfolding r(1) s using r(2,3) s by simp
  then show ?thesis using assms(2) get_regions(1) by (simp add: threads_ok_def)
next
  case (get_copy m index s1 s2)
  have ok: "rb_ok k (ring s)" and c: "consumer_ok k (ring s) (CRegions (m, index, s1, s2))"
    using assms(2) get_copy(2) by (simp_all add: threads_ok_def)
  have "copy_out index s1 s2 (buf (ring s)) = take (unat m) (rb_contents (ring s))"
    using c by (intro copy_out_contents [OF ok]) simp_all
  then show ?thesis using assms(2) c get_copy(1) by (simp add: threads_ok_def)
next
  case (get_publish out m)
  have ok: "rb_ok k (ring s)" and c: "consumer_ok k (ring s) (CCopied out m)"
    using assms(2) get_publish(2) by (simp_all add: threads_ok_def)
  have h: "unat m \<le> held (ring s)" using c by simp
  show ?thesis
    using assms(2) c advance_read(1) [OF ok h] producer_ok_consume [OF ok h]
      consume_contents [OF ok h] get_publish(1)
    by (simp add: threads_ok_def)
qed

lemma rb_steps_ok: "rb_step\<^sup>*\<^sup>* s t \<Longrightarrow> threads_ok k s \<Longrightarrow> threads_ok k t"
  by (induction rule: rtranclp_induct) (auto intro: rb_step_ok)

section \<open>Properties\<close>

lemma held_le_size: "rb_ok k rb \<Longrightarrow> length (rb_contents rb) \<le> unat (bufferSize rb)"
  by (simp add: length_rb_contents rb_size rb_okD(7))

text \<open>
  Used by one thread, the ring buffer is a queue: after any sequence of writes and reads of at
  most \<open>2 ^ 30\<close> elements on a new buffer, whatever size was asked for, what the writes were
  granted is what the reads handed out followed by what the buffer still holds, in that order,
  and it never holds more than its size; a write is granted exactly what fits.
\<close>
theorem ring_buffer_queue:
  assumes "0 < unat n" "unat n \<le> 2 ^ 30" "length mem = 2 * unat (bufferSize (new_RingBuffer n mem))"
    "list_all sized ops" "length xs \<le> 2 ^ 30"
  shows "case fifo_run rb_put rb_get ops (new_RingBuffer n mem) of (ins, outs, r) \<Rightarrow>
    ins = outs @ rb_contents r \<and> length (rb_contents r) \<le> unat (bufferSize r)
    \<and> fst (rb_put r xs) = min (length xs) (unat (bufferSize r) - length (rb_contents r))"
proof -
  note new = new_RingBuffer_ok [OF assms(1-3)]
  obtain ins outs r where r: "fifo_run rb_put rb_get ops (new_RingBuffer n mem) = (ins, outs, r)"
    by (cases "fifo_run rb_put rb_get ops (new_RingBuffer n mem)")
  have "(\<exists>k. rb_ok k r) \<and> rb_contents (new_RingBuffer n mem) @ ins = outs @ rb_contents r"
    by (rule rb_fifo.run_fifo [OF new(1) assms(4) r])
  then show ?thesis
    using rb_fifo.put_count [of r xs] assms(5) new(2) r by (auto intro: held_le_size)
qed

theorem ring_buffer_queue_witness:
  "case fifo_run rb_put rb_get [Put [7, 8, 9], Get 2, Put [5, 6, 4], Get 4] (new_RingBuffer 4 (replicate 8 (0 :: nat)))
   of (ins, outs, r) \<Rightarrow> ins = outs @ rb_contents r \<and> length (rb_contents r) \<le> unat (bufferSize r)
    \<and> fst (rb_put r [1]) = min (length [1 :: nat]) (unat (bufferSize r) - length (rb_contents r))"
  by (rule ring_buffer_queue) (simp_all add: new_RingBuffer_def)

text \<open>
  C12. Between one producer and one consumer thread the ring buffer needs no lock: however the
  computation of the regions, the copies and the updates of the indices of the two threads
  interleave, the elements the producer has published are those the consumer has taken followed by
  those in the buffer, in order, none lost, doubled or overwritten.
\<close>
theorem ring_buffer_threads:
  assumes "0 < unat n" "unat n \<le> 2 ^ 30" "length mem = 2 * unat (bufferSize (new_RingBuffer n mem))"
    "rb_step\<^sup>*\<^sup>* (start (new_RingBuffer n mem)) t"
  shows "published t = delivered t @ rb_contents (ring t)
    \<and> length (rb_contents (ring t)) \<le> unat (bufferSize (ring t))"
proof -
  note new = new_RingBuffer_ok [OF assms(1-3)]
  obtain k where "rb_ok k (new_RingBuffer n mem)" using new(1) by blast
  then have "threads_ok k (start (new_RingBuffer n mem))"
    using new(2) by (simp add: threads_ok_def start_def)
  then have "threads_ok k t" by (rule rb_steps_ok [OF assms(4)])
  then show ?thesis by (auto simp: threads_ok_def intro: held_le_size)
qed

theorem ring_buffer_threads_witness:
  "\<exists>t. prod t = PRegions [7, 8] (GetRingBufferWriteRegions (new_RingBuffer 4 (replicate 8 (0 :: nat))) 2)
    \<and> rb_step\<^sup>*\<^sup>* (start (new_RingBuffer 4 (replicate 8 (0 :: nat)))) t
    \<and> published t = delivered t @ rb_contents (ring t)
    \<and> length (rb_contents (ring t)) \<le> unat (bufferSize (ring t))"
proof -
  let ?s = "start (new_RingBuffer 4 (replicate 8 (0 :: nat)))"
  let ?t = "?s\<lparr>prod := PRegions [7, 8] (GetRingBufferWriteRegions (ring ?s) (word_of_nat (length [7, 8 :: nat])))\<rparr>"
  have step: "rb_step\<^sup>*\<^sup>* ?s ?t"
    by (intro r_into_rtranclp put_regions) (simp_all add: start_def)
  have "published ?t = delivered ?t @ rb_contents (ring ?t)
    \<and> length (rb_contents (ring ?t)) \<le> unat (bufferSize (ring ?t))"
    by (rule ring_buffer_threads [of 4 "replicate 8 0"]) (use step in \<open>simp_all add: new_RingBuffer_def\<close>)
  then show ?thesis using step by (intro exI [of _ ?t]) (simp add: start_def)
qed

end
