(* ===== verification/DrmBasics.thy ===== *)
theory DrmBasics
  imports Prelude
begin

text \<open>
  The parameters of the OFDM modes (\<open>basics.cpp\<close>; the modes A to D are 1 to 4) and the places of the
  cells of the fast access channel in a frame (\<open>fac/fac-tables.cpp\<close>).
\<close>

section \<open>Modes\<close>

definition Ts_of :: "nat \<Rightarrow> int" where
  "Ts_of Mode = (if Mode = 3 then 240 else if Mode = 4 then 200 else 320)"

definition Tg_of :: "nat \<Rightarrow> int" where
  "Tg_of Mode = (if Mode = 2 \<or> Mode = 3 then 64 else if Mode = 4 then 88 else 32)"

definition Tu_of :: "nat \<Rightarrow> int" where
  "Tu_of Mode = Ts_of Mode - Tg_of Mode"

definition symbolsperFrame :: "nat \<Rightarrow> int" where
  "symbolsperFrame Mode = (if Mode = 3 then 20 else if Mode = 4 then 24 else 15)"

definition groupsperFrame :: "nat \<Rightarrow> int" where
  "groupsperFrame Mode = (if Mode = 2 then 3 else if Mode = 3 then 2 else if Mode = 4 then 3 else 5)"

definition pilotDistance :: "nat \<Rightarrow> int" where
  "pilotDistance Mode = (if Mode = 2 then 6 else if Mode = 3 then 4 else if Mode = 4 then 3 else 20)"

definition symbolsperGroup :: "nat \<Rightarrow> int" where
  "symbolsperGroup Mode = symbolsperFrame Mode div groupsperFrame Mode"

text \<open>The lowest and the highest carrier.\<close>

definition Kmin :: "nat \<Rightarrow> nat \<Rightarrow> int" where
  "Kmin Mode s =
     (if Mode = 2 then (if s = 0 then 1 else if s = 1 then 1 else if s = 2 then - 91 else if s = 3 then - 103
        else if s = 4 then - 87 else - 99)
      else if Mode = 3 then (if s = 3 then - 69 else - 67)
      else if Mode = 4 then (if s = 3 then - 44 else - 43)
      else (if s = 0 then 2 else if s = 1 then 2 else if s = 2 then - 102 else if s = 3 then - 114
        else if s = 4 then - 98 else - 110))"

definition Kmax :: "nat \<Rightarrow> nat \<Rightarrow> int" where
  "Kmax Mode s =
     (if Mode = 2 then (if s = 0 then 91 else if s = 1 then 103 else if s = 2 then 91 else if s = 3 then 103
        else if s = 4 then 279 else 311)
      else if Mode = 3 then (if s = 3 then 69 else 213)
      else if Mode = 4 then (if s = 4 then 44 else 135)
      else (if s = 0 then 102 else if s = 1 then 114 else if s = 2 then 102 else if s = 3 then 114
        else if s = 4 then 314 else 350))"

definition ususedCarriers :: "nat \<Rightarrow> int" where
  "ususedCarriers Mode = (if Mode = 1 then 3 else 1)"

section \<open>The cells of the fast access channel\<close>

definition table_modeA :: "(int \<times> int) list" where
  "table_modeA =
    [(2, 26), (2, 46), (2, 66), (2, 86),
     (3, 10), (3, 20), (3, 50), (3, 70), (3, 90),
     (4, 14), (4, 22), (4, 24), (4, 62), (4, 74), (4, 94),
     (5, 26), (5, 38), (5, 58), (5, 66), (5, 78),
     (6, 22), (6, 30), (6, 42), (6, 62), (6, 70), (6, 82),
     (7, 26), (7, 34), (7, 46), (7, 66), (7, 74), (7, 86),
     (8, 10), (8, 30), (8, 38), (8, 50), (8, 58), (8, 70), (8, 78), (8, 90),
     (9, 14), (9, 22), (9, 34), (9, 42), (9, 62), (9, 74), (9, 82), (9, 94),
     (10, 26), (10, 38), (10, 46), (10, 66), (10, 86),
     (11, 10), (11, 30), (11, 50), (11, 70), (11, 90),
     (12, 14), (12, 34), (12, 74), (12, 94),
     (13, 38), (13, 58), (13, 78),
     (- 1, - 1)]"

definition table_modeB :: "(int \<times> int) list" where
  "table_modeB =
    [(2, 13), (2, 25), (2, 43), (2, 55), (2, 67),
     (3, 15), (3, 27), (3, 45), (3, 57), (3, 69),
     (4, 17), (4, 29), (4, 47), (4, 59), (4, 71),
     (5, 19), (5, 31), (5, 49), (5, 61), (5, 73),
     (6, 9), (6, 21), (6, 33), (6, 51), (6, 63), (6, 75),
     (7, 11), (7, 23), (7, 35), (7, 53), (7, 65), (7, 77),
     (8, 13), (8, 25), (8, 37), (8, 55), (8, 67), (8, 79),
     (9, 15), (9, 27), (9, 39), (9, 57), (9, 69), (9, 81),
     (10, 17), (10, 29), (10, 41), (10, 59), (10, 71), (10, 83),
     (11, 19), (11, 31), (11, 43), (11, 61), (11, 73),
     (12, 21), (12, 33), (12, 45), (12, 63), (12, 75),
     (13, 23), (13, 35), (13, 47), (13, 65), (13, 77),
     (- 1, - 1)]"

definition table_modeC :: "(int \<times> int) list" where
  "table_modeC =
    [(3, 9), (3, 21), (3, 45), (3, 57),
     (4, 23), (4, 35), (4, 47),
     (5, 13), (5, 25), (5, 37), (5, 49),
     (6, 15), (6, 27), (6, 39), (6, 51),
     (7, 5), (7, 17), (7, 29), (7, 41), (7, 53),
     (8, 7), (8, 19), (8, 31), (8, 43), (8, 55),
     (9, 9), (9, 21), (9, 45), (9, 57),
     (10, 23), (10, 35), (10, 47),
     (11, 13), (11, 25), (11, 37), (11, 49),
     (12, 15), (12, 27), (12, 39), (12, 51),
     (13, 5), (13, 17), (13, 29), (13, 41), (13, 53),
     (14, 7), (14, 19), (14, 31), (14, 43), (14, 55),
     (15, 9), (15, 21), (15, 45), (15, 57),
     (16, 23), (16, 35), (16, 47),
     (17, 13), (17, 25), (17, 37), (17, 49),
     (18, 15), (18, 27), (18, 39), (18, 51),
     (- 1, - 1)]"

definition table_modeD :: "(int \<times> int) list" where
  "table_modeD =
    [(3, 9), (3, 18), (3, 27),
     (4, 10), (4, 19),
     (5, 11), (5, 20), (5, 29),
     (6, 12), (6, 30),
     (7, 13), (7, 22), (7, 31),
     (8, 5), (8, 14), (8, 23), (8, 32),
     (9, 6), (9, 15), (9, 24), (9, 33),
     (10, 16), (10, 25), (10, 34),
     (11, 8), (11, 17), (11, 26), (11, 35),
     (12, 9), (12, 18), (12, 27), (12, 36),
     (13, 10), (13, 19), (13, 37),
     (14, 11), (14, 20), (14, 29),
     (15, 12), (15, 30),
     (16, 13), (16, 22), (16, 31),
     (17, 5), (17, 14), (17, 23), (17, 32),
     (18, 6), (18, 15), (18, 24), (18, 33),
     (19, 16), (19, 25), (19, 34),
     (20, 8), (20, 17), (20, 26), (20, 35),
     (21, 9), (21, 18), (21, 27), (21, 36),
     (22, 10), (22, 19), (22, 37),
     (- 1, - 1)]"

definition getFacTableforMode :: "nat \<Rightarrow> (int \<times> int) list" where
  "getFacTableforMode Mode =
     (if Mode = 2 then table_modeB else if Mode = 3 then table_modeC else if Mode = 4 then table_modeD
      else table_modeA)"

text \<open>The entries before the one with symbol \<open>- 1\<close>, which ends the loops over a table.\<close>

definition fac_entries :: "nat \<Rightarrow> (int \<times> int) list" where
  "fac_entries Mode = takeWhile (\<lambda>(symbol, carrier). symbol \<noteq> - 1) (getFacTableforMode Mode)"

lemma fac_entries_facts:
  "list_all (\<lambda>Mode. length (fac_entries Mode) = 65 \<and> distinct (fac_entries Mode)
     \<and> list_all (\<lambda>(symbol, carrier). 2 \<le> symbol \<and> symbol < symbolsperFrame Mode
       \<and> list_all (\<lambda>s. Kmin Mode s \<le> carrier \<and> carrier \<le> Kmax Mode s) [0 ..< 6]) (fac_entries Mode)) [1, 2, 3, 4]"
  by code_simp

lemma length_fac_entries [simp]: "length (fac_entries Mode) = 65"
proof -
  define M where "M = (if Mode \<in> {2, 3, 4} then Mode else 1)"
  have "fac_entries Mode = fac_entries M" by (auto simp: M_def fac_entries_def getFacTableforMode_def)
  moreover have "M \<in> set [1, 2, 3, 4]" by (auto simp: M_def)
  ultimately show ?thesis using fac_entries_facts unfolding list_all_iff by metis
qed

text \<open>
  For every mode the fast access channel has 65 different cells, at the rate of its code, none of
  them in the first two symbols of a frame, all of them in the frame and between the lowest and the
  highest carrier of every spectrum, so that no access to the grid of cells is out of range; and a
  frame has a whole number of groups of symbols.
\<close>

theorem fac_cells_in_frame:
  assumes "1 \<le> Mode" "Mode \<le> 4" "s \<le> 5" "(symbol, carrier) \<in> set (fac_entries Mode)"
  shows "2 \<le> symbol \<and> symbol < symbolsperFrame Mode \<and> 0 \<le> carrier - Kmin Mode s
    \<and> carrier - Kmin Mode s \<le> Kmax Mode s - Kmin Mode s
    \<and> length (fac_entries Mode) = 65 \<and> distinct (fac_entries Mode)
    \<and> groupsperFrame Mode * symbolsperGroup Mode = symbolsperFrame Mode"
proof -
  have M: "Mode \<in> set [1, 2, 3, 4]" using assms(1,2) by auto
  have "s \<in> set [0 ..< 6]" using assms(3) by simp
  then have "2 \<le> symbol \<and> symbol < symbolsperFrame Mode \<and> Kmin Mode s \<le> carrier \<and> carrier \<le> Kmax Mode s
    \<and> length (fac_entries Mode) = 65 \<and> distinct (fac_entries Mode)"
    using fac_entries_facts M assms(4) unfolding list_all_iff by blast
  moreover have "groupsperFrame Mode * symbolsperGroup Mode = symbolsperFrame Mode"
    using M by (auto simp: groupsperFrame_def symbolsperGroup_def symbolsperFrame_def)
  ultimately show ?thesis by simp
qed

theorem fac_cells_in_frame_witness:
  "2 \<le> (13 :: int) \<and> 13 < symbolsperFrame 2 \<and> 0 \<le> 77 - Kmin 2 3 \<and> 77 - Kmin 2 3 \<le> Kmax 2 3 - Kmin 2 3
    \<and> length (fac_entries 2) = 65 \<and> distinct (fac_entries 2)
    \<and> groupsperFrame 2 * symbolsperGroup 2 = symbolsperFrame 2"
  by (rule fac_cells_in_frame) (simp_all add: fac_entries_def getFacTableforMode_def table_modeB_def)

end
