(* ===== verification/DrmCrc.thy ===== *)
theory DrmCrc
  imports Prelude
begin

text \<open>
  The cyclic redundancy check of the DRM decoder, \<open>decoders/drm-decoder/support/checkcrc.cpp\<close>:
  a shift register of \<open>size\<close> one-bit bytes, fed with the message and with the inverted check
  bits at its end. The lemmas show that the register can be run backwards, whatever the
  polynomial: from that follow the exact set of accepted check bits and the detection of every
  error burst no longer than the check field.
\<close>

section \<open>The object and its check\<close>

record check_crc =
  crc_size :: nat
  crc_polynome :: "u16 list"

text \<open>One round of the main loop: the register after input bit \<open>x\<close>.\<close>

definition crc_step :: "u16 list \<Rightarrow> u8 list \<Rightarrow> u8 \<Rightarrow> u8 list" where
  "crc_step polynome reg x =
     (if hd reg XOR x = 1
      then map (\<lambda>j. ucast (polynome ! j XOR ucast (reg ! Suc j))) [0 ..< length reg - 1] @ [1]
      else tl reg @ [0])"

fun crc_run :: "u16 list \<Rightarrow> u8 list \<Rightarrow> u8 list \<Rightarrow> u8 list" where
  "crc_run polynome reg [] = reg"
| "crc_run polynome reg (x # xs) = crc_run polynome (crc_step polynome reg x) xs"

text \<open>
  \<open>doCRC\<close> inverts the last \<open>size\<close> bits of its argument in place, runs the register from all
  ones and accepts when the register ends up as all zeros. The sum is a \<open>uint16_t\<close>.
\<close>

definition crc_invert :: "nat \<Rightarrow> u8 list \<Rightarrow> nat \<Rightarrow> u8 list" where
  "crc_invert n input len =
     take (len - n) input @ map (\<lambda>x. x XOR 1) (drop (len - n) (take len input)) @ drop len input"

definition doCRC :: "check_crc \<Rightarrow> u8 list \<Rightarrow> nat \<Rightarrow> bool \<times> u8 list" where
  "doCRC c input len =
     (let input' = crc_invert (crc_size c) input len;
          reg = crc_run (crc_polynome c) (replicate (crc_size c) 1) (take len input');
          s = sum_list (map (\<lambda>r. ucast r :: u16) reg)
      in (s = 0, input'))"

section \<open>The register\<close>

definition bit_poly :: "u16 list \<Rightarrow> bool" where
  "bit_poly p \<longleftrightarrow> (\<forall>x \<in> set p. x = 0 \<or> x = 1)"

definition crc_ok :: "check_crc \<Rightarrow> bool" where
  "crc_ok c \<longleftrightarrow> 0 < crc_size c \<and> crc_size c \<le> 16 \<and> bit_poly (crc_polynome c)
     \<and> length (crc_polynome c) = crc_size c - 1"

lemma length_crc_step [length_simps, simp]: "reg \<noteq> [] \<Longrightarrow> length (crc_step p reg x) = length reg"
  by (cases reg) (auto simp: crc_step_def)

lemma crc_step_neq_Nil [simp]: "reg \<noteq> [] \<Longrightarrow> crc_step p reg x \<noteq> []"
  by (cases reg) (auto simp: crc_step_def)

lemma crc_run_append: "crc_run p reg (xs @ ys) = crc_run p (crc_run p reg xs) ys"
  by (induction xs arbitrary: reg) auto

lemma length_crc_run [length_simps, simp]: "reg \<noteq> [] \<Longrightarrow> length (crc_run p reg xs) = length reg"
  by (induction xs arbitrary: reg) auto

lemma crc_run_neq_Nil [simp]: "reg \<noteq> [] \<Longrightarrow> crc_run p reg xs \<noteq> []"
  by (metis length_crc_run length_0_conv)

text \<open>The last cell records the feedback bit.\<close>

lemma last_crc_step:
  "reg \<noteq> [] \<Longrightarrow> last (crc_step p reg x) = (if hd reg XOR x = 1 then 1 else 0)"
  by (simp add: crc_step_def)

lemma bits_crc_step [onebit]:
  assumes "bits reg" "bit_poly p" "length p = length reg - 1"
  shows "bits (crc_step p reg x)"
proof -
  have "is_bit (ucast (p ! j XOR ucast (reg ! Suc j)))" if "j < length reg - 1" for j
  proof -
    have "p ! j = 0 \<or> p ! j = 1" using that assms by (auto simp: bit_poly_def)
    moreover have "is_bit (reg ! Suc j)" using that assms by (intro bits_nth) auto
    ultimately show ?thesis by (auto simp: is_bit_def)
  qed
  then show ?thesis using assms
    by (auto simp: crc_step_def bits_tl) (auto simp: bits_def)
qed

lemma bits_crc_run [onebit]:
  assumes "bits reg" "bit_poly p" "length p = length reg - 1" "reg \<noteq> []"
  shows "bits (crc_run p reg xs)"
  using assms by (induction xs arbitrary: reg) (auto simp: bits_crc_step)

lemma ucast_xor_byte: "(ucast (a XOR (ucast b :: u16)) :: u8) = ucast a XOR b"
  by (rule bit_word_eqI) (auto simp: bit_simps)

text \<open>
  Running backwards. The register after a step determines the feedback bit (its last cell), and
  with it every cell of the register before; the registers after \<open>k\<close> steps with different
  inputs agree only if the sums of register and input agree on the first \<open>k\<close> cells and the
  registers on the rest.
\<close>

lemma nth_crc_step:
  assumes "j < length reg - 1"
  shows "crc_step p reg x ! j
    = (if hd reg XOR x = 1 then ucast (p ! j) XOR reg ! Suc j else reg ! Suc j)"
  using assms by (simp add: crc_step_def nth_append nth_tl ucast_xor_byte)

lemma crc_step_feedback:
  assumes "last (crc_step p reg x) = last (crc_step p reg' x')" "reg \<noteq> []" "reg' \<noteq> []"
    and "is_bit (hd reg)" "is_bit x" "is_bit (hd reg')" "is_bit x'"
  shows "hd reg XOR x = hd reg' XOR x'"
proof -
  have "hd reg XOR x = 1 \<longleftrightarrow> hd reg' XOR x' = 1"
    using last_crc_step [of reg p x] last_crc_step [of reg' p x'] assms(1-3)
    by (auto split: if_splits)
  then show ?thesis using assms(4-7) by (auto simp: is_bit_def)
qed

definition crc_cell :: "u8 list \<Rightarrow> u8 list \<Rightarrow> nat \<Rightarrow> u8" where
  "crc_cell reg w i = (if i < length w then reg ! i XOR w ! i else reg ! i)"

lemma crc_run_inj:
  assumes "crc_run p reg w = crc_run p reg' w'"
    and "length w = length w'" "length w \<le> length reg" "length reg = length reg'" "reg \<noteq> []"
    and "bits reg" "bits reg'" "bits w" "bits w'" "bit_poly p" "length p = length reg - 1"
    and "i < length reg"
  shows "crc_cell reg w i = crc_cell reg' w' i"
  using assms
proof (induction w arbitrary: reg reg' w' i)
  case Nil
  then show ?case by (simp add: crc_cell_def)
next
  case (Cons x ws)
  then obtain x' ws' where w': "w' = x' # ws'" and l: "length ws = length ws'"
    by (cases w') auto
  let ?r = "crc_step p reg x" and ?r' = "crc_step p reg' x'"
  have ne: "reg' \<noteq> []" using Cons.prems by auto
  have b1: "bits ?r" "bits ?r'"
    using Cons.prems ne by (simp_all add: onebit)
  have IH: "crc_cell ?r ws j = crc_cell ?r' ws' j" if "j < length reg" for j
    by (rule Cons.IH) (use Cons.prems that w' l ne b1 in auto)
  have hds: "is_bit (hd reg)" "is_bit (hd reg')" "is_bit x" "is_bit x'"
    using Cons.prems ne w' by (auto simp: bits_def)
  have "last ?r = ?r ! (length reg - 1)" "last ?r' = ?r' ! (length reg - 1)"
    using Cons.prems ne by (simp_all add: last_conv_nth)
  moreover have "length reg - 1 < length reg" "\<not> length reg - 1 < length ws" "\<not> length reg - 1 < length ws'"
    using Cons.prems l by auto
  ultimately have "last ?r = last ?r'"
    using IH [of "length reg - 1"] by (simp add: crc_cell_def)
  then have fb: "hd reg XOR x = hd reg' XOR x'"
    using crc_step_feedback Cons.prems(5) ne hds by blast
  show ?case
  proof (cases i)
    case 0
    then show ?thesis using fb w' Cons.prems ne by (simp add: crc_cell_def hd_conv_nth)
  next
    case (Suc j)
    then have j: "j < length reg - 1" "j < length reg' - 1" "j < length reg" using Cons.prems by auto
    have "crc_cell ?r ws j = crc_cell ?r' ws' j" by (rule IH) (use j in auto)
    then show ?thesis using Suc w' l fb j
      by (auto simp: crc_cell_def nth_crc_step xor.assoc split: if_splits) (metis xor_bit_self_left)+
  qed
qed

lemma crc_run_inj_input:
  assumes "crc_run p reg w = crc_run p reg w'" "length w = length w'" "length w \<le> length reg" "reg \<noteq> []"
    and "bits reg" "bits w" "bits w'" "bit_poly p" "length p = length reg - 1"
  shows "w = w'"
proof (rule nth_equalityI)
  fix i assume "i < length w"
  then have "crc_cell reg w i = crc_cell reg w' i"
    by (intro crc_run_inj) (use assms in auto)
  then show "w ! i = w' ! i"
    using \<open>i < length w\<close> assms(2) by (simp add: crc_cell_def) (metis xor_bit_self_left)
qed (fact assms(2))

lemma crc_run_inj_reg:
  assumes "crc_run p reg z = crc_run p reg' z" "length reg = length reg'" "reg \<noteq> []"
    and "bits reg" "bits reg'" "bits z" "bit_poly p" "length p = length reg - 1"
  shows "reg = reg'"
  using assms
proof (induction z arbitrary: reg reg')
  case Nil
  then show ?case by simp
next
  case (Cons x z)
  have ne: "reg' \<noteq> []" using Cons.prems by auto
  have "crc_step p reg x = crc_step p reg' x"
    by (rule Cons.IH) (use Cons.prems ne in \<open>auto simp: onebit\<close>)
  then have "crc_run p reg [x] = crc_run p reg' [x]" by simp
  then have cell: "crc_cell reg [x] i = crc_cell reg' [x] i" if "i < length reg" for i
    by (rule crc_run_inj) (use Cons.prems that ne in \<open>auto simp: Suc_le_eq\<close>)
  show ?case
  proof (rule nth_equalityI)
    fix i assume "i < length reg"
    with cell [of i] show "reg ! i = reg' ! i"
      by (auto simp: crc_cell_def xor.commute split: if_splits) (metis xor_bit_self_left)
  qed (fact Cons.prems(2))
qed

text \<open>Feeding the register its own contents clears it.\<close>

lemma crc_run_self:
  assumes "reg = w @ replicate k 0" "bits reg"
  shows "crc_run p reg w = replicate (length reg) 0"
  using assms
proof (induction w arbitrary: reg k)
  case Nil
  then show ?case by simp
next
  case (Cons x w)
  have "crc_step p reg x = w @ replicate (Suc k) 0"
    using Cons.prems by (simp add: crc_step_def replicate_append_same)
  then show ?case
    using Cons.IH [of "crc_step p reg x" "Suc k"] Cons.prems by (simp add: onebit)
qed

section \<open>The verdict\<close>

lemma sum_bits_word:
  "bits reg \<Longrightarrow> sum_list (map (\<lambda>r. ucast r :: u16) reg) = of_nat (length (filter (\<lambda>r. r = 1) reg))"
  by (induction reg) auto

lemma sum_bits_0_iff:
  assumes "bits reg" "length reg \<le> 16"
  shows "sum_list (map (\<lambda>r. ucast r :: u16) reg) = 0 \<longleftrightarrow> reg = replicate (length reg) 0"
proof -
  let ?k = "length (filter (\<lambda>r. r = 1) reg)"
  have "?k \<le> 16" using assms(2) length_filter_le le_trans by blast
  then have "(of_nat ?k :: u16) = 0 \<longleftrightarrow> ?k = 0"
    by (auto simp: word_of_nat_eq_0_iff dest: dvd_imp_le)
  also have "\<dots> \<longleftrightarrow> (\<forall>r \<in> set reg. r \<noteq> 1)" by (simp add: filter_empty_conv)
  also have "\<dots> \<longleftrightarrow> reg = replicate (length reg) 0"
    using assms(1) by (induction reg) auto
  finally show ?thesis using assms by (simp add: sum_bits_word)
qed

text \<open>The register over a whole block, and the check bits a transmitter would send for it.\<close>

definition crc_register :: "check_crc \<Rightarrow> u8 list \<Rightarrow> u8 list" where
  "crc_register c m = crc_run (crc_polynome c) (replicate (crc_size c) 1) m"

definition crc_bits :: "check_crc \<Rightarrow> u8 list \<Rightarrow> u8 list" where
  "crc_bits c m = map (\<lambda>x. x XOR 1) (crc_register c m)"

lemma crc_register_facts [onebit]:
  assumes "crc_ok c"
  shows "bits (crc_register c m)" "length (crc_register c m) = crc_size c" "crc_register c m \<noteq> []"
  using assms
  by (auto simp: crc_register_def crc_ok_def onebit intro!: bits_crc_run)

lemma crc_bits_facts [onebit]:
  assumes "crc_ok c"
  shows "bits (crc_bits c m)" "length (crc_bits c m) = crc_size c"
  using assms by (simp_all add: crc_bits_def onebit)

lemma crc_invert_append:
  "length chk = n \<Longrightarrow> crc_invert n (m @ chk) (length m + n) = m @ map (\<lambda>x. x XOR 1) chk"
  by (simp add: crc_invert_def)

lemma doCRC_register:
  assumes "crc_ok c" "bits chk" "length chk = crc_size c"
  shows "fst (doCRC c (m @ chk) (length m + crc_size c))
    \<longleftrightarrow> crc_register c (m @ map (\<lambda>x. x XOR 1) chk) = replicate (crc_size c) 0"
  using assms crc_register_facts [OF assms(1)]
  by (simp add: doCRC_def Let_def crc_invert_append crc_register_def [symmetric] sum_bits_0_iff crc_ok_def)

lemma doCRC_length: "crc_size c \<le> len \<Longrightarrow> len \<le> length v \<Longrightarrow> length (snd (doCRC c v len)) = length v"
  by (simp add: doCRC_def crc_invert_def)

lemma crc_run_inverted_iff:
  assumes "crc_ok c" "bits chk" "length chk = crc_size c"
  shows "crc_register c (m @ map (\<lambda>x. x XOR 1) chk) = replicate (crc_size c) 0 \<longleftrightarrow> chk = crc_bits c m"
proof -
  let ?p = "crc_polynome c" and ?r = "crc_register c m" and ?w = "map (\<lambda>x. x XOR (1::u8)) chk"
  note r = crc_register_facts [OF assms(1), of m]
  have self: "crc_run ?p ?r ?r = replicate (crc_size c) 0"
    using crc_run_self [of ?r ?r 0 ?p] r by simp
  have "crc_register c (m @ ?w) = crc_run ?p ?r ?w"
    by (simp add: crc_register_def crc_run_append)
  moreover have "crc_run ?p ?r ?w = crc_run ?p ?r ?r \<longleftrightarrow> ?w = ?r"
    using crc_run_inj_input [of ?p ?r ?w ?r] assms r by (auto simp: crc_ok_def onebit)
  moreover have "?w = ?r \<longleftrightarrow> chk = crc_bits c m"
    unfolding crc_bits_def by (metis map_xor_1_involution)
  ultimately show ?thesis using self by simp
qed

lemma doCRC_accepts_crc_bits:
  "crc_ok c \<Longrightarrow> bits m \<Longrightarrow> fst (doCRC c (m @ crc_bits c m) (length m + crc_size c))"
  by (simp add: doCRC_register crc_run_inverted_iff crc_bits_facts)

text \<open>
  C23. The CRC check of the DRM decoder, for any polynomial, accepts exactly the blocks that end
  in the inverted contents of the shift register after the message: for every message there is
  one accepted check field and no other.
\<close>
theorem doCRC_accepts_iff:
  assumes "crc_ok c" "bits m" "bits chk" "length chk = crc_size c"
  shows "fst (doCRC c (m @ chk) (length m + crc_size c)) \<longleftrightarrow> chk = crc_bits c m"
  using assms by (simp add: doCRC_register crc_run_inverted_iff)

theorem doCRC_accepts_iff_witness:
  "fst (doCRC \<lparr>crc_size = 8, crc_polynome = [0, 0, 0, 1, 1, 1, 0]\<rparr>
     ([1, 0, 1] @ crc_bits \<lparr>crc_size = 8, crc_polynome = [0, 0, 0, 1, 1, 1, 0]\<rparr> [1, 0, 1]) 11)"
  using doCRC_accepts_iff
    [of "\<lparr>crc_size = 8, crc_polynome = [0, 0, 0, 1, 1, 1, 0]\<rparr>" "[1, 0, 1]"
      "crc_bits \<lparr>crc_size = 8, crc_polynome = [0, 0, 0, 1, 1, 1, 0]\<rparr> [1, 0, 1]"]
  by (simp add: crc_ok_def bit_poly_def crc_bits_facts)

text \<open>
  For bursts that straddle the two parts the inversion is better seen as the sum with a mask.
\<close>

definition crc_mask :: "nat \<Rightarrow> nat \<Rightarrow> u8 list" where
  "crc_mask n len = replicate (len - n) 0 @ replicate n 1"

lemma map2_xor_const: "map2 (XOR) xs (replicate (length xs) y) = map (\<lambda>x. x XOR (y :: u8)) xs"
  by (induction xs) auto

lemma map2_xor_inj:
  fixes xs :: "u8 list"
  assumes "map2 (XOR) xs zs = map2 (XOR) ys zs" "length xs = length ys" "length xs = length zs"
  shows "xs = ys"
proof (rule nth_equalityI)
  fix i assume i: "i < length xs"
  have "xs ! i XOR zs ! i = ys ! i XOR zs ! i"
    using arg_cong [OF assms(1), of "\<lambda>l. l ! i"] i assms(2,3) by simp
  then show "xs ! i = ys ! i" by (metis xor.commute xor_bit_self_left)
qed (fact assms(2))

declare bits_map2_xor [onebit]

lemma crc_invert_mask:
  assumes "n \<le> length v"
  shows "crc_invert n v (length v) = map2 (XOR) v (crc_mask n (length v))"
proof -
  let ?k = "length v - n"
  have "map2 (XOR) v (crc_mask n (length v))
    = map2 (XOR) (take ?k v @ drop ?k v) (replicate ?k 0 @ replicate n 1)"
    by (simp add: crc_mask_def)
  also have "\<dots> = map2 (XOR) (take ?k v) (replicate ?k 0) @ map2 (XOR) (drop ?k v) (replicate n 1)"
    by (subst zip_append) (use assms in auto)
  also have "map2 (XOR) (take ?k v) (replicate ?k 0) = take ?k v"
    using map2_xor_const [of "take ?k v" 0] assms by simp
  also have "map2 (XOR) (drop ?k v) (replicate n 1) = map (\<lambda>x. x XOR 1) (drop ?k v)"
    using map2_xor_const [of "drop ?k v" 1] assms by simp
  finally show ?thesis using assms by (simp add: crc_invert_def)
qed

lemma doCRC_mask:
  assumes "crc_ok c" "bits v" "crc_size c \<le> length v"
  shows "fst (doCRC c v (length v))
    \<longleftrightarrow> crc_register c (map2 (XOR) v (crc_mask (crc_size c) (length v))) = replicate (crc_size c) 0"
  using assms crc_register_facts [OF assms(1)]
  by (simp add: doCRC_def Let_def crc_invert_mask crc_mask_def crc_register_def [symmetric]
      sum_bits_0_iff crc_ok_def)

lemma crc_register_burst:
  assumes "crc_ok c" "crc_register c (a @ w @ z) = crc_register c (a @ w' @ z)"
    and "length w' = length w" "length w \<le> crc_size c" "bits (a @ w @ z)" "bits w'"
  shows "w = w'"
proof -
  let ?p = "crc_polynome c" and ?r = "crc_register c a"
  note r = crc_register_facts [OF assms(1), of a]
  have p: "bit_poly ?p" "length ?p = length ?r - 1" using assms(1) r by (simp_all add: crc_ok_def)
  have "crc_run ?p (crc_run ?p ?r w) z = crc_run ?p (crc_run ?p ?r w') z"
    using assms(2) by (simp add: crc_register_def crc_run_append)
  then have "crc_run ?p ?r w = crc_run ?p ?r w'"
    by (rule crc_run_inj_reg) (use r p assms in \<open>simp_all add: onebit\<close>)
  then show ?thesis
    by (rule crc_run_inj_input) (use r p assms in simp_all)
qed

text \<open>
  C24. The CRC check detects every burst error no longer than its check field: if a block is
  accepted and another block differs from it only inside a window of at most \<open>size\<close> bits (and
  does differ there), the other block is rejected.
\<close>
theorem doCRC_detects_bursts:
  assumes c: "crc_ok c" and b: "bits (a @ w @ z)" "bits w'"
    and len: "length w' = length w" "length w \<le> crc_size c" "crc_size c \<le> length (a @ w @ z)"
    and acc: "fst (doCRC c (a @ w @ z) (length (a @ w @ z)))" and diff: "w \<noteq> w'"
  shows "\<not> fst (doCRC c (a @ w' @ z) (length (a @ w' @ z)))"
proof
  assume acc': "fst (doCRC c (a @ w' @ z) (length (a @ w' @ z)))"
  let ?m = "crc_mask (crc_size c) (length (a @ w @ z))"
  define ma mw mz where "ma = take (length a) ?m" and "mw = take (length w) (drop (length a) ?m)"
    and "mz = drop (length a + length w) ?m"
  have l: "length ?m = length (a @ w @ z)" using len by (simp add: crc_mask_def)
  have m: "?m = ma @ mw @ mz"
    unfolding ma_def mw_def mz_def
    by (rule list_split3)
  have lm: "length ma = length a" "length mw = length w" "length mz = length z"
    using l by (simp_all add: ma_def mw_def mz_def)
  have bm: "bits (ma @ mw @ mz)" unfolding m [symmetric] by (simp add: crc_mask_def onebit)
  have split: "map2 (XOR) (a @ u @ z) (ma @ mw @ mz)
      = map2 (XOR) a ma @ map2 (XOR) u mw @ map2 (XOR) z mz" if "length u = length w" for u
    using that lm by simp
  have reg: "crc_register c (map2 (XOR) (a @ u @ z) (ma @ mw @ mz)) = replicate (crc_size c) 0"
    if "fst (doCRC c (a @ u @ z) (length (a @ u @ z)))" "length u = length w" "bits u" for u
  proof -
    have "length (a @ u @ z) = length (a @ w @ z)" using that(2) by simp
    then show ?thesis using doCRC_mask [OF c, of "a @ u @ z"] that b len m
      by (simp only: bits_append)
  qed
  have "crc_register c (map2 (XOR) a ma @ map2 (XOR) w mw @ map2 (XOR) z mz)
      = crc_register c (map2 (XOR) a ma @ map2 (XOR) w' mw @ map2 (XOR) z mz)"
    using reg [OF acc] reg [OF acc'] split [of w] split [of w'] b len(1) by simp
  then have "map2 (XOR) w mw = map2 (XOR) w' mw"
    by (rule crc_register_burst [OF c]) (use b bm len lm in \<open>simp_all add: onebit\<close>)
  then have "w = w'" by (rule map2_xor_inj) (use len lm in simp_all)
  with diff show False ..
qed

theorem doCRC_detects_bursts_witness:
  "\<not> fst (doCRC \<lparr>crc_size = 8, crc_polynome = [0, 0, 0, 1, 1, 1, 0]\<rparr>
     ([1] @ [0, 1] @ crc_bits \<lparr>crc_size = 8, crc_polynome = [0, 0, 0, 1, 1, 1, 0]\<rparr> [1, 1, 0]) 11)"
  using doCRC_detects_bursts
    [of "\<lparr>crc_size = 8, crc_polynome = [0, 0, 0, 1, 1, 1, 0]\<rparr>" "[1]" "[1, 0]"
      "crc_bits \<lparr>crc_size = 8, crc_polynome = [0, 0, 0, 1, 1, 1, 0]\<rparr> [1, 1, 0]" "[0, 1]"]
    doCRC_accepts_crc_bits [of "\<lparr>crc_size = 8, crc_polynome = [0, 0, 0, 1, 1, 1, 0]\<rparr>" "[1, 1, 0]"]
  by (simp add: crc_ok_def bit_poly_def crc_bits_facts)

end
