(* ===== verification/DrmPrbs.thy ===== *)
theory DrmPrbs
  imports Prelude
begin

text \<open>
  The energy dispersal of the DRM decoder, \<open>decoders/drm-decoder/support/prbs.cpp\<close>: a nine-cell
  shift register, restarted from all ones for every block, whose output is added to the bits of
  the block. The interface the block decoders rely on is the locale \<open>scrambler\<close>.
\<close>

section \<open>The interface\<close>

text \<open>
  What the receiver runs (\<open>scramble\<close>, with no result where it leaves the block or does not end), and what it
  computes where it ends (\<open>sent\<close>), which is what the sender did to the block as well.
\<close>

locale scrambler =
  fixes scramble :: "nat \<Rightarrow> u8 list \<Rightarrow> u8 list option"
    and sent :: "nat \<Rightarrow> u8 list \<Rightarrow> u8 list"
  assumes scramble_some: "n < 2 ^ 15 \<Longrightarrow> n \<le> length v \<Longrightarrow> scramble n v = Some (sent n v)"
    and scramble_none: "2 ^ 15 \<le> n \<or> length v < n \<Longrightarrow> scramble n v = None"
    and scramble_scramble: "sent n (sent n v) = v"
    and scramble_length: "length (sent n v) = length v"
    and scramble_bits: "bits v \<Longrightarrow> bits (sent n v)"
begin

lemma scramble_inj: "sent n v = sent n w \<longleftrightarrow> v = w"
  by (metis scramble_scramble)

lemma scramble_bits_iff: "bits (sent n v) \<longleftrightarrow> bits v"
  by (metis scramble_scramble scramble_bits)

lemma scramble_iff: "scramble n v = Some w \<longleftrightarrow> n < 2 ^ 15 \<and> n \<le> length v \<and> w = sent n v"
  using scramble_some [of n v] scramble_none [of n v] by (cases "n < 2 ^ 15 \<and> n \<le> length v") (auto simp: not_less not_le)

lemma descramble: "n < 2 ^ 15 \<Longrightarrow> n \<le> length v \<Longrightarrow> scramble n (sent n v) = Some v"
  by (simp add: scramble_some scramble_length scramble_scramble)

end

section \<open>The model\<close>

text \<open>One round: the feedback bit and the shifted register.\<close>

definition prbs_step :: "u8 list \<Rightarrow> u8 \<times> u8 list" where
  "prbs_step reg = (let t = reg ! 8 XOR reg ! 4 in (t, t # take 8 reg))"

lemma sint_step:
  fixes i :: "16 word"
  assumes "0 \<le> sint i"
  shows "sint (i + 1) = (if sint i < 2 ^ 15 - 1 then sint i + 1 else - (2 ^ 15))"
proof -
  have lt: "sint i < 2 ^ 15" using sint_lt [of i] by simp
  have w: "sint (i + 1) = signed_take_bit 15 (sint i + 1)" by (simp add: sint_word_ariths)
  show ?thesis
  proof (cases "sint i < 2 ^ 15 - 1")
    case True
    then show ?thesis using assms w by (simp add: signed_take_bit_int_eq_self)
  next
    case False
    then have "sint i = 2 ^ 15 - 1" using lt by simp
    then show ?thesis unfolding w by simp
  qed
qed

text \<open>
  The loop over the vector. The index is a 16-bit number, the length a 32-bit one: with more than 32767 bits to go the
  index becomes negative and the loop leaves the vector, as it does with a vector that is too short.
\<close>

function prbs_walk :: "16 word \<Rightarrow> nat \<Rightarrow> u8 list \<Rightarrow> u8 list \<Rightarrow> u8 list option" where
  "prbs_walk i len reg v =
     (if int len \<le> sint i then Some v
      else if sint i < 0 \<or> int (length v) \<le> sint i then None
      else (let (t, reg') = prbs_step reg in prbs_walk (i + 1) len reg' (v[nat (sint i) := v ! nat (sint i) XOR t])))"
  by auto

termination
proof (relation "measure (\<lambda>(i, len, reg, v). if sint i < 0 then 0 else Suc (nat (int len - sint i)))")
  show "((i + 1, len, reg', v'), i, len, reg, v)
    \<in> measure (\<lambda>(i, len, reg, v). if sint i < 0 then 0 else Suc (nat (int len - sint i)))"
    if "\<not> int len \<le> sint i" "\<not> (sint i < 0 \<or> int (length v) \<le> sint i)" for i :: "16 word" and len v reg reg' v'
    using that sint_step [of i] by (auto simp: not_less)
qed simp_all

declare prbs_walk.simps [simp del]

definition doPRBS :: "nat \<Rightarrow> u8 list \<Rightarrow> u8 list option" where
  "doPRBS len v = prbs_walk 0 len (replicate 9 1) v"

text \<open>Where the loop ends: the rounds over what is left of the vector, \<open>n\<close> of them.\<close>

fun prbs_loop :: "nat \<Rightarrow> u8 list \<Rightarrow> u8 list \<Rightarrow> u8 list" where
  "prbs_loop 0 reg v = v"
| "prbs_loop (Suc n) reg [] = []"
| "prbs_loop (Suc n) reg (x # v) =
     (let (t, reg') = prbs_step reg in (x XOR t) # prbs_loop n reg' v)"

definition disperse :: "nat \<Rightarrow> u8 list \<Rightarrow> u8 list" where
  "disperse len v = prbs_loop len (replicate 9 1) v"

lemma prbs_walk_loop:
  "sint i = int k \<Longrightarrow> k \<le> len \<Longrightarrow> k \<le> length v \<Longrightarrow> prbs_walk i len reg v
    = (if len < 2 ^ 15 \<and> len \<le> length v then Some (take k v @ prbs_loop (len - k) reg (drop k v)) else None)"
proof (induction i len reg v arbitrary: k rule: prbs_walk.induct)
  case (1 i len reg v)
  have k: "k < 2 ^ 15" using sint_lt [of i] "1.prems"(1) by simp
  show ?case
  proof (cases "k = len \<or> length v \<le> k")
    case True
    then show ?thesis using "1.prems" k by (subst prbs_walk.simps) auto
  next
    case False
    obtain t reg' where st: "prbs_step reg = (t, reg')" by fastforce
    let ?v = "v[k := v ! k XOR t]"
    have walk: "prbs_walk i len reg v = prbs_walk (i + 1) len reg' ?v"
      using False "1.prems" by (subst prbs_walk.simps) (simp add: st)
    show ?thesis
    proof (cases "k < 2 ^ 15 - 1")
      case True
      then have "sint (i + 1) = int (Suc k)" using sint_step [of i] "1.prems"(1) by simp
      then have "prbs_walk (i + 1) len reg' ?v = (if len < 2 ^ 15 \<and> len \<le> length ?v
          then Some (take (Suc k) ?v @ prbs_loop (len - Suc k) reg' (drop (Suc k) ?v)) else None)"
        by (intro "1.IH" [OF _ _ st [symmetric] refl, of "Suc k", unfolded "1.prems"(1) nat_int]) (use False "1.prems" in simp_all)
      moreover have "len - k = Suc (len - Suc k)" "drop k v = v ! k # drop (Suc k) v"
        using False "1.prems" by (auto simp: Cons_nth_drop_Suc Suc_diff_Suc)
      ultimately show ?thesis using False by (simp add: walk take_Suc_conv_app_nth st)
    next
      case last: False
      then have "sint (i + 1) = - (2 ^ 15)" using sint_step [of i] "1.prems"(1) k by simp
      then have "prbs_walk (i + 1) len reg' ?v = None" by (subst prbs_walk.simps) simp
      then show ?thesis using walk last False k "1.prems"(2) by simp
    qed
  qed
qed

lemma doPRBS_disperse:
  "doPRBS len v = (if len < 2 ^ 15 \<and> len \<le> length v then Some (disperse len v) else None)"
  using prbs_walk_loop [of 0 0 len v "replicate 9 1"] by (simp add: doPRBS_def disperse_def)

section \<open>The scrambler laws\<close>

lemma prbs_loop_involution: "prbs_loop n reg (prbs_loop n reg v) = v"
  by (induction n reg v rule: prbs_loop.induct)
    (auto simp: prbs_step_def Let_def xor.assoc xor.left_commute)

lemma length_prbs_loop [length_simps, simp]: "length (prbs_loop n reg v) = length v"
  by (induction n reg v rule: prbs_loop.induct) (auto simp: prbs_step_def Let_def)

lemma prbs_step_facts:
  assumes "bits reg" "length reg = 9"
  shows "is_bit (fst (prbs_step reg))" "bits (snd (prbs_step reg))" "length (snd (prbs_step reg)) = 9"
  using assms by (auto simp: prbs_step_def Let_def onebit)

lemma bits_prbs_loop: "bits reg \<Longrightarrow> length reg = 9 \<Longrightarrow> bits v \<Longrightarrow> bits (prbs_loop n reg v)"
proof (induction n reg v rule: prbs_loop.induct)
  case (3 n reg x v)
  then show ?case using prbs_step_facts [of reg] by (auto simp: onebit split: prod.splits)
qed simp_all

lemma disperse_length [length_simps, simp]: "length (disperse n v) = length v"
  by (simp add: disperse_def)

lemma prbs_loop_drop: "drop n (prbs_loop n reg v) = drop n v"
  by (induction n reg v rule: prbs_loop.induct) (auto simp: prbs_step_def Let_def)

interpretation prbs_scrambler: scrambler doPRBS disperse
proof unfold_locales
  show "disperse n (disperse n v) = v" for n v
    by (simp add: disperse_def prbs_loop_involution)
  show "length (disperse n v) = length v" for n v by simp
  show "bits v \<Longrightarrow> bits (disperse n v)" for n v
    by (simp add: disperse_def bits_prbs_loop onebit)
qed (auto simp: doPRBS_disperse)

section \<open>The key stream\<close>

text \<open>
  The reference: the sequence of the recurrence \<open>t i = t (i - 9) + t (i - 5)\<close> over the bits,
  with ones before its start.
\<close>

fun keystream :: "nat \<Rightarrow> u8" where
  "keystream i =
     (if i < 5 then 1 else keystream (i - 5)) XOR (if i < 9 then 1 else keystream (i - 9))"

declare keystream.simps [simp del]

definition prbs_register :: "nat \<Rightarrow> u8 list" where
  "prbs_register i = map (\<lambda>j. if i \<le> j then 1 else keystream (i - 1 - j)) [0 ..< 9]"

lemma prbs_register_0: "prbs_register 0 = replicate 9 1"
  by (simp add: prbs_register_def map_replicate_const)

lemma prbs_register_step: "prbs_step (prbs_register i) = (keystream i, prbs_register (Suc i))"
proof -
  have t: "prbs_register i ! 8 XOR prbs_register i ! 4 = keystream i"
    by (subst keystream.simps) (auto simp: prbs_register_def xor.commute less_Suc_eq_le)
  have "keystream i # take 8 (prbs_register i) = prbs_register (Suc i)"
  proof (rule nth_equalityI)
    fix j assume "j < length (keystream i # take 8 (prbs_register i))"
    then have "j < 9" by (simp add: prbs_register_def)
    then show "(keystream i # take 8 (prbs_register i)) ! j = prbs_register (Suc i) ! j"
      by (cases j) (auto simp: prbs_register_def)
  qed (simp add: prbs_register_def)
  then show ?thesis using t by (simp add: prbs_step_def)
qed

lemma nth_prbs_loop:
  "j < length v \<Longrightarrow> prbs_loop n (prbs_register i) v ! j = (if j < n then v ! j XOR keystream (i + j) else v ! j)"
proof (induction n arbitrary: i v j)
  case (Suc n)
  then obtain x w where v: "v = x # w" by (cases v) auto
  then show ?case using Suc by (cases j) (auto simp: prbs_register_step)
qed simp

lemma disperse_keystream: "disperse len v = map (\<lambda>i. if i < len then v ! i XOR keystream i else v ! i) [0 ..< length v]"
  using nth_prbs_loop [of _ v len 0]
  by (intro nth_equalityI) (auto simp: disperse_def prbs_register_0)

text \<open>
  C33. Up to 32767 bits of a block that has them, dispersal changes the first \<open>len\<close> bytes only, each by the bit of the
  key stream at its own position, so it depends on neither the data nor earlier blocks, and dispersing the block
  again gives it back. For a longer block the 16-bit index of the loop never reaches the length, and for a
  vector that is too short the loop leaves it: there is no result.
\<close>
theorem doPRBS_scrambles:
  "doPRBS len v = (if len < 2 ^ 15 \<and> len \<le> length v
      then Some (map (\<lambda>i. if i < len then v ! i XOR keystream i else v ! i) [0 ..< length v]) else None)
   \<and> Option.bind (doPRBS len v) (doPRBS len) = (if len < 2 ^ 15 \<and> len \<le> length v then Some v else None)"
  by (simp add: doPRBS_disperse prbs_scrambler.scramble_scramble flip: disperse_keystream)

text \<open>The register comes back to all ones after 511 rounds, and not earlier.\<close>

definition prbs_advance :: "nat \<Rightarrow> u8 list \<Rightarrow> u8 list" where
  "prbs_advance n = (\<lambda>reg. snd (prbs_step reg)) ^^ n"

lemma prbs_advance_register: "prbs_advance n (prbs_register i) = prbs_register (i + n)"
  by (induction n) (simp_all add: prbs_advance_def prbs_register_step)

lemma keystream_nth: "keystream i = fst (prbs_step (prbs_register i))"
  by (simp add: prbs_register_step)

text \<open>The same rounds on nine booleans, which evaluate quickly.\<close>

fun prbs_bools :: "nat \<Rightarrow> bool list \<Rightarrow> bool list" where
  "prbs_bools 0 r = r"
| "prbs_bools (Suc n) [a, b, c, d, e, f, g, h, i] = prbs_bools n [i \<noteq> e, a, b, c, d, e, f, g, h]"
| "prbs_bools (Suc n) r = r"

lemma prbs_advance_Suc: "prbs_advance (Suc n) reg = prbs_advance n (snd (prbs_step reg))"
  by (simp add: prbs_advance_def funpow_Suc_right del: funpow.simps)

lemma of_bool_xor: "(of_bool p XOR of_bool q :: u8) = of_bool (p \<noteq> q)"
  by (cases p; cases q) auto

lemma prbs_advance_bools:
  "length r = 9 \<Longrightarrow> prbs_advance n (map of_bool r) = map of_bool (prbs_bools n r)"
proof (induction n r rule: prbs_bools.induct)
  case (2 n a b c d e f g h i)
  then show ?case
    by (simp add: prbs_advance_Suc prbs_step_def Let_def of_bool_xor)
qed (auto simp: prbs_advance_def length_Suc_conv eval_nat_numeral)

lemma prbs_advance_ones:
  "prbs_advance n (replicate 9 1) = map of_bool (prbs_bools n (replicate 9 True))"
  using prbs_advance_bools [of "replicate 9 True" n] by simp

lemma of_bool_list_ones: "map of_bool r = replicate 9 (1 :: u8) \<longleftrightarrow> r = replicate 9 True"
  by (auto simp: list_eq_iff_nth_eq)

lemma prbs_ones_again:
  "prbs_advance n (replicate 9 1) = replicate 9 1 \<longleftrightarrow> prbs_bools n (replicate 9 True) = replicate 9 True"
  by (simp add: prbs_advance_ones of_bool_list_ones)

lemma prbs_period_values:
  "prbs_advance 511 (replicate 9 1) = replicate 9 1"
  "prbs_advance 73 (replicate 9 1) \<noteq> replicate 9 1"
  "prbs_advance 7 (replicate 9 1) \<noteq> replicate 9 1"
  "prbs_advance 1 (replicate 9 1) \<noteq> replicate 9 1"
  unfolding prbs_ones_again by code_simp+

lemma keystream_period: "keystream (i + 511) = keystream i"
proof -
  have 511: "prbs_register 511 = prbs_register 0"
    using prbs_advance_register [of 511 0] prbs_period_values(1) by (simp add: prbs_register_0)
  have "prbs_advance i (prbs_register 511) = prbs_advance i (prbs_register 0)"
    by (simp only: 511)
  then have "prbs_register (i + 511) = prbs_register i"
    by (simp add: prbs_advance_register add.commute)
  then show ?thesis by (simp add: keystream_nth)
qed

lemma nth_disperse: "i < len \<Longrightarrow> i < length v \<Longrightarrow> disperse len v ! i = v ! i XOR keystream i"
  by (simp add: disperse_keystream)

text \<open>
  What the dispersal adds to a block has the full period of a nine-cell register: the bits it
  writes over zeros repeat after 511 places, and the register, back at all ones after 511
  rounds, is there after no proper divisor (1, 7, 73) of 511 rounds.
\<close>
theorem disperse_period:
  assumes "i + 511 < len"
  shows "disperse len (replicate len 0) ! (i + 511) = disperse len (replicate len 0) ! i
   \<and> prbs_advance 511 (replicate 9 1) = replicate 9 1
   \<and> prbs_advance 73 (replicate 9 1) \<noteq> replicate 9 1
   \<and> prbs_advance 7 (replicate 9 1) \<noteq> replicate 9 1
   \<and> prbs_advance 1 (replicate 9 1) \<noteq> replicate 9 1"
  using assms prbs_period_values by (simp add: nth_disperse keystream_period)

theorem disperse_period_witness:
  "disperse 512 (replicate 512 0) ! (0 + 511) = disperse 512 (replicate 512 0) ! 0
   \<and> prbs_advance 511 (replicate 9 1) = replicate 9 1
   \<and> prbs_advance 73 (replicate 9 1) \<noteq> replicate 9 1
   \<and> prbs_advance 7 (replicate 9 1) \<noteq> replicate 9 1
   \<and> prbs_advance 1 (replicate 9 1) \<noteq> replicate 9 1"
  by (rule disperse_period) simp

end
