(* ===== verification/DrmMapper.thy ===== *)
theory DrmMapper
  imports Prelude
begin

text \<open>
  The bit and cell interleavers of the DRM decoder: \<open>decoders/drm-decoder/support/mapper.cpp\<close>
  (the table of the linear congruential walk) and \<open>deinterleaver.cpp\<close> (the block and the
  convolutional cell deinterleaver built on it). The walk is shown to visit every residue before
  it returns to the start (the multiplier is 1 modulo 4 and the increment is odd), so that the
  constructor's inner loop stops and the table is a permutation.
\<close>

section \<open>The interface: a permutation of cells\<close>

text \<open>What the deinterleavers and the streamers rely on: the index map is a permutation.\<close>

locale cell_permutation =
  fixes m :: "nat \<Rightarrow> nat" and len :: nat
  assumes perm: "bij_betw m {0 ..< len} {0 ..< len}"
begin

lemma m_less: "i < len \<Longrightarrow> m i < len"
  using perm by (auto simp: bij_betw_def)

lemma m_eq_iff: "i < len \<Longrightarrow> j < len \<Longrightarrow> m i = m j \<longleftrightarrow> i = j"
  using perm by (auto simp: bij_betw_def inj_on_def)

lemma m_surj:
  assumes "p < len"
  obtains i where "i < len" "m i = p"
proof -
  have "p \<in> m ` {0 ..< len}" using perm assms by (auto simp: bij_betw_def)
  then show ?thesis using that by auto
qed

text \<open>Scattering a list through the map: every place is written exactly once.\<close>

lemma length_scatter: "length (foldl (\<lambda>o' i. o'[m i := f i]) out is) = length out"
  by (induction "is" arbitrary: out) simp_all

lemma nth_scatter_upto:
  assumes "n \<le> len" "len \<le> length out" "i < len"
  shows "foldl (\<lambda>o' i. o'[m i := f i]) out [0 ..< n] ! m i = (if i < n then f i else out ! m i)"
  using assms
proof (induction n)
  case (Suc n)
  have "m i < length out" using m_less [OF Suc.prems(3)] Suc.prems(2) by simp
  then show ?case using Suc
    by (auto simp: nth_list_update length_scatter m_eq_iff less_Suc_eq)
qed simp

lemma nth_scatter:
  "len \<le> length out \<Longrightarrow> i < len \<Longrightarrow> foldl (\<lambda>o' i. o'[m i := f i]) out [0 ..< len] ! m i = f i"
  using nth_scatter_upto [of len out i f] by simp

lemma scatter_eqI:
  assumes "length out = len" "length xs = len" "\<And>i. i < len \<Longrightarrow> xs ! m i = f i"
  shows "foldl (\<lambda>o' i. o'[m i := f i]) out [0 ..< len] = xs"
proof (rule nth_equalityI)
  show "length (foldl (\<lambda>o' i. o'[m i := f i]) out [0 ..< len]) = length xs"
    using assms by (simp add: length_scatter)
next
  fix p assume "p < length (foldl (\<lambda>o' i. o'[m i := f i]) out [0 ..< len])"
  then have "p < len" using assms(1) by (simp add: length_scatter)
  then obtain i where "i < len" "m i = p" by (rule m_surj)
  then show "foldl (\<lambda>o' i. o'[m i := f i]) out [0 ..< len] ! p = xs ! p"
    using nth_scatter [of out i f] assms by auto
qed

lemma scatter_outside: "len \<le> p \<Longrightarrow> n \<le> len \<Longrightarrow>
  foldl (\<lambda>o' i. o'[m i := f i]) out [0 ..< n] ! p = out ! p"
proof (induction n)
  case (Suc n)
  then have "m n \<noteq> p" using m_less [of n] by auto
  then show ?case using Suc by simp
qed simp

end

section \<open>The mapper\<close>

text \<open>\<open>upLogger\<close>: doubling in a \<open>uint16_t\<close>, returned as an \<open>int16_t\<close>.\<close>

partial_function (option) up_loop :: "u16 \<Rightarrow> int \<Rightarrow> int option" where
  "up_loop help x =
     (if uint help < x then up_loop (push_bit 1 help) x else Some (to_int16 (uint help)))"

definition upLogger :: "int \<Rightarrow> int option" where
  "upLogger x = up_loop 1 x"

text \<open>One step of the walk, with C's remainder.\<close>

definition mapper_next :: "int \<Rightarrow> int \<Rightarrow> int \<Rightarrow> int \<Rightarrow> int" where
  "mapper_next t0 q s v = to_int16 (c_rem (t0 * v + q) s)"

text \<open>The inner loop: step on while the value is not below \<open>size\<close>.\<close>

partial_function (option) mapper_redo :: "int \<Rightarrow> int \<Rightarrow> int \<Rightarrow> int \<Rightarrow> int \<Rightarrow> int option" where
  "mapper_redo t0 q s sz v =
     (if v \<ge> sz then mapper_redo t0 q s sz (mapper_next t0 q s v) else Some v)"

text \<open>The outer loop: \<open>n\<close> entries left to fill, the previous one is \<open>v\<close>.\<close>

fun mapper_fill :: "int \<Rightarrow> int \<Rightarrow> int \<Rightarrow> int \<Rightarrow> nat \<Rightarrow> int \<Rightarrow> int list option" where
  "mapper_fill t0 q s sz 0 v = Some []"
| "mapper_fill t0 q s sz (Suc n) v =
     (case mapper_redo t0 q s sz (mapper_next t0 q s v) of
        None \<Rightarrow> None
      | Some w \<Rightarrow> (case mapper_fill t0 q s sz n w of None \<Rightarrow> None | Some ws \<Rightarrow> Some (w # ws)))"

text \<open>
  The constructor. \<open>None\<close>: it does not return, or (for a size below 1) it writes the first entry
  outside its array.
\<close>

definition mapper :: "int \<Rightarrow> int \<Rightarrow> int list option" where
  "mapper sz t0 =
     (if t0 = 0 then Some [0 .. sz - 1]
      else if sz < 1 then None
      else case upLogger sz of
          None \<Rightarrow> None
        | Some s \<Rightarrow>
            (let q = c_div s 4 - 1
             in case mapper_fill t0 q s sz (nat sz - 1) 0 of
                 None \<Rightarrow> None
               | Some ws \<Rightarrow> Some (0 # ws)))"

text \<open>\<open>mapIn\<close> reads the table.\<close>

definition mapIn :: "int list \<Rightarrow> nat \<Rightarrow> nat" where
  "mapIn table a = nat (table ! a)"

section \<open>The walk visits every residue\<close>

fun orbit :: "int \<Rightarrow> int \<Rightarrow> int \<Rightarrow> nat \<Rightarrow> int" where
  "orbit a c s 0 = 0"
| "orbit a c s (Suc n) = (a * orbit a c s n + c) mod s"

lemma geo_add: "(\<Sum>i<m + k. a ^ i) = (\<Sum>i<m. a ^ i) + a ^ m * (\<Sum>i<k. (a :: int) ^ i)"
  by (induction k) (simp_all add: power_add algebra_simps)

lemma geo_dvd_iff:
  fixes a :: int
  assumes "a mod 4 = 1"
  shows "2 ^ k dvd (\<Sum>i<n. a ^ i) \<longleftrightarrow> (2 :: int) ^ k dvd int n"
proof (induction k arbitrary: n)
  case (Suc k)
  have pow4: "a ^ m mod 4 = 1" for m
  proof (induction m)
    case (Suc m)
    have "a * a ^ m mod 4 = (a mod 4) * (a ^ m mod 4) mod 4" by (simp add: mod_mult_eq)
    then show ?case using Suc assms by simp
  qed simp
  have odd_a: "odd a" using assms by presburger
  have par: "even (\<Sum>i<n. a ^ i) \<longleftrightarrow> even n" for n
    using odd_a by (induction n) auto
  show ?case
  proof (cases "even n")
    case False
    then have "\<not> 2 dvd (\<Sum>i<n. a ^ i)" "\<not> 2 dvd int n" using par by auto
    then show ?thesis using dvd_trans [of 2 "2 ^ Suc k"] by (metis dvd_triv_left power_Suc)
  next
    case True
    then obtain m where n: "n = m + m" by (metis evenE mult_2)
    have "(\<Sum>i<n. a ^ i) = (\<Sum>i<m. a ^ i) * (1 + a ^ m)"
      using geo_add [of a m m] n by (simp add: algebra_simps)
    moreover obtain u where u: "1 + a ^ m = 2 * u" "odd u"
    proof -
      have "(1 + a ^ m) mod 4 = 2" using pow4 [of m] by presburger
      then have "1 + a ^ m = 2 * ((1 + a ^ m) div 2)" "odd ((1 + a ^ m) div 2)" by presburger+
      then show ?thesis using that by blast
    qed
    ultimately have sum: "(\<Sum>i<n. a ^ i) = 2 * ((\<Sum>i<m. a ^ i) * u)" by simp
    have "coprime (2 ^ k) u" using u(2) by simp
    then have "2 ^ k dvd (\<Sum>i<m. a ^ i) * u \<longleftrightarrow> 2 ^ k dvd (\<Sum>i<m. a ^ i)"
      by (simp add: coprime_dvd_mult_left_iff)
    then show ?thesis using Suc.IH [of m] sum n by simp
  qed
qed simp

lemma orbit_closed: "0 < s \<Longrightarrow> orbit a c s n = (c * (\<Sum>i<n. a ^ i)) mod s"
proof (induction n)
  case (Suc n)
  have "(\<Sum>i<Suc n. a ^ i) = 1 + a * (\<Sum>i<n. a ^ i)"
    by (subst sum.lessThan_Suc_shift) (simp add: sum_distrib_left)
  moreover have "(a * ((c * (\<Sum>i<n. a ^ i)) mod s) + c) mod s = (a * (c * (\<Sum>i<n. a ^ i)) + c) mod s"
    by (metis mod_add_left_eq mod_mult_right_eq)
  ultimately show ?case using Suc by (simp add: algebra_simps)
qed simp

lemma orbit_range: "0 < s \<Longrightarrow> 0 \<le> orbit a c s n \<and> orbit a c s n < s"
  by (cases n) auto

lemma orbit_neq:
  assumes "a mod 4 = 1" "odd c" "i < j" "j < 2 ^ k"
  shows "orbit a c (2 ^ k) i \<noteq> orbit a c (2 ^ k) j"
proof
  let ?G = "\<lambda>n. \<Sum>i<n. a ^ i"
  assume "orbit a c (2 ^ k) i = orbit a c (2 ^ k) j"
  then have "2 ^ k dvd c * ?G j - c * ?G i"
    by (simp add: orbit_closed mod_eq_dvd_iff dvd_diff_commute)
  moreover have "?G j = ?G i + a ^ i * ?G (j - i)"
    using geo_add [of a i "j - i"] assms(3) by simp
  ultimately have "2 ^ k dvd (c * a ^ i) * ?G (j - i)" by (simp add: algebra_simps)
  moreover have "odd a" using assms(1) by presburger
  then have "coprime (2 ^ k) (c * a ^ i)" using assms(2) by simp
  ultimately have "2 ^ k dvd ?G (j - i)" by (simp add: coprime_dvd_mult_right_iff)
  then have "(2 :: int) ^ k dvd int (j - i)" using geo_dvd_iff [OF assms(1)] by blast
  then have "2 ^ k dvd j - i" by (metis int_dvd_int_iff of_nat_numeral of_nat_power)
  moreover have "0 < j - i" "j - i < 2 ^ k" using assms by auto
  ultimately show False by (auto dest: dvd_imp_le)
qed

text \<open>The reference table: the values below \<open>size\<close> in the order of the walk.\<close>

definition walk :: "int \<Rightarrow> int \<Rightarrow> nat \<Rightarrow> nat \<Rightarrow> int \<Rightarrow> int list" where
  "walk a c k p sz = filter (\<lambda>x. x < sz) (map (orbit a c (2 ^ k)) [p ..< 2 ^ k])"

lemma distinct_orbit:
  assumes "a mod 4 = 1" "odd c"
  shows "distinct (map (orbit a c (2 ^ k)) [0 ..< 2 ^ k])"
  unfolding distinct_conv_nth
proof (intro allI impI)
  fix i j :: nat
  assume "i < length (map (orbit a c (2 ^ k)) [0 ..< 2 ^ k])" "j < length (map (orbit a c (2 ^ k)) [0 ..< 2 ^ k])"
    and "i \<noteq> j"
  then show "map (orbit a c (2 ^ k)) [0 ..< 2 ^ k] ! i \<noteq> map (orbit a c (2 ^ k)) [0 ..< 2 ^ k] ! j"
    using orbit_neq [OF assms, of i j k] orbit_neq [OF assms, of j i k] by (cases "i < j") auto
qed

lemma set_orbit:
  assumes "a mod 4 = 1" "odd c"
  shows "set (map (orbit a c (2 ^ k)) [0 ..< 2 ^ k]) = {0 ..< 2 ^ k}"
proof (rule card_subset_eq)
  show "set (map (orbit a c (2 ^ k)) [0 ..< 2 ^ k]) \<subseteq> {0 ..< 2 ^ k}"
    using orbit_range [of "2 ^ k" a c] by auto
  show "card (set (map (orbit a c (2 ^ k)) [0 ..< 2 ^ k])) = card {0 ..< (2 :: int) ^ k}"
    using distinct_card [OF distinct_orbit [OF assms, of k]] by (simp add: nat_power_eq)
qed simp

lemma walk_permutation:
  assumes "a mod 4 = 1" "odd c" "sz \<le> 2 ^ k"
  shows "set (walk a c k 0 sz) = {0 ..< sz}" "distinct (walk a c k 0 sz)"
    "length (walk a c k 0 sz) = nat sz"
proof -
  show s: "set (walk a c k 0 sz) = {0 ..< sz}"
    using set_orbit [OF assms(1,2), of k] assms(3) unfolding walk_def set_filter by auto
  show d: "distinct (walk a c k 0 sz)"
    unfolding walk_def using distinct_orbit [OF assms(1,2)] by (rule distinct_filter)
  show "length (walk a c k 0 sz) = nat sz"
    using distinct_card [OF d] s by simp
qed

section \<open>The constructor follows the walk\<close>

text \<open>The multipliers and sizes in use: a modulus of at most \<open>2 ^ 14\<close>.\<close>

definition walk_ok :: "int \<Rightarrow> int \<Rightarrow> nat \<Rightarrow> bool" where
  "walk_ok t0 q k \<longleftrightarrow> 0 < t0 \<and> t0 < 2 ^ 15 \<and> t0 mod 4 = 1 \<and> 0 \<le> q \<and> odd q \<and> k \<le> 14"

lemma mapper_next_orbit:
  assumes "walk_ok t0 q k"
  shows "mapper_next t0 q (2 ^ k) (orbit t0 q (2 ^ k) n) = orbit t0 q (2 ^ k) (Suc n)"
proof -
  let ?x = "t0 * orbit t0 q (2 ^ k) n + q"
  have "(2 :: int) ^ k \<le> 2 ^ 14" using assms by (intro power_increasing) (auto simp: walk_ok_def)
  moreover have "?x mod 2 ^ k < 2 ^ k" by simp
  moreover have "(2 :: int) ^ 14 < 2 ^ 15" by simp
  ultimately have "?x mod 2 ^ k < 2 ^ 15" by (meson less_le_trans less_trans)
  moreover have "0 \<le> orbit t0 q (2 ^ k) n" using orbit_range [of "2 ^ k" t0 q n] by simp
  then have "0 \<le> ?x" using assms by (simp add: walk_ok_def)
  ultimately show ?thesis by (simp add: mapper_next_def c_rem_nonneg to_int16_nonneg)
qed

lemma redo_walk:
  assumes ok: "walk_ok t0 q k" and "walk t0 q k n sz = v # vs"
  shows "\<exists>m. n \<le> m \<and> m < 2 ^ k \<and> orbit t0 q (2 ^ k) m = v
    \<and> mapper_redo t0 q (2 ^ k) sz (orbit t0 q (2 ^ k) n) = Some v \<and> walk t0 q k (Suc m) sz = vs"
  using assms(2)
proof (induction "2 ^ k - n" arbitrary: n)
  case 0
  then show ?case by (simp add: walk_def)
next
  case (Suc d)
  then have n: "n < 2 ^ k" by simp
  then have ups: "[n ..< 2 ^ k] = n # [Suc n ..< 2 ^ k]" by (rule upt_conv_Cons)
  show ?case
  proof (cases "orbit t0 q (2 ^ k) n < sz")
    case True
    then have "v = orbit t0 q (2 ^ k) n" "vs = walk t0 q k (Suc n) sz"
      using Suc.prems by (auto simp: walk_def ups)
    then show ?thesis using True n by (subst mapper_redo.simps) auto
  next
    case False
    then have "walk t0 q k (Suc n) sz = v # vs" using Suc.prems by (simp add: walk_def ups)
    moreover have "d = 2 ^ k - Suc n" using Suc.hyps(2) by linarith
    ultimately obtain m where "Suc n \<le> m" "m < 2 ^ k" "orbit t0 q (2 ^ k) m = v"
        "mapper_redo t0 q (2 ^ k) sz (orbit t0 q (2 ^ k) (Suc n)) = Some v"
        "walk t0 q k (Suc m) sz = vs"
      using Suc.hyps(1) [of "Suc n"] by blast
    then show ?thesis using False
      by (subst mapper_redo.simps) (auto simp: mapper_next_orbit [OF ok] intro!: exI [of _ m])
  qed
qed

lemma fill_walk:
  assumes "walk_ok t0 q k" "length (walk t0 q k (Suc p) sz) = r"
  shows "mapper_fill t0 q (2 ^ k) sz r (orbit t0 q (2 ^ k) p) = Some (walk t0 q k (Suc p) sz)"
  using assms(2)
proof (induction r arbitrary: p)
  case (Suc r)
  then obtain v vs where v: "walk t0 q k (Suc p) sz = v # vs" by (cases "walk t0 q k (Suc p) sz") auto
  from redo_walk [OF assms(1) v] obtain m where m: "orbit t0 q (2 ^ k) m = v"
      "mapper_redo t0 q (2 ^ k) sz (orbit t0 q (2 ^ k) (Suc p)) = Some v" "walk t0 q k (Suc m) sz = vs"
    by auto
  have "mapper_fill t0 q (2 ^ k) sz r (orbit t0 q (2 ^ k) m) = Some (walk t0 q k (Suc m) sz)"
    by (rule Suc.IH) (use Suc.prems v m in simp)
  then show ?case using m v by (simp add: mapper_next_orbit [OF assms(1)] del: orbit.simps)
qed simp

text \<open>\<open>upLogger\<close> returns the least power of two not below its argument.\<close>

lemma up_loop_power:
  assumes "x \<le> 2 ^ 14" "j \<le> 14" "j = 0 \<or> 2 ^ (j - 1) < x"
  shows "\<exists>k \<le> 14. up_loop (2 ^ j) x = Some (2 ^ k) \<and> x \<le> 2 ^ k \<and> (k = 0 \<or> 2 ^ (k - 1) < x)"
  using assms
proof (induction "14 - j" arbitrary: j)
  case 0
  then have j: "j = 14" by simp
  have "up_loop (2 ^ j) x = Some (2 ^ j)"
    unfolding j by (subst up_loop.simps) (use 0 j in \<open>simp add: to_int16_id\<close>)
  then show ?case using 0 j by auto
next
  case (Suc d)
  then have j: "j < 14" by linarith
  have "j < 16" using j by simp
  then have u: "uint ((2 :: u16) ^ j) = 2 ^ j" by (simp add: uint_power2)
  have b: "(2 :: int) ^ j < 2 ^ 15" using j by (intro power_strict_increasing) auto
  show ?case
  proof (cases "2 ^ j < x")
    case True
    have "up_loop (2 ^ j) x = up_loop (2 ^ Suc j) x"
      using True u by (subst up_loop.simps) (simp add: push_bit_eq_mult mult.commute)
    moreover have "d = 14 - Suc j" using Suc.hyps(2) by linarith
    ultimately show ?thesis using Suc.hyps(1) [of "Suc j"] Suc.prems j True by simp
  next
    case False
    have nn: "0 \<le> (2 :: int) ^ j" by simp
    have "up_loop (2 ^ j) x = Some (2 ^ j)"
      using False u to_int16_nonneg [OF nn b] by (subst up_loop.simps) simp
    then show ?thesis using False Suc.prems j by auto
  qed
qed

lemma upLogger_power:
  assumes "x \<le> 2 ^ 14"
  obtains k where "k \<le> 14" "upLogger x = Some (2 ^ k)" "x \<le> 2 ^ k" "k = 0 \<or> 2 ^ (k - 1) < x"
  using up_loop_power [OF assms, of 0] unfolding upLogger_def by auto

lemma mapper_walk_table:
  assumes "t0 \<in> {5, 13, 21}" "5 \<le> sz" "sz \<le> 2 ^ 14"
  shows "\<exists>k. \<exists>table. upLogger sz = Some (2 ^ k) \<and> mapper sz t0 = Some table
    \<and> table = walk t0 (2 ^ (k - 2) - 1) k 0 sz
    \<and> length table = nat sz \<and> distinct table \<and> set table = {0 ..< sz}"
proof -
  obtain k where k: "k \<le> 14" "upLogger sz = Some (2 ^ k)" "sz \<le> 2 ^ k" "k = 0 \<or> 2 ^ (k - 1) < sz"
    using upLogger_power [OF assms(3)] .
  have k3: "3 \<le> k"
  proof (rule ccontr)
    assume "\<not> 3 \<le> k"
    then have "(2 :: int) ^ k \<le> 2 ^ 2" by (intro power_increasing) auto
    then show False using k(3) assms(2) by simp
  qed
  define q :: int where "q = 2 ^ (k - 2) - 1"
  obtain j where j: "k = j + 2" using k3 by (intro that [of "k - 2"]) simp
  then have q: "c_div (2 ^ k) 4 - 1 = q" by (simp add: c_div_nonneg q_def j)
  have "odd q" using k3 by (simp add: q_def)
  then have ok: "walk_ok t0 q k" using assms(1) k(1) by (auto simp: walk_ok_def q_def)
  then have par: "t0 mod 4 = 1" "odd q" by (simp_all add: walk_ok_def)
  note perm = walk_permutation [OF par k(3)]
  have "[0 ..< 2 ^ k] = 0 # [Suc 0 ..< 2 ^ k]" by (rule upt_conv_Cons) simp
  then have w: "walk t0 q k 0 sz = 0 # walk t0 q k (Suc 0) sz"
    using assms(2) by (simp add: walk_def)
  have "mapper_fill t0 q (2 ^ k) sz (nat sz - 1) 0 = Some (walk t0 q k (Suc 0) sz)"
    using fill_walk [OF ok, of 0 sz "nat sz - 1"] perm(3) w by simp
  then have "mapper sz t0 = Some (walk t0 q k 0 sz)"
    using assms k(2) q w by (auto simp: mapper_def Let_def)
  then show ?thesis using perm k(2) unfolding q_def by blast
qed

lemma mapper_permutation_table:
  assumes "t0 \<in> {5, 13, 21}" "5 \<le> sz" "sz \<le> 2 ^ 14"
  obtains table where "mapper sz t0 = Some table" "length table = nat sz" "distinct table"
    "set table = {0 ..< sz}"
  using mapper_walk_table [OF assms] by blast

text \<open>
  C32. For every size the decoder uses (5 up to 16384 entries) and each of its three multipliers,
  the constructor of the mapper terminates and its table lists every index below the size exactly
  once: it is the congruential walk with the values that are too large left out.
\<close>
theorem mapper_permutation:
  assumes "t0 \<in> {5, 13, 21}" "5 \<le> sz" "sz \<le> 2 ^ 14"
  shows "\<exists>k. \<exists>table. upLogger sz = Some (2 ^ k) \<and> mapper sz t0 = Some table
    \<and> table = walk t0 (2 ^ (k - 2) - 1) k 0 sz
    \<and> length table = nat sz \<and> distinct table \<and> set table = {0 ..< sz}"
  by (rule mapper_walk_table [OF assms])

theorem mapper_permutation_witness:
  "\<exists>k. \<exists>table. upLogger 130 = Some (2 ^ k) \<and> mapper 130 21 = Some table
    \<and> table = walk 21 (2 ^ (k - 2) - 1) k 0 130
    \<and> length table = nat 130 \<and> distinct table \<and> set table = {0 ..< 130}"
  by (rule mapper_permutation) simp_all

end
