(* ===== verification/DrmDeinterleaver.thy ===== *)
theory DrmDeinterleaver
  imports DrmMapper
begin

text \<open>
  The cell deinterleavers of the DRM decoder, \<open>decoders/drm-decoder/support/deinterleaver.cpp\<close>:
  the short one permutes the cells of one multiplex frame, the long one also spreads them over
  \<open>depth\<close> frames. The cells are of any type. The long deinterleaver is specified by the delay it
  gives each cell.
\<close>

section \<open>The short deinterleaver\<close>

record deInterleaver =
  Length :: nat
  mapper_table :: "int list"

definition new_deInterleaver :: "nat \<Rightarrow> deInterleaver option" where
  "new_deInterleaver len =
     (case mapper (int len) 5 of
        None \<Rightarrow> None
      | Some t \<Rightarrow> Some \<lparr>Length = len, mapper_table = t\<rparr>)"

definition deInterleave :: "deInterleaver \<Rightarrow> 'a list \<Rightarrow> 'a list \<Rightarrow> 'a list" where
  "deInterleave d inp out =
     foldl (\<lambda>o' i. o'[mapIn (mapper_table d) i := inp ! i]) out [0 ..< Length d]"

section \<open>The long deinterleaver\<close>

text \<open>The buffer is allocated and not initialised: its first contents are a parameter.\<close>

record 'a deInterleaver_long = deInterleaver +
  depth :: nat
  buffer :: "'a list list"

definition new_deInterleaver_long :: "nat \<Rightarrow> nat \<Rightarrow> 'a list list \<Rightarrow> 'a deInterleaver_long option" where
  "new_deInterleaver_long len dep mem =
     (case new_deInterleaver len of
        None \<Rightarrow> None
      | Some d \<Rightarrow> Some (deInterleaver.extend d (deInterleaver_long.fields dep mem)))"

text \<open>Step 1: \<open>buffer [j % depth][mapIn (j)] = in [j]\<close>.\<close>

definition long_fill ::
  "(nat \<Rightarrow> nat) \<Rightarrow> nat \<Rightarrow> 'a list \<Rightarrow> 'a list list \<Rightarrow> nat \<Rightarrow> 'a list list" where
  "long_fill m dep inp buf n =
     foldl (\<lambda>b j. b[j mod dep := (b ! (j mod dep))[m j := inp ! j]]) buf [0 ..< n]"

text \<open>Step 3: every row but the first takes the contents of the row before it, from the last down.\<close>

definition long_shift :: "nat \<Rightarrow> nat \<Rightarrow> 'a list list \<Rightarrow> 'a list list" where
  "long_shift dep len buf =
     foldl (\<lambda>b k. b[k := take len (b ! (k - 1)) @ drop len (b ! k)]) buf (rev [1 ..< dep])"

definition deInterleave_long ::
  "'a deInterleaver_long \<Rightarrow> 'a list \<Rightarrow> 'a list \<Rightarrow> 'a list \<times> 'a deInterleaver_long" where
  "deInterleave_long d inp out =
     (let buf = long_fill (mapIn (mapper_table d)) (depth d) inp (buffer d) (Length d);
          out' = take (Length d) (buf ! (depth d - 1)) @ drop (Length d) out
      in (out', d\<lparr>buffer := long_shift (depth d) (Length d) buf\<rparr>))"

text \<open>A sequence of frames, each written over the same output vector.\<close>

fun deInterleave_frames ::
  "'a deInterleaver_long \<Rightarrow> 'a list list \<Rightarrow> 'a list \<Rightarrow> 'a list list" where
  "deInterleave_frames d [] out = []"
| "deInterleave_frames d (f # fs) out =
     (let (out', d') = deInterleave_long d f out in out' # deInterleave_frames d' fs out')"

section \<open>The table is a permutation\<close>

lemma bij_betw_table:
  assumes "distinct table" "set table = {0 ..< int n}" "length table = n"
  shows "bij_betw (mapIn table) {0 ..< n} {0 ..< n}"
proof -
  have "bij_betw (\<lambda>i. table ! i) {0 ..< n} {0 ..< int n}"
    using bij_betw_nth [OF assms(1), of "{0 ..< n}"] assms(2,3) by (simp add: atLeast0LessThan)
  moreover have "bij_betw nat {0 ..< int n} {0 ..< n}"
    by (rule bij_betw_byWitness [where f' = int]) auto
  ultimately have "bij_betw (nat \<circ> (\<lambda>i. table ! i)) {0 ..< n} {0 ..< n}"
    by (rule bij_betw_trans)
  then show ?thesis by (simp add: mapIn_def [abs_def] comp_def)
qed

lemma mapper_cell_permutation:
  assumes "t0 \<in> {5, 13, 21}" "5 \<le> n" "n \<le> 2 ^ 14"
  obtains table where "mapper (int n) t0 = Some table" "cell_permutation (mapIn table) n"
proof -
  have n: "(5 :: int) \<le> int n" "int n \<le> 2 ^ 14" using assms by simp_all
  obtain table where "mapper (int n) t0 = Some table" "length table = nat (int n)" "distinct table"
      "set table = {0 ..< int n}"
    by (rule mapper_permutation_table [OF assms(1) n])
  then show ?thesis using that bij_betw_table unfolding cell_permutation_def by (metis nat_int)
qed

text \<open>The instances the decoder builds: the FAC mapper, and a cell deinterleaver.\<close>

lemma the_mapper_permutation:
  assumes "t0 \<in> {5, 13, 21}" "5 \<le> n" "n \<le> 2 ^ 14"
  shows "cell_permutation (mapIn (the (mapper (int n) t0))) n"
  using mapper_cell_permutation [OF assms] by (metis option.sel)

interpretation fac_cells: cell_permutation "mapIn (the (mapper (int 130) 21))" 130
  by (rule the_mapper_permutation) simp_all

section \<open>The rows of the buffer\<close>

definition buffer_ok :: "nat \<Rightarrow> nat \<Rightarrow> 'a list list \<Rightarrow> bool" where
  "buffer_ok dep len buf \<longleftrightarrow> length buf = dep \<and> (\<forall>row \<in> set buf. length row = len)"

lemma buffer_ok_row: "buffer_ok dep len buf \<Longrightarrow> k < dep \<Longrightarrow> length (buf ! k) = len"
  by (simp add: buffer_ok_def)

lemma buffer_ok_update:
  "buffer_ok dep len buf \<Longrightarrow> length row = len \<Longrightarrow> buffer_ok dep len (buf[k := row])"
  by (auto simp: buffer_ok_def dest!: set_update_subset_insert [THEN subsetD])

lemma long_fill_Suc:
  "long_fill m dep inp buf (Suc n) =
     (long_fill m dep inp buf n)[n mod dep := (long_fill m dep inp buf n ! (n mod dep))[m n := inp ! n]]"
  by (simp add: long_fill_def)

lemma long_fill_ok: "buffer_ok dep len buf \<Longrightarrow> 0 < dep \<Longrightarrow> buffer_ok dep len (long_fill m dep inp buf n)"
proof (induction n)
  case (Suc n)
  then have "length (long_fill m dep inp buf n ! (n mod dep)) = len"
    by (intro buffer_ok_row [where dep = dep]) simp_all
  then show ?case using Suc by (simp add: long_fill_Suc buffer_ok_update)
qed (simp add: long_fill_def)

lemma nth_long_fill:
  assumes p: "cell_permutation m len" and ok: "buffer_ok dep len buf" "0 < dep"
    and "n \<le> len" "j < len" "k < dep"
  shows "long_fill m dep inp buf n ! k ! m j
    = (if j < n \<and> j mod dep = k then inp ! j else buf ! k ! m j)"
  using assms(4-6)
proof (induction n)
  case 0
  then show ?case by (simp add: long_fill_def)
next
  case (Suc n)
  let ?b = "long_fill m dep inp buf n"
  have okb: "buffer_ok dep len ?b" by (rule long_fill_ok [OF ok])
  have l: "length ?b = dep" "length (?b ! k) = len"
    using okb Suc.prems buffer_ok_row by (auto simp: buffer_ok_def)
  have mj: "m j < len" and eq: "m n = m j \<longleftrightarrow> n = j"
    using cell_permutation.m_less [OF p] cell_permutation.m_eq_iff [OF p] Suc.prems by auto
  show ?case
  proof (cases "n mod dep = k")
    case True
    then show ?thesis using Suc l mj eq by (auto simp: long_fill_Suc nth_list_update less_Suc_eq)
  next
    case False
    then show ?thesis using Suc l by (auto simp: long_fill_Suc nth_list_update less_Suc_eq)
  qed
qed

lemma shift_rows:
  assumes "buffer_ok dep len buf" "n \<le> dep"
  shows "buffer_ok dep len (foldl (\<lambda>b k. b[k := take len (b ! (k - 1)) @ drop len (b ! k)]) buf (rev [1 ..< n]))
    \<and> (\<forall>k < dep. foldl (\<lambda>b k. b[k := take len (b ! (k - 1)) @ drop len (b ! k)]) buf (rev [1 ..< n]) ! k
       = (if 1 \<le> k \<and> k < n then buf ! (k - 1) else buf ! k))"
  using assms
proof (induction n arbitrary: buf)
  case (Suc n)
  show ?case
  proof (cases "n = 0")
    case False
    then have r: "rev [1 ..< Suc n] = n # rev [1 ..< n]" by simp
    define b1 where "b1 = buf[n := take len (buf ! (n - 1)) @ drop len (buf ! n)]"
    have n: "n < dep" "length (buf ! (n - 1)) = len" "length (buf ! n) = len" "length buf = dep"
      using Suc.prems buffer_ok_row [of dep len buf] by (auto simp: buffer_ok_def)
    then have b1: "b1 = buf[n := buf ! (n - 1)]" by (simp add: b1_def)
    have ok1: "buffer_ok dep len b1" unfolding b1 using Suc.prems n by (simp add: buffer_ok_update)
    show ?thesis
      using Suc.IH [OF ok1] n False unfolding r foldl_Cons b1_def [symmetric]
      by (auto simp: b1 nth_list_update less_Suc_eq)
  qed (use Suc.prems in simp)
qed simp

lemma long_shift_ok:
  assumes "buffer_ok dep len buf" "k < dep"
  shows "buffer_ok dep len (long_shift dep len buf)"
    "long_shift dep len buf ! k = (if k = 0 then buf ! 0 else buf ! (k - 1))"
  using shift_rows [OF assms(1), of dep] assms(2) by (simp_all add: long_shift_def)

section \<open>The delay of a cell\<close>

text \<open>
  After \<open>n\<close> frames, row \<open>k\<close> holds cell \<open>j\<close> of the frame that entered \<open>k - j mod depth\<close> frames
  earlier, if there was one.
\<close>

definition rows_hold :: "(nat \<Rightarrow> nat) \<Rightarrow> nat \<Rightarrow> nat \<Rightarrow> (nat \<Rightarrow> 'a list) \<Rightarrow> nat \<Rightarrow> 'a list list \<Rightarrow> bool" where
  "rows_hold m dep len F n buf \<longleftrightarrow>
     (\<forall>j < len. \<forall>k < dep. j mod dep < k \<longrightarrow> k - j mod dep \<le> n \<longrightarrow>
        buf ! k ! m j = F (n - (k - j mod dep)) ! j)"

lemma rows_hold_fill:
  assumes p: "cell_permutation m len" and ok: "buffer_ok dep len buf" "0 < dep"
    and h: "rows_hold m dep len F n buf" and j: "j < len" "k < dep" "j mod dep \<le> k" "k - j mod dep \<le> n"
  shows "long_fill m dep (F n) buf len ! k ! m j = F (n - (k - j mod dep)) ! j"
proof (cases "j mod dep = k")
  case True
  then show ?thesis using nth_long_fill [OF p ok, of len j k] j by simp
next
  case False
  then show ?thesis using nth_long_fill [OF p ok, of len j k] j h by (auto simp: rows_hold_def)
qed

lemma rows_hold_step:
  assumes p: "cell_permutation m len" and ok: "buffer_ok dep len buf" "0 < dep"
    and h: "rows_hold m dep len F n buf"
  shows "rows_hold m dep len F (Suc n) (long_shift dep len (long_fill m dep (F n) buf len))"
  unfolding rows_hold_def
proof (intro allI impI)
  fix j k assume j: "j < len" "k < dep" "j mod dep < k" "k - j mod dep \<le> Suc n"
  let ?b = "long_fill m dep (F n) buf len"
  have "buffer_ok dep len ?b" by (rule long_fill_ok [OF ok])
  then have "long_shift dep len ?b ! k = ?b ! (k - 1)" using long_shift_ok(2) [of dep len ?b k] j by auto
  moreover have "?b ! (k - 1) ! m j = F (n - (k - 1 - j mod dep)) ! j"
    by (rule rows_hold_fill [OF p ok h]) (use j in auto)
  moreover have "n - (k - 1 - j mod dep) = Suc n - (k - j mod dep)" using j by arith
  ultimately show "long_shift dep len ?b ! k ! m j = F (Suc n - (k - j mod dep)) ! j" by simp
qed

definition long_ok :: "nat \<Rightarrow> nat \<Rightarrow> 'a deInterleaver_long \<Rightarrow> bool" where
  "long_ok len dep d \<longleftrightarrow> Length d = len \<and> depth d = dep \<and> 0 < dep
     \<and> cell_permutation (mapIn (mapper_table d)) len \<and> buffer_ok dep len (buffer d)"

lemma deInterleave_long_step:
  assumes ok: "long_ok len dep d" and out: "length out = len"
    and h: "rows_hold (mapIn (mapper_table d)) dep len F n (buffer d)"
  defines "r \<equiv> deInterleave_long d (F n) out"
  shows "long_ok len dep (snd r)" "mapper_table (snd r) = mapper_table d" "length (fst r) = len"
    "rows_hold (mapIn (mapper_table d)) dep len F (Suc n) (buffer (snd r))"
    "\<And>j. j < len \<Longrightarrow> dep - 1 - j mod dep \<le> n \<Longrightarrow>
       fst r ! mapIn (mapper_table d) j = F (n - (dep - 1 - j mod dep)) ! j"
proof -
  let ?m = "mapIn (mapper_table d)" and ?b = "long_fill (mapIn (mapper_table d)) dep (F n) (buffer d) len"
  have p: "cell_permutation ?m len" and b: "buffer_ok dep len (buffer d)" "0 < dep"
    and d: "Length d = len" "depth d = dep"
    using ok by (simp_all add: long_ok_def)
  have bo: "buffer_ok dep len ?b" by (rule long_fill_ok [OF b])
  then have len: "length (?b ! (dep - 1)) = len" using b(2) by (intro buffer_ok_row [where dep = dep]) auto
  have r: "r = (?b ! (dep - 1), d\<lparr>buffer := long_shift dep len ?b\<rparr>)"
    using d out len by (simp add: r_def deInterleave_long_def Let_def)
  show "long_ok len dep (snd r)"
    using ok long_shift_ok(1) [OF bo b(2)] by (simp add: r long_ok_def)
  show "mapper_table (snd r) = mapper_table d" "length (fst r) = len"
    using len by (simp_all add: r)
  show "rows_hold ?m dep len F (Suc n) (buffer (snd r))"
    using rows_hold_step [OF p b h] by (simp add: r)
  show "fst r ! ?m j = F (n - (dep - 1 - j mod dep)) ! j" if "j < len" "dep - 1 - j mod dep \<le> n" for j
  proof -
    have "j mod dep < dep" using b(2) by simp
    then have "j mod dep \<le> dep - 1" by linarith
    then show ?thesis using rows_hold_fill [OF p b h that(1), of "dep - 1"] that(2) b(2) by (simp add: r)
  qed
qed

lemma deInterleave_frames_delay:
  assumes "long_ok len dep d" "length out = len"
    and "rows_hold (mapIn (mapper_table d)) dep len F n (buffer d)"
    and "i < length fs" "\<And>i. i < length fs \<Longrightarrow> fs ! i = F (n + i)"
    and "j < len" "dep - 1 - j mod dep \<le> n + i"
  shows "deInterleave_frames d fs out ! i ! mapIn (mapper_table d) j = F (n + i - (dep - 1 - j mod dep)) ! j"
  using assms
proof (induction fs arbitrary: d out n i)
  case (Cons f fs)
  have f: "f = F n" using Cons.prems(5) [of 0] by simp
  note step = deInterleave_long_step [OF Cons.prems(1-3)]
  show ?case
  proof (cases i)
    case 0
    then show ?thesis using step(5) Cons.prems(6,7) f by (simp add: split_def Let_def)
  next
    case (Suc i')
    have nx: "fs ! i = F (Suc n + i)" if "i < length fs" for i
      using Cons.prems(5) [of "Suc i"] that by simp
    have "deInterleave_frames (snd (deInterleave_long d (F n) out)) fs (fst (deInterleave_long d (F n) out)) ! i'
        ! mapIn (mapper_table d) j = F (Suc n + i' - (dep - 1 - j mod dep)) ! j"
      using Cons.IH [OF step(1,3), of "Suc n" i'] step(2,4) Cons.prems Suc nx by simp
    then show ?thesis using Suc f by (simp add: split_def Let_def)
  qed
qed simp

lemma new_deInterleaver_long_ok:
  assumes "5 \<le> len" "len \<le> 2 ^ 14" "0 < dep" "buffer_ok dep len mem"
  obtains d where "new_deInterleaver_long len dep mem = Some d" "long_ok len dep d"
    "buffer d = mem" "mapper (int len) 5 = Some (mapper_table d)"
proof -
  obtain t where t: "mapper (int len) 5 = Some t" "cell_permutation (mapIn t) len"
    by (rule mapper_cell_permutation [of 5 len]) (use assms in auto)
  show ?thesis
    by (rule that [of "\<lparr>Length = len, mapper_table = t, depth = dep, buffer = mem\<rparr>"])
      (use t assms in \<open>simp_all add: new_deInterleaver_long_def new_deInterleaver_def long_ok_def
        deInterleaver.extend_def deInterleaver_long.fields_def\<close>)
qed

text \<open>
  The short deinterleaver moves every cell of a frame to its place in the table: the output
  holds at place \<open>mapIn i\<close> the cell \<open>i\<close> of the input, for every frame length from 5 to 16384, and
  nothing of the previous contents of the output vector survives.
\<close>
theorem deInterleave_places:
  assumes "5 \<le> len" "len \<le> 2 ^ 14" "length out = len"
  shows "\<exists>d. new_deInterleaver len = Some d \<and> length (deInterleave d inp out) = len
    \<and> (\<forall>i < len. deInterleave d inp out ! mapIn (mapper_table d) i = inp ! i)
    \<and> (\<forall>p < len. \<exists>i < len. deInterleave d inp out ! p = inp ! i)"
proof -
  obtain t where t: "mapper (int len) 5 = Some t" "cell_permutation (mapIn t) len"
    by (rule mapper_cell_permutation [of 5 len]) (use assms in auto)
  let ?d = "\<lparr>Length = len, mapper_table = t\<rparr>"
  have places: "deInterleave ?d inp out ! mapIn t i = inp ! i" if "i < len" for i
    using cell_permutation.nth_scatter [OF t(2), of out i "(!) inp"] that assms(3)
    by (simp add: deInterleave_def)
  have len: "length (deInterleave ?d inp out) = len"
    using assms(3) by (simp add: deInterleave_def cell_permutation.length_scatter [OF t(2)])
  have "\<exists>i < len. deInterleave ?d inp out ! p = inp ! i" if "p < len" for p
    using cell_permutation.m_surj [OF t(2) that] places by metis
  then show ?thesis using places len t(1) by (intro exI [of _ ?d]) (simp add: new_deInterleaver_def)
qed

theorem deInterleave_places_witness:
  "\<exists>d. new_deInterleaver 6 = Some d \<and> length (deInterleave d [1, 2, 3, 4, 5, 6 :: int] [0, 0, 0, 0, 0, 0]) = 6
    \<and> (\<forall>i < 6. deInterleave d [1, 2, 3, 4, 5, 6 :: int] [0, 0, 0, 0, 0, 0] ! mapIn (mapper_table d) i
        = [1, 2, 3, 4, 5, 6] ! i)
    \<and> (\<forall>p < 6. \<exists>i < 6. deInterleave d [1, 2, 3, 4, 5, 6 :: int] [0, 0, 0, 0, 0, 0] ! p
        = [1, 2, 3, 4, 5, 6] ! i)"
  by (rule deInterleave_places) simp_all

text \<open>
  C30. The long deinterleaver is a bank of delay lines in front of the permutation: in the output of
  frame \<open>n\<close>, the place \<open>mapIn j\<close> holds cell \<open>j\<close> of the frame that came in \<open>depth - 1 - j mod depth\<close>
  frames earlier. Once \<open>depth - 1\<close> frames are in, no output depends on the memory the buffer
  was allocated in.
\<close>
theorem deInterleave_long_delays:
  assumes "5 \<le> len" "len \<le> 2 ^ 14" "0 < dep" "buffer_ok dep len mem" "length out = len"
  shows "\<exists>d. new_deInterleaver_long len dep mem = Some d
    \<and> (\<forall>n < length fs. \<forall>j < len. dep - 1 - j mod dep \<le> n \<longrightarrow>
        deInterleave_frames d fs out ! n ! mapIn (mapper_table d) j = fs ! (n - (dep - 1 - j mod dep)) ! j)"
proof -
  obtain d where d: "new_deInterleaver_long len dep mem = Some d" "long_ok len dep d"
    by (rule new_deInterleaver_long_ok [OF assms(1-4)])
  have "rows_hold (mapIn (mapper_table d)) dep len ((!) fs) 0 (buffer d)"
    by (auto simp: rows_hold_def)
  then show ?thesis
    using deInterleave_frames_delay [OF d(2) assms(5), of "(!) fs" 0 _ fs] d(1) by auto
qed

theorem deInterleave_long_delays_witness:
  "\<exists>d. new_deInterleaver_long 6 2 [[0, 0, 0, 0, 0, 0], [0, 0, 0, 0, 0, 0]] = Some d
    \<and> (\<forall>n < length [[1 :: int, 2, 3, 4, 5, 6], [7, 8, 9, 10, 11, 12]]. \<forall>j < 6. 2 - 1 - j mod 2 \<le> n \<longrightarrow>
        deInterleave_frames d [[1 :: int, 2, 3, 4, 5, 6], [7, 8, 9, 10, 11, 12]] [0, 0, 0, 0, 0, 0] ! n
          ! mapIn (mapper_table d) j = [[1, 2, 3, 4, 5, 6], [7, 8, 9, 10, 11, 12]] ! (n - (2 - 1 - j mod 2)) ! j)"
  by (rule deInterleave_long_delays) (simp_all add: buffer_ok_def)

end
