(* ===== verification/Trellis.thy ===== *)
theory Trellis
  imports Prelude
begin

text \<open>
  The interface between the Viterbi decoders and their proof: columns of accumulated costs filled
  by add-compare-select over two predecessors, and a history of the choices. Neither the order nor
  the addition of the costs is fixed: the decoders compute in floats or in integers, minimise or
  maximise, and all the argument needs is that addition keeps the order.
\<close>

locale acs_trellis =
  fixes lt :: "'c \<Rightarrow> 'c \<Rightarrow> bool"
    and add :: "'c \<Rightarrow> 'c \<Rightarrow> 'c"
    and states :: nat
    and pred0 pred1 :: "nat \<Rightarrow> nat"
    and branch :: "nat \<Rightarrow> nat \<Rightarrow> nat \<Rightarrow> 'c"
    and cost :: "nat \<Rightarrow> nat \<Rightarrow> 'c"
    and hist :: "nat \<Rightarrow> nat \<Rightarrow> nat"
    and columns :: nat
  assumes lt_asym: "lt a b \<Longrightarrow> \<not> lt b a"
    and ge_trans: "\<not> lt b a \<Longrightarrow> \<not> lt c b \<Longrightarrow> \<not> lt c a"
    and add_mono: "\<not> lt b a \<Longrightarrow> \<not> lt (add b c) (add a c)"
    and pred_less: "s < states \<Longrightarrow> pred0 s < states \<and> pred1 s < states"
    and select: "i < columns \<Longrightarrow> s < states \<Longrightarrow>
      (let c0 = add (cost i (pred0 s)) (branch i (pred0 s) s);
           c1 = add (cost i (pred1 s)) (branch i (pred1 s) s)
       in cost (Suc i) s = (if lt c0 c1 then c0 else c1)
          \<and> hist (Suc i) s = (if lt c0 c1 then pred0 s else pred1 s))"
begin

text \<open>A path through the first \<open>n\<close> columns, and its accumulated cost.\<close>

definition path :: "nat \<Rightarrow> (nat \<Rightarrow> nat) \<Rightarrow> bool" where
  "path n p \<longleftrightarrow> (\<forall>i \<le> n. p i < states) \<and> (\<forall>i < n. p i = pred0 (p (Suc i)) \<or> p i = pred1 (p (Suc i)))"

fun path_cost :: "(nat \<Rightarrow> nat) \<Rightarrow> nat \<Rightarrow> 'c" where
  "path_cost p 0 = cost 0 (p 0)"
| "path_cost p (Suc i) = add (path_cost p i) (branch i (p i) (p (Suc i)))"

lemma lt_irrefl: "\<not> lt a a"
  using lt_asym by blast

text \<open>The cost of a state never exceeds that of a path that ends in it.\<close>

lemma cost_le_path:
  assumes "path n p" "n \<le> columns"
  shows "\<not> lt (path_cost p n) (cost n (p n))"
  using assms
proof (induction n)
  case 0
  then show ?case by (simp add: lt_irrefl)
next
  case (Suc n)
  let ?s = "p (Suc n)"
  let ?c0 = "add (cost n (pred0 ?s)) (branch n (pred0 ?s) ?s)"
    and ?c1 = "add (cost n (pred1 ?s)) (branch n (pred1 ?s) ?s)"
  have pn: "path n p" using Suc.prems by (simp add: path_def)
  have IH: "\<not> lt (path_cost p n) (cost n (p n))" using Suc.IH pn Suc.prems by simp
  have le: "\<not> lt (path_cost p (Suc n)) (add (cost n (p n)) (branch n (p n) ?s))"
    using add_mono [OF IH] by simp
  have p: "p n = pred0 ?s \<or> p n = pred1 ?s" "?s < states" using Suc.prems by (auto simp: path_def)
  have c: "cost (Suc n) ?s = (if lt ?c0 ?c1 then ?c0 else ?c1)"
    using select [of n ?s] p Suc.prems by (simp add: Let_def)
  have "\<not> lt ?c0 (cost (Suc n) ?s)" "\<not> lt ?c1 (cost (Suc n) ?s)"
    using c lt_irrefl lt_asym by auto
  then have "\<not> lt (add (cost n (p n)) (branch n (p n) ?s)) (cost (Suc n) ?s)"
    using p(1) by auto
  from ge_trans [OF this le] show ?case .
qed

text \<open>A path that follows the history costs exactly what the columns say.\<close>

definition survivor :: "nat \<Rightarrow> (nat \<Rightarrow> nat) \<Rightarrow> bool" where
  "survivor n p \<longleftrightarrow> p n < states \<and> (\<forall>i < n. p i = hist (Suc i) (p (Suc i)))"

lemma survivor_path_cost:
  "survivor n p \<Longrightarrow> n \<le> columns \<Longrightarrow> path n p \<and> path_cost p n = cost n (p n)"
proof (induction n)
  case 0
  then show ?case by (simp add: survivor_def path_def)
next
  case (Suc n)
  let ?s = "p (Suc n)"
  let ?c0 = "add (cost n (pred0 ?s)) (branch n (pred0 ?s) ?s)"
    and ?c1 = "add (cost n (pred1 ?s)) (branch n (pred1 ?s) ?s)"
  have s: "?s < states" "p n = hist (Suc n) ?s" using Suc.prems by (auto simp: survivor_def)
  have sel: "cost (Suc n) ?s = (if lt ?c0 ?c1 then ?c0 else ?c1)"
      "p n = (if lt ?c0 ?c1 then pred0 ?s else pred1 ?s)"
    using select [of n ?s] s Suc.prems by (simp_all add: Let_def)
  then have pn: "p n < states" "p n = pred0 ?s \<or> p n = pred1 ?s" using pred_less s(1) by auto
  then have "survivor n p" using Suc.prems by (simp add: survivor_def)
  then have IH: "path n p" "path_cost p n = cost n (p n)" using Suc by simp_all
  have "path (Suc n) p" using IH(1) pn s(1) by (auto simp: path_def le_Suc_eq less_Suc_eq)
  then show ?case using IH(2) sel by auto
qed

text \<open>Hence the survivor of a state of least cost is a cheapest path.\<close>

lemma survivor_optimal:
  assumes "survivor n p" "n \<le> columns" "\<And>s. s < states \<Longrightarrow> \<not> lt (cost n s) (cost n (p n))" "path n r"
  shows "\<not> lt (path_cost r n) (path_cost p n)"
proof -
  have "\<not> lt (path_cost r n) (cost n (r n))" by (rule cost_le_path [OF assms(4,2)])
  moreover have "\<not> lt (cost n (r n)) (path_cost p n)"
    using assms(3,4) survivor_path_cost [OF assms(1,2)] by (simp add: path_def)
  ultimately show ?thesis by (rule ge_trans [rotated])
qed

end

end
