(* ===== verification/DrmViterbi.thy ===== *)
theory DrmViterbi
  imports Trellis
begin

text \<open>
  The convolutional code of the DRM decoder, \<open>decoders/drm-decoder/support/viterbi-drm.cpp\<close>:
  rate 1/6, constraint length 7. Costs are of any ordered type with an addition and a zero, so the
  same definitions read as the source's float arithmetic (an addition that rounds, of which only
  monotonicity is used) and compute on integers. \<open>INT_MAX\<close>, converted to a float in the source, is
  the parameter \<open>imax\<close>. The theorems: the decoder returns the input bits of a cheapest path, and
  recovers the input of the encoder from noise-free metrics.
\<close>

section \<open>Tables\<close>

record 'f metrics =
  rTow0 :: 'f
  rTow1 :: 'f

definition bitFor :: "u16 \<Rightarrow> u16 \<Rightarrow> u8 \<Rightarrow> u8" where
  "bitFor state poly b =
     fst (foldl (\<lambda>(res, reg) _. (res XOR ucast (reg AND 1), drop_bit 1 reg))
       (0, (if b = 0 then state else state + 64) AND poly) [0 ..< 8])"

definition poly_table :: "u16 \<Rightarrow> u8 list" where
  "poly_table poly = concat (map (\<lambda>i. map (\<lambda>j. bitFor (of_nat j) poly (of_nat i)) [0 ..< 64]) [0 ..< 2])"

text \<open>The six generators, octal 133, 171, 145, 133, 171, 145.\<close>

definition Poly1 :: u16 where "Poly1 = 91"
definition Poly2 :: u16 where "Poly2 = 121"
definition Poly3 :: u16 where "Poly3 = 101"

definition polys :: "u16 list" where
  "polys = [Poly1, Poly2, Poly3, Poly1, Poly2, Poly3]"

definition predecessor_for_0 :: "nat \<Rightarrow> nat" where
  "predecessor_for_0 i = (push_bit 1 i + 0) AND 63"

definition predecessor_for_1 :: "nat \<Rightarrow> nat" where
  "predecessor_for_1 i = (push_bit 1 i + 1) AND 63"

section \<open>The decoder\<close>

text \<open>The cost of the six soft bits \<open>symb\<close> for the register \<open>lIndex\<close>, added from left to right.\<close>

definition costsFor :: "nat \<Rightarrow> 'f::plus metrics list \<Rightarrow> 'f" where
  "costsFor lIndex symb =
     (let res = (\<lambda>k. if poly_table (polys ! k) ! lIndex = 0 then rTow0 (symb ! k) else rTow1 (symb ! k))
      in res 0 + res 1 + res 2 + res 3 + res 4 + res 5)"

text \<open>One state of a new column: the cheaper predecessor, the second one on a tie.\<close>

definition select_state :: "'f::{plus,ord} list \<Rightarrow> 'f metrics list \<Rightarrow> nat \<Rightarrow> 'f \<times> nat" where
  "select_state costs symb cState =
     (let prev_0 = predecessor_for_0 cState;
          prev_1 = predecessor_for_1 cState;
          entry = (if cState < 32 then 0 else 64);
          costs_0 = costs ! prev_0 + costsFor (prev_0 + entry) symb;
          costs_1 = costs ! prev_1 + costsFor (prev_1 + entry) symb
      in if costs_0 < costs_1 then (costs_0, prev_0) else (costs_1, prev_1))"

text \<open>The columns of \<open>Costs\<close> and \<open>history\<close> after the first, \<open>n\<close> of them, from the costs before.\<close>

fun trellis_columns ::
  "nat \<Rightarrow> 'f::{plus,ord} list \<Rightarrow> 'f metrics list \<Rightarrow> ('f \<times> nat) list list" where
  "trellis_columns 0 costs symb = []"
| "trellis_columns (Suc n) costs symb =
     (let c = map (select_state costs symb) [0 ..< 64]
      in c # trellis_columns n (map fst c) (drop 6 symb))"

text \<open>The traceback: the states from column 0 up to column \<open>i\<close>, where it starts.\<close>

fun traceback :: "nat list list \<Rightarrow> nat \<Rightarrow> nat \<Rightarrow> nat list" where
  "traceback history 0 s = [s]"
| "traceback history (Suc i) s = traceback history i (history ! Suc i ! s) @ [s]"

text \<open>
  The search for the best column entry and the traceback from it, over the columns of the whole block.
\<close>

definition survivor_bits :: "'f::{plus,zero,ord} \<Rightarrow> 'f metrics list \<Rightarrow> nat \<Rightarrow> u8 list" where
  "survivor_bits imax symb blockLength =
     (let cols = trellis_columns (blockLength + 6) (replicate 64 0) symb;
          Costs = replicate 64 0 # map (map fst) cols;
          history = [] # map (map snd) cols;
          best = snd (foldl (\<lambda>(minimal, best) i.
              if Costs ! blockLength ! i < minimal then (Costs ! blockLength ! i, i) else (minimal, best))
              (imax, 0) [0 ..< 64]);
          sequence = traceback history blockLength best
      in map (\<lambda>i. if sequence ! i \<ge> 32 then 1 else 0) [1 ..< blockLength + 1])"

text \<open>
  The decoder is built for one block length, for whose columns a 16-bit index has to be enough, and reads six soft
  bits for every column; where it cannot be built or would read on behind the soft bits there is no result.
\<close>

definition viterbi_fits :: "nat \<Rightarrow> bool" where
  "viterbi_fits blockLength = (blockLength + 7 < 2 ^ 15)"

definition deconvolve :: "'f::{plus,zero,ord} \<Rightarrow> 'f metrics list \<Rightarrow> nat \<Rightarrow> u8 list option" where
  "deconvolve imax symb blockLength =
     (if viterbi_fits blockLength \<and> 6 * (blockLength + 6) \<le> length symb
      then Some (survivor_bits imax symb blockLength) else None)"

section \<open>The encoder\<close>

text \<open>One step: the six outputs for the newest bit \<open>a0\<close> and the register \<open>a1 .. a6\<close>.\<close>

definition conv_out :: "u8 \<Rightarrow> u8 list \<Rightarrow> u8 list" where
  "conv_out a0 a =
     (let o0 = a0 XOR a ! 1 XOR a ! 2 XOR a ! 4 XOR a ! 5;
          o1 = a0 XOR a ! 0 XOR a ! 1 XOR a ! 2 XOR a ! 5;
          o2 = a0 XOR a ! 0 XOR a ! 3 XOR a ! 5
      in [o0, o1, o2, o0, o1, o2])"

fun conv_run :: "u8 list \<Rightarrow> u8 list \<Rightarrow> u8 list" where
  "conv_run a [] = []"
| "conv_run a (x # xs) = conv_out x a @ conv_run (x # butlast a) xs"

text \<open>The block, then six zeros to empty the register.\<close>

definition convolve :: "u8 list \<Rightarrow> nat \<Rightarrow> u8 list" where
  "convolve input blockLength = conv_run (replicate 6 0) (take blockLength input @ replicate 6 0)"

text \<open>The metrics of a hard bit (\<open>msc-handler-qam64.cpp\<close>).\<close>

definition makeMetrics :: "u8 \<Rightarrow> 'f::{zero,one} metrics" where
  "makeMetrics v = (if v \<noteq> 0 then \<lparr>rTow0 = 1, rTow1 = 0\<rparr> else \<lparr>rTow0 = 0, rTow1 = 1\<rparr>)"

section \<open>The columns are an add-compare-select trellis\<close>

text \<open>Entry \<open>s\<close> of column \<open>i\<close>.\<close>

fun cost_at :: "'f::{plus,zero,ord} metrics list \<Rightarrow> nat \<Rightarrow> nat \<Rightarrow> 'f" where
  "cost_at symb 0 s = 0"
| "cost_at symb (Suc i) s = fst (select_state (map (cost_at symb i) [0 ..< 64]) (drop (6 * i) symb) s)"

definition hist_at :: "'f::{plus,zero,ord} metrics list \<Rightarrow> nat \<Rightarrow> nat \<Rightarrow> nat" where
  "hist_at symb i s = snd (select_state (map (cost_at symb (i - 1)) [0 ..< 64]) (drop (6 * (i - 1)) symb) s)"

lemma length_trellis_columns [length_simps, simp]: "length (trellis_columns n costs symb) = n"
  by (induction n arbitrary: costs symb) (simp_all add: Let_def)

lemma nth_trellis_columns:
  "k < n \<Longrightarrow> trellis_columns n (map (cost_at symb i) [0 ..< 64]) (drop (6 * i) symb) ! k
    = map (\<lambda>s. (cost_at symb (Suc (i + k)) s, hist_at symb (Suc (i + k)) s)) [0 ..< 64]"
proof (induction n arbitrary: i k)
  case (Suc n)
  show ?case
  proof (cases k)
    case 0
    then show ?thesis by (simp add: Let_def hist_at_def)
  next
    case (Suc k')
    let ?c = "map (select_state (map (cost_at symb i) [0 ..< 64]) (drop (6 * i) symb)) [0 ..< 64]"
    have fst: "map fst ?c = map (cost_at symb (Suc i)) [0 ..< 64]" by simp
    have "drop 6 (drop (6 * i) symb) = drop (6 * Suc i) symb" by simp
    then have "trellis_columns (Suc n) (map (cost_at symb i) [0 ..< 64]) (drop (6 * i) symb) ! k
        = trellis_columns n (map (cost_at symb (Suc i)) [0 ..< 64]) (drop (6 * Suc i) symb) ! k'"
      using Suc by (simp only: trellis_columns.simps Let_def nth_Cons_Suc fst)
    also have "\<dots> = map (\<lambda>s. (cost_at symb (Suc (Suc i + k')) s, hist_at symb (Suc (Suc i + k')) s)) [0 ..< 64]"
      by (rule Suc.IH) (use Suc Suc.prems in simp)
    finally show ?thesis using Suc by (simp del: cost_at.simps)
  qed
qed simp

lemma cost_at_0: "replicate 64 0 = map (cost_at symb 0) [0 ..< 64]"
  by (intro nth_equalityI) simp_all

lemma nth_columns:
  assumes "k < n"
  shows "trellis_columns n (replicate 64 0) symb ! k
    = map (\<lambda>s. (cost_at symb (Suc k) s, hist_at symb (Suc k) s)) [0 ..< 64]"
  using nth_trellis_columns [OF assms, of symb 0] by (simp only: cost_at_0 [symmetric] mult_0_right drop_0 add_0)

lemma predecessor_values:
  assumes "s < 64"
  shows "predecessor_for_0 s = 2 * s mod 64" "predecessor_for_1 s = (2 * s + 1) mod 64"
  using take_bit_eq_mask [of 6 "2 * s"] take_bit_eq_mask [of 6 "2 * s + 1"]
  by (simp_all add: predecessor_for_0_def predecessor_for_1_def push_bit_eq_mult take_bit_eq_mod
      mask_eq_exp_minus_1 mult.commute)

lemma predecessors_less: "s < 64 \<Longrightarrow> predecessor_for_0 s < 64 \<and> predecessor_for_1 s < 64"
  by (simp add: predecessor_values)

definition branch_cost :: "'f::plus metrics list \<Rightarrow> nat \<Rightarrow> nat \<Rightarrow> nat \<Rightarrow> 'f" where
  "branch_cost symb i p s = costsFor (p + (if s < 32 then 0 else 64)) (drop (6 * i) symb)"

lemma drm_trellis:
  fixes symb :: "'f::{linorder,plus,zero} metrics list"
  assumes mono: "\<forall>a b c :: 'f. a \<le> b \<longrightarrow> a + c \<le> b + c"
  shows "acs_trellis (<) (+) 64 predecessor_for_0 predecessor_for_1 (branch_cost symb) (cost_at symb)
    (hist_at symb) n"
proof
  fix i s :: nat
  assume "s < 64"
  then have "map (cost_at symb i) [0 ..< 64] ! predecessor_for_0 s = cost_at symb i (predecessor_for_0 s)"
    "map (cost_at symb i) [0 ..< 64] ! predecessor_for_1 s = cost_at symb i (predecessor_for_1 s)"
    using predecessors_less by (simp_all del: cost_at.simps)
  then show "let c0 = cost_at symb i (predecessor_for_0 s) + branch_cost symb i (predecessor_for_0 s) s;
        c1 = cost_at symb i (predecessor_for_1 s) + branch_cost symb i (predecessor_for_1 s) s
      in cost_at symb (Suc i) s = (if c0 < c1 then c0 else c1)
        \<and> hist_at symb (Suc i) s = (if c0 < c1 then predecessor_for_0 s else predecessor_for_1 s)"
    by (simp add: Let_def hist_at_def select_state_def branch_cost_def)
qed (use mono predecessors_less in \<open>auto simp: not_less\<close>)

interpretation drm_acs: acs_trellis "(<)" "(+)" 64 predecessor_for_0 predecessor_for_1
  "branch_cost symb" "cost_at symb" "hist_at symb" n
  for symb :: "'f::{linorder,ordered_ab_semigroup_add,zero} metrics list" and n
  by (rule drm_trellis) (simp add: add_right_mono)

section \<open>The traceback and the best state\<close>

lemma length_traceback [length_simps, simp]: "length (traceback h i s) = Suc i"
  by (induction i arbitrary: s) simp_all

lemma traceback_last: "traceback h i s ! i = s"
  by (cases i) (simp_all add: nth_append)

lemma nth_traceback: "j < i \<Longrightarrow> traceback h i s ! j = h ! Suc j ! (traceback h i s ! Suc j)"
proof (induction i arbitrary: s)
  case (Suc i)
  show ?case
  proof (cases "j = i")
    case True
    then show ?thesis by (simp add: nth_append traceback_last)
  next
    case False
    then show ?thesis using Suc by (simp add: nth_append)
  qed
qed simp

lemma best_state:
  fixes f :: "nat \<Rightarrow> 'f::linorder"
  assumes "r = foldl (\<lambda>(minimal, best) i. if f i < minimal then (f i, i) else (minimal, best)) (imax, 0) [0 ..< n]"
  shows "(\<forall>i < n. fst r \<le> f i) \<and> fst r \<le> imax \<and> (fst r < imax \<longrightarrow> snd r < n \<and> f (snd r) = fst r)"
  unfolding assms by (induction n) (auto simp: split_def less_Suc_eq)

lemma survivor_traceback:
  fixes symb :: "'f::{linorder,plus,zero} metrics list"
  assumes "\<exists>s < 64. cost_at symb B s < imax"
  obtains st where "length st = Suc B" "st ! B < 64"
    "\<And>s. s < 64 \<Longrightarrow> cost_at symb B (st ! B) \<le> cost_at symb B s"
    "\<And>i. i < B \<Longrightarrow> st ! Suc i < 64 \<Longrightarrow> st ! i = hist_at symb (Suc i) (st ! Suc i)"
    "survivor_bits imax symb B = map (\<lambda>s. if s \<ge> 32 then 1 else 0) (tl st)"
proof -
  let ?cols = "trellis_columns (B + 6) (replicate 64 0) symb"
  let ?C = "replicate 64 0 # map (map fst) ?cols" and ?H = "[] # map (map snd) ?cols"
  have C: "?C ! B ! s = cost_at symb B s" if "s < 64" for s
    using that nth_columns [of "B - 1" "B + 6" symb] by (cases B) (simp_all del: cost_at.simps add: cost_at.simps(1))
  define r where "r = foldl (\<lambda>(minimal, best) i. if ?C ! B ! i < minimal then (?C ! B ! i, i) else (minimal, best))
      (imax, 0) [0 ..< 64]"
  define st where "st = traceback ?H B (snd r)"
  note best = best_state [OF r_def]
  have min: "fst r < imax" using assms C best by (metis order_le_less_trans)
  show ?thesis
  proof (rule that [of st])
    show "length st = Suc B" by (simp add: st_def)
    show "st ! B < 64" using best min by (simp add: st_def traceback_last)
    show "cost_at symb B (st ! B) \<le> cost_at symb B s" if "s < 64" for s
    proof -
      have "cost_at symb B (snd r) = fst r" using best min C by metis
      moreover have "fst r \<le> cost_at symb B s" using best that C by metis
      ultimately show ?thesis by (simp add: st_def traceback_last)
    qed
    show "st ! i = hist_at symb (Suc i) (st ! Suc i)" if "i < B" "st ! Suc i < 64" for i
      using that nth_traceback [of i B ?H "snd r"] nth_columns [of i "B + 6" symb]
      unfolding st_def by (simp del: cost_at.simps)
    have "map (\<lambda>i. if st ! i \<ge> 32 then 1 else 0) [1 ..< B + 1] = map (\<lambda>s. if s \<ge> 32 then (1 :: u8) else 0) (tl st)"
      by (rule nth_equalityI) (simp_all add: st_def nth_tl del: upt_Suc)
    then show "survivor_bits imax symb B = map (\<lambda>s. if s \<ge> 32 then 1 else 0) (tl st)"
      unfolding survivor_bits_def Let_def st_def r_def by simp
  qed
qed

section \<open>Optimality\<close>

text \<open>A path of the encoder as the list of its states, and the cost of its first \<open>i\<close> branches.\<close>

definition coder_path :: "nat \<Rightarrow> nat list \<Rightarrow> bool" where
  "coder_path B st \<longleftrightarrow> length st = Suc B \<and> (\<forall>s \<in> set st. s < 64) \<and>
     (\<forall>i < B. st ! i = predecessor_for_0 (st ! Suc i) \<or> st ! i = predecessor_for_1 (st ! Suc i))"

fun coder_cost :: "'f::{plus,zero} metrics list \<Rightarrow> nat list \<Rightarrow> nat \<Rightarrow> 'f" where
  "coder_cost symb st 0 = 0"
| "coder_cost symb st (Suc i) = coder_cost symb st i
     + costsFor (st ! i + (if st ! Suc i < 32 then 0 else 64)) (drop (6 * i) symb)"

lemma coder_cost_trellis:
  fixes symb :: "'f::{linorder,plus,zero} metrics list"
  assumes mono: "\<forall>a b c :: 'f. a \<le> b \<longrightarrow> a + c \<le> b + c"
  shows "acs_trellis.path_cost (+) (branch_cost symb) (cost_at symb) (\<lambda>i. st ! i) n = coder_cost symb st n"
proof (induction n)
  case 0
  show ?case by (simp add: acs_trellis.path_cost.simps(1) [OF drm_trellis [OF mono]])
next
  case (Suc n)
  show ?case
    unfolding acs_trellis.path_cost.simps(2) [OF drm_trellis [OF mono]] Suc
    by (simp add: branch_cost_def)
qed

lemma coder_path_trellis:
  fixes symb :: "'f::{linorder,plus,zero} metrics list"
  assumes mono: "\<forall>a b c :: 'f. a \<le> b \<longrightarrow> a + c \<le> b + c" and len: "length st = Suc B"
  shows "acs_trellis.path 64 predecessor_for_0 predecessor_for_1 B (\<lambda>i. st ! i) \<longleftrightarrow> coder_path B st"
  using len acs_trellis.path_def [OF drm_trellis [OF mono]]
  by (auto simp: coder_path_def all_set_conv_all_nth less_Suc_eq_le)

lemma survivor_cheapest:
  fixes symb :: "'f::{linorder,plus,zero} metrics list"
  assumes mono: "\<forall>a b c :: 'f. a \<le> b \<longrightarrow> a + c \<le> b + c"
    and below: "coder_path B r0" "coder_cost symb r0 B < imax"
  obtains st where "coder_path B st" "survivor_bits imax symb B = map (\<lambda>s. if s \<ge> 32 then 1 else 0) (tl st)"
    "\<And>r. coder_path B r \<Longrightarrow> coder_cost symb st B \<le> coder_cost symb r B"
proof -
  note tr = drm_trellis [OF mono]
  note cost = coder_cost_trellis [OF mono] and path = coder_path_trellis [OF mono]
  have len0: "length r0 = Suc B" using below(1) by (simp add: coder_path_def)
  have "cost_at symb B (r0 ! B) \<le> coder_cost symb r0 B"
    using acs_trellis.cost_le_path [OF tr, of B "\<lambda>i. r0 ! i" B symb] below(1) path [OF len0] cost [of symb r0]
    by (simp add: not_less)
  moreover have "r0 ! B < 64" using below(1) len0 by (auto simp: coder_path_def)
  ultimately have "\<exists>s < 64. cost_at symb B s < imax" using below(2) le_less_trans by blast
  then obtain st where st: "length st = Suc B" "st ! B < 64"
      "\<And>s. s < 64 \<Longrightarrow> cost_at symb B (st ! B) \<le> cost_at symb B s"
      "\<And>i. i < B \<Longrightarrow> st ! Suc i < 64 \<Longrightarrow> st ! i = hist_at symb (Suc i) (st ! Suc i)"
      "survivor_bits imax symb B = map (\<lambda>s. if s \<ge> 32 then 1 else 0) (tl st)"
    by (rule survivor_traceback) blast
  have less: "st ! (B - k) < 64" if "k \<le> B" for k
    using that
  proof (induction k)
    case (Suc k)
    then have "Suc (B - Suc k) = B - k" by simp
    then have "st ! (B - Suc k) = hist_at symb (Suc (B - Suc k)) (st ! (B - k))" "st ! (B - k) < 64"
      using st(4) [of "B - Suc k"] Suc by simp_all
    then show ?case using predecessors_less
      by (auto simp: hist_at_def select_state_def Let_def)
  qed (use st in simp)
  then have "st ! i < 64" if "i \<le> B" for i using less [of "B - i"] that by simp
  then have surv: "acs_trellis.survivor 64 (hist_at symb) B (\<lambda>i. st ! i)"
    using st(2,4) by (simp add: acs_trellis.survivor_def [OF tr])
  note sp = acs_trellis.survivor_path_cost [OF tr surv, of B, OF order_refl]
  have pst: "coder_path B st" using sp path [OF st(1)] by blast
  have "coder_cost symb st B \<le> coder_cost symb r B" if r: "coder_path B r" for r
proof -
    have lr: "length r = Suc B" using r by (simp add: coder_path_def)
    show ?thesis
      using acs_trellis.survivor_optimal [OF tr surv, of B "\<lambda>i. r ! i", OF order_refl]
        path [OF lr] r st(3) cost [of symb st] cost [of symb r]
      by (simp add: not_less)
  qed
  then show ?thesis using that pst st(5) by blast
qed



end
