(* ===== verification/DrmConvCode.thy ===== *)
theory DrmConvCode
  imports DrmViterbi
begin

text \<open>
  The encoder and the decoder of \<open>viterbi-drm.cpp\<close> together: the decoder's tables are the outputs of
  the encoder's register, two paths of the trellis with the same outputs over four steps have the
  same input bits from there on, and therefore the decoder recovers the input of the encoder from
  noise-free metrics.
\<close>

section \<open>The tables are the encoder\<close>

lemma ucast_low_bit: "(ucast (x AND (1 :: u16)) :: u8) = of_bool (bit x 0)"
  by (rule bit_word_eqI) (auto simp: bit_simps bit_1_iff)

lemma of_bool_xor_u8: "(of_bool p XOR of_bool q :: u8) = of_bool (p \<noteq> q)"
  by (cases p; cases q) simp_all

lemma upt8: "[0 ..< 8] = [0, 1, 2, 3, 4, 5, 6, 7 :: nat]"
  by (simp add: upt_rec)

lemma bitFor_parity:
  "bitFor state poly b =
     (let r = (if b = 0 then state else state + 64) AND poly
      in of_bool (bit r 0) XOR of_bool (bit r 1) XOR of_bool (bit r 2) XOR of_bool (bit r 3)
       XOR of_bool (bit r 4) XOR of_bool (bit r 5) XOR of_bool (bit r 6) XOR of_bool (bit r 7))"
proof -
  define r where "r = (if b = 0 then state else state + 64) AND poly"
  have "bitFor state poly b = fst (foldl (\<lambda>(res, reg) _. (res XOR ucast (reg AND 1), drop_bit 1 reg))
      (0, r) [0, 1, 2, 3, 4, 5, 6, 7 :: nat])"
    by (simp only: bitFor_def upt8 r_def)
  also have "\<dots> = of_bool (bit r 0) XOR of_bool (bit r 1) XOR of_bool (bit r 2) XOR of_bool (bit r 3)
       XOR of_bool (bit r 4) XOR of_bool (bit r 5) XOR of_bool (bit r 6) XOR of_bool (bit r 7)"
    by (simp only: foldl_Cons foldl_Nil prod.case fst_conv ucast_low_bit xor.left_neutral
        drop_bit_drop_bit bit_drop_bit_eq comp_apply Nat.add_0_right one_add_one one_plus_numeral
        add_num_simps xor.assoc)
  finally show ?thesis by (simp only: Let_def r_def)
qed

lemma nth_poly_table:
  assumes "r < 128"
  shows "poly_table poly ! r = bitFor (of_nat (r mod 64)) poly (of_nat (r div 64))"
proof -
  have u2: "[0 ..< 2] = [0, 1 :: nat]" by (simp add: upt_rec)
  show ?thesis
  proof (cases "r < 64")
    case True
    then show ?thesis by (simp add: poly_table_def u2 nth_append)
  next
    case False
    then have "r div 64 = 1" "r mod 64 = r - 64" using assms by (auto simp: div_if mod_if)
    moreover have "r - 64 < 64" using False assms by linarith
    ultimately show ?thesis using False by (simp add: poly_table_def u2 nth_append del: of_nat_diff)
  qed
qed

lemma poly_table_register:
  assumes "r < 128"
  shows "poly_table poly ! r =
     (let w = of_nat r AND poly
      in of_bool (bit w 0) XOR of_bool (bit w 1) XOR of_bool (bit w 2) XOR of_bool (bit w 3)
       XOR of_bool (bit w 4) XOR of_bool (bit w 5) XOR of_bool (bit w 6) XOR of_bool (bit w 7))"
proof -
  have "(if of_nat (r div 64) = (0 :: u8) then of_nat (r mod 64) else of_nat (r mod 64) + 64)
    = (of_nat r :: u16)"
  proof (cases "r < 64")
    case False
    then have "r div 64 = 1" "r mod 64 = r - 64" using assms by (auto simp: div_if mod_if)
    moreover have "(of_nat (r - 64) :: u16) + 64 = of_nat (r - 64 + 64)" by (simp only: of_nat_add) simp
    ultimately show ?thesis using False by simp
  qed simp
  then show ?thesis by (simp only: nth_poly_table [OF assms] bitFor_parity)
qed

lemma table_bits:
  assumes "r < 128"
  shows "poly_table Poly1 ! r = of_bool (bit r 6 \<noteq> (bit r 4 \<noteq> (bit r 3 \<noteq> (bit r 1 \<noteq> bit r 0))))"
    "poly_table Poly2 ! r = of_bool (bit r 6 \<noteq> (bit r 5 \<noteq> (bit r 4 \<noteq> (bit r 3 \<noteq> bit r 0))))"
    "poly_table Poly3 ! r = of_bool (bit r 6 \<noteq> (bit r 5 \<noteq> (bit r 2 \<noteq> bit r 0)))"
  unfolding poly_table_register [OF assms] Let_def Poly1_def Poly2_def Poly3_def
  by (auto simp: bit_and_iff bit_of_nat_iff of_bool_xor_u8 bit_numeral_rec)

section \<open>Paths as bit sequences\<close>

text \<open>
  The states of a path overlap: state \<open>i\<close> is the window \<open>i .. i + 5\<close> of one sequence of bits, of
  which bit \<open>i + 6\<close> is the input of step \<open>i\<close>.
\<close>

definition path_bit :: "nat list \<Rightarrow> nat \<Rightarrow> bool" where
  "path_bit st j = (if j < 6 then bit (st ! 0) j else bit (st ! (j - 5)) 5)"

lemma bit_predecessor:
  assumes "s < 64" "p = predecessor_for_0 s \<or> p = predecessor_for_1 s" "k < 5"
  shows "bit p (Suc k) = bit s k"
proof -
  have "p = take_bit 6 (2 * s) \<or> p = take_bit 6 (Suc (2 * s))"
    using assms(1,2) by (auto simp: predecessor_values take_bit_eq_mod)
  moreover have "bit (2 * s) (Suc k) = bit s k" "bit (Suc (2 * s)) (Suc k) = bit s k"
    by (simp_all add: bit_Suc)
  ultimately show ?thesis using assms(3) by (auto simp: bit_take_bit_iff)
qed

lemma path_bits:
  assumes "coder_path B st" "i \<le> B" "k < 6"
  shows "bit (st ! i) k = path_bit st (i + k)"
  using assms(2,3)
proof (induction i arbitrary: k)
  case 0
  then show ?case by (simp add: path_bit_def)
next
  case (Suc i)
  show ?case
  proof (cases "k = 5")
    case True
    then show ?thesis by (simp add: path_bit_def)
  next
    case False
    then have k: "k < 5" using Suc.prems by simp
    have "st ! Suc i < 64" "st ! i = predecessor_for_0 (st ! Suc i) \<or> st ! i = predecessor_for_1 (st ! Suc i)"
      using assms(1) Suc.prems by (auto simp: coder_path_def)
    then have "bit (st ! i) (Suc k) = bit (st ! Suc i) k" using k by (rule bit_predecessor)
    then show ?thesis using Suc.IH [of "Suc k"] Suc.prems k by simp
  qed
qed

definition branch_index :: "nat list \<Rightarrow> nat \<Rightarrow> nat" where
  "branch_index st i = st ! i + (if st ! Suc i < 32 then 0 else 64)"

lemma state_msb: "s < 64 \<Longrightarrow> bit s 5 \<longleftrightarrow> 32 \<le> (s :: nat)"
proof -
  assume "s < 64"
  then have "s div 32 < 2" by (simp add: less_mult_imp_div_less)
  moreover have "1 \<le> s div 32 \<longleftrightarrow> 32 \<le> s" by (simp add: less_eq_div_iff_mult_less_eq)
  ultimately have "s div 32 = (if 32 \<le> s then 1 else 0)" by auto
  then show ?thesis by (simp add: bit_iff_odd)
qed

lemma bit_add_64: "k < 6 \<Longrightarrow> bit (s + 64 :: nat) k = bit s k"
proof -
  assume "k < 6"
  then have "bit x k = bit (take_bit 6 x) k" for x :: nat by (simp add: bit_take_bit_iff)
  moreover have "take_bit 6 (s + 64) = take_bit 6 s" by (simp add: take_bit_eq_mod)
  ultimately show ?thesis by metis
qed

lemma bit_6_add_64:
  assumes "s < (64 :: nat)"
  shows "bit (s + 64) 6" "\<not> bit s 6"
proof -
  have "(s + 64) div 64 = 1" "s div 64 = 0" using assms by auto
  then show "bit (s + 64) 6" "\<not> bit s 6" by (simp_all add: bit_iff_odd)
qed

lemma bit_branch_index:
  assumes "coder_path B st" "i < B" "k < 7"
  shows "bit (branch_index st i) k = path_bit st (i + k)" "branch_index st i < 128"
proof -
  have l: "st ! i < 64" "st ! Suc i < 64" using assms by (auto simp: coder_path_def)
  then show "branch_index st i < 128" by (simp add: branch_index_def)
  show "bit (branch_index st i) k = path_bit st (i + k)"
  proof (cases "k = 6")
    case True
    have "bit (st ! Suc i) 5 = path_bit st (Suc i + 5)" by (rule path_bits [OF assms(1)]) (use assms in auto)
    then show ?thesis using True l state_msb [OF l(2)] bit_6_add_64 [OF l(1)]
      by (auto simp: branch_index_def add.commute)
  next
    case False
    then have k: "k < 6" using assms by simp
    have "bit (branch_index st i) k = bit (st ! i) k"
      using k bit_add_64 [of k "st ! i"] by (auto simp: branch_index_def)
    then show ?thesis using path_bits [OF assms(1), of i k] assms k by simp
  qed
qed

section \<open>Outputs\<close>

definition outs :: "(nat \<Rightarrow> bool) \<Rightarrow> nat \<Rightarrow> bool list" where
  "outs b i =
     (let o0 = (b (i + 6) \<noteq> (b (i + 4) \<noteq> (b (i + 3) \<noteq> (b (i + 1) \<noteq> b i))));
          o1 = (b (i + 6) \<noteq> (b (i + 5) \<noteq> (b (i + 4) \<noteq> (b (i + 3) \<noteq> b i))));
          o2 = (b (i + 6) \<noteq> (b (i + 5) \<noteq> (b (i + 2) \<noteq> b i)))
      in [o0, o1, o2, o0, o1, o2])"

lemma length_outs [length_simps, simp]: "length (outs b i) = 6"
  by (simp only: outs_def Let_def list.size)

lemma table_outs:
  assumes "coder_path B st" "i < B" "k < 6"
  shows "poly_table (polys ! k) ! branch_index st i = of_bool (outs (path_bit st) i ! k)"
proof -
  note b = bit_branch_index [OF assms(1,2)]
  have bits: "bit (branch_index st i) n = path_bit st (i + n)" if "n < 7" for n using b(1) that .
  have lt: "branch_index st i < 128" using b(2) [of 0] by simp
  consider "k = 0" | "k = 1" | "k = 2" | "k = 3" | "k = 4" | "k = 5" using assms(3) by linarith
  then show ?thesis
    by cases (simp_all add: polys_def outs_def Let_def table_bits [OF lt] bits)
qed

text \<open>Two sequences with the same outputs over at least four steps are the same.\<close>

lemma outs_eqD:
  assumes "outs b i = outs c i"
  defines "d \<equiv> \<lambda>j. b j \<noteq> c j"
  shows "d (i + 5) = d (i + 1)" "d (i + 4) \<noteq> (d (i + 3) = d (i + 2))"
    "d (i + 6) = (d (i + 5) \<noteq> (d (i + 2) \<noteq> d i))"
  using assms(1) unfolding outs_def d_def Let_def list.inject by argo+

lemma outs_inj:
  assumes eq: "\<And>i. i < n \<Longrightarrow> outs b i = outs c i" and n: "4 \<le> n" and j: "j < n + 6"
  shows "b j = c j"
proof -
  define d where "d = (\<lambda>j. b j \<noteq> c j)"
  have e1: "d (i + 5) = d (i + 1)" and e2: "d (i + 4) \<noteq> (d (i + 3) = d (i + 2))"
    and e3: "d (i + 6) = (d (i + 5) \<noteq> (d (i + 2) \<noteq> d i))" if "i < n" for i
    using outs_eqD [OF eq [OF that]] unfolding d_def by blast+
  have small: "\<not> d 2 \<and> \<not> d 3 \<and> \<not> d 4 \<and> \<not> d 5 \<and> \<not> d 6 \<and> \<not> d 1"
    using e1 [of 0] e1 [of 1] e1 [of 2] e2 [of 0] e2 [of 1] e2 [of 2] e2 [of 3] n
    by (simp add: eval_nat_numeral) blast
  then have "\<not> d 0" using e3 [of 0] n by (simp add: numeral_2_eq_2)
  have "\<not> d j" if "j < n + 6" for j
    using that
  proof (induction j rule: less_induct)
    case (less j)
    show ?case
    proof (cases "j < 6")
      case True
      then have "j \<in> {0, 1, 2, 3, 4, 5}" by auto
      then show ?thesis using small \<open>\<not> d 0\<close> by auto
    next
      case False
      then obtain i where i: "j = i + 6" "i < n" using less.prems by (metis add.commute le_add_diff_inverse not_le nat_add_left_cancel_less)
      then show ?thesis using e3 [OF i(2)] less.IH [of "i + 5"] less.IH [of "i + 2"] less.IH [of i] less.prems by simp
    qed
  qed
  then show ?thesis using j by (simp add: d_def)
qed

section \<open>The encoder's own path\<close>

text \<open>The states the encoder goes through, from the empty register.\<close>

fun coder_states :: "nat \<Rightarrow> u8 list \<Rightarrow> nat list" where
  "coder_states s [] = [s]"
| "coder_states s (x # xs) = s # coder_states (s div 2 + (if x = 0 then 0 else 32)) xs"

lemma coder_states_nth_0 [simp]: "coder_states s xs ! 0 = s"
  by (cases xs) simp_all

lemma coder_states_path: "s < 64 \<Longrightarrow> coder_path (length xs) (coder_states s xs)"
proof (induction xs arbitrary: s)
  case Nil
  then show ?case by (simp add: coder_path_def)
next
  case (Cons x xs)
  let ?t = "s div 2 + (if x = 0 then 0 else 32)"
  have h: "s div 2 < 32" "s = 2 * (s div 2) \<or> s = 2 * (s div 2) + 1" using Cons.prems by arith+
  then have t: "?t < 64" by simp
  have "2 * ?t mod 64 = 2 * (s div 2)" "(2 * ?t + 1) mod 64 = 2 * (s div 2) + 1"
    using h(1) by (simp_all add: mod_if)
  then have "s = 2 * ?t mod 64 \<or> s = (2 * ?t + 1) mod 64" using h(2) by simp
  then have "s = predecessor_for_0 ?t \<or> s = predecessor_for_1 ?t"
    by (simp only: predecessor_values [OF t])
  then show ?case using Cons.IH [OF t] Cons.prems
    by (auto simp: coder_path_def nth_Cons less_Suc_eq_0_disj split: nat.splits)
qed

lemma coder_states_input:
  "i < length xs \<Longrightarrow> s < 64 \<Longrightarrow> 32 \<le> coder_states s xs ! Suc i \<longleftrightarrow> xs ! i \<noteq> 0"
proof (induction xs arbitrary: s i)
  case (Cons x xs)
  show ?case
  proof (cases i)
    case 0
    then show ?thesis using Cons.prems by auto
  next
    case (Suc i')
    have "s div 2 + (if x = 0 then 0 else 32) < 64" using Cons.prems by auto
    then show ?thesis using Cons.IH [of i'] Cons.prems Suc by simp
  qed
qed simp

lemma coder_path_bit:
  assumes "i < length xs"
  shows "path_bit (coder_states 0 xs) (i + 6) = (xs ! i \<noteq> 0)"
proof -
  have "coder_states 0 xs ! Suc i < 64"
    using coder_states_path [of 0 xs] assms by (auto simp: coder_path_def)
  then show ?thesis using state_msb coder_states_input [OF assms, of 0]
    by (simp add: path_bit_def)
qed

section \<open>The encoder's output\<close>

text \<open>The register of the encoder holds the last six bits, the newest first.\<close>

lemma conv_out_outs:
  assumes "length a = 6" "\<And>k. k < 6 \<Longrightarrow> a ! k = of_bool (b (i + 5 - k))" "x = of_bool (b (i + 6))"
  shows "conv_out x a = map of_bool (outs b i)"
proof -
  have idx: "i + 5 - 0 = i + 5" "i + 5 - 1 = i + 4" "i + 5 - 2 = i + 3" "i + 5 - 3 = i + 2"
    "i + 5 - 4 = i + 1" "i + 5 - 5 = i" by simp_all
  have a: "a ! 0 = of_bool (b (i + 5))" "a ! 1 = of_bool (b (i + 4))" "a ! 2 = of_bool (b (i + 3))"
    "a ! 3 = of_bool (b (i + 2))" "a ! 4 = of_bool (b (i + 1))" "a ! 5 = of_bool (b i)"
    using assms(2) [of 0] assms(2) [of 1] assms(2) [of 2] assms(2) [of 3] assms(2) [of 4] assms(2) [of 5]
    unfolding idx by simp_all
  show ?thesis
    by (simp only: conv_out_def outs_def Let_def a assms(3) of_bool_xor_u8 list.map)
qed

lemma conv_run_outs:
  assumes "length a = 6" "\<And>k. k < 6 \<Longrightarrow> a ! k = of_bool (b (i + 5 - k))"
    "\<And>k. k < length xs \<Longrightarrow> xs ! k = of_bool (b (i + k + 6))"
  shows "conv_run a xs = concat (map (\<lambda>k. map of_bool (outs b (i + k))) [0 ..< length xs])"
  using assms
proof (induction xs arbitrary: a i)
  case (Cons x xs)
  have x: "x = of_bool (b (i + 6))" using Cons.prems(3) [of 0] by simp
  have out: "conv_out x a = map of_bool (outs b i)" by (rule conv_out_outs [OF Cons.prems(1,2) x])
  have "conv_run (x # butlast a) xs = concat (map (\<lambda>k. map of_bool (outs b (Suc i + k))) [0 ..< length xs])"
  proof (rule Cons.IH)
    show "(x # butlast a) ! k = of_bool (b (Suc i + 5 - k))" if "k < 6" for k
      using that x Cons.prems(1) Cons.prems(2) [of "k - 1"] by (cases k) (simp_all add: nth_butlast add.commute)
    show "xs ! k = of_bool (b (Suc i + k + 6))" if "k < length xs" for k
      using that Cons.prems(3) [of "Suc k"] by simp
  qed (use Cons.prems in simp)
  moreover have "[0 ..< length (x # xs)] = 0 # map Suc [0 ..< length xs]"
    by (simp add: upt_conv_Cons map_Suc_upt del: upt_Suc)
  ultimately show ?case using out by (simp add: comp_def)
qed simp

lemma nth_concat_6:
  "i < n \<Longrightarrow> k < 6 \<Longrightarrow> (\<And>i. length (f i) = 6) \<Longrightarrow> concat (map f [0 ..< n]) ! (6 * i + k) = f i ! k"
proof (induction n arbitrary: f i)
  case (Suc n)
  have u: "[0 ..< Suc n] = 0 # map Suc [0 ..< n]" by (simp add: upt_conv_Cons map_Suc_upt del: upt_Suc)
  show ?case
  proof (cases i)
    case 0
    then show ?thesis using Suc.prems unfolding u by (simp add: nth_append)
  next
    case (Suc i')
    then have "concat (map f [0 ..< Suc n]) ! (6 * i + k) = concat (map (\<lambda>i. f (Suc i)) [0 ..< n]) ! (6 * i' + k)"
      using Suc.prems(3) unfolding u by (simp add: nth_append comp_def)
    then show ?thesis using Suc.IH [of i' "\<lambda>i. f (Suc i)"] Suc Suc.prems by simp
  qed
qed simp

lemma convolve_outs:
  assumes "bits xs" "length xs = B"
  shows "convolve xs B = concat (map (\<lambda>i. map of_bool (outs (path_bit (coder_states 0 (xs @ replicate 6 0))) i))
    [0 ..< B + 6])"
proof -
  let ?ys = "xs @ replicate 6 0" and ?b = "path_bit (coder_states 0 (xs @ replicate 6 0))"
  have "conv_run (replicate 6 0) ?ys = concat (map (\<lambda>k. map of_bool (outs ?b (0 + k))) [0 ..< length ?ys])"
  proof (rule conv_run_outs)
    show "replicate 6 (0 :: u8) ! k = of_bool (?b (0 + 5 - k))" if "k < 6" for k
      using that by (simp add: path_bit_def)
    show "?ys ! k = of_bool (?b (0 + k + 6))" if "k < length ?ys" for k
    proof -
      have "is_bit (?ys ! k)" using assms(1) that by (intro bits_nth) (simp_all add: onebit)
      then show ?thesis using coder_path_bit [OF that] by (auto simp: is_bit_def)
    qed
  qed simp
  then show ?thesis using assms(2) by (simp add: convolve_def)
qed

lemma length_concat_6: "(\<And>i. length (f i) = 6) \<Longrightarrow> length (concat (map f [0 ..< n])) = 6 * n"
  by (induction n) simp_all

lemma nth_convolve:
  assumes "bits xs" "length xs = B" "i < B + 6" "k < 6"
  shows "drop (6 * i) (convolve xs B) ! k
    = of_bool (outs (path_bit (coder_states 0 (xs @ replicate 6 0))) i ! k)"
proof -
  let ?f = "\<lambda>i. map of_bool (outs (path_bit (coder_states 0 (xs @ replicate 6 0))) i) :: u8 list"
  have "length (concat (map ?f [0 ..< B + 6])) = 6 * (B + 6)" by (rule length_concat_6) simp
  moreover have "6 * i \<le> 6 * (B + 6)" using assms(3) by simp
  ultimately show ?thesis
    using nth_concat_6 [of i "B + 6" k ?f] assms by (simp add: convolve_outs [OF assms(1,2)])
qed

lemma length_convolve [length_simps]:
  "bits xs \<Longrightarrow> length xs = B \<Longrightarrow> length (convolve xs B) = 6 * (B + 6)"
  unfolding convolve_outs by (rule length_concat_6) simp

section \<open>Noise-free decoding\<close>

lemma all_less_6: "(\<forall>k < 6. P k) \<longleftrightarrow> P 0 \<and> P 1 \<and> P 2 \<and> P 3 \<and> P 4 \<and> P (5 :: nat)"
  by (simp add: numeral_eq_Suc All_less_Suc conj_ac)

text \<open>
  A received position is either a metric that costs nothing for the bit sent and something for the
  other one or, where the code is punctured, a metric that costs nothing either way.
\<close>

definition zero_metric :: "'f::zero metrics" where
  "zero_metric = \<lparr>rTow0 = 0, rTow1 = 0\<rparr>"

definition says :: "'f::{zero,ord} metrics \<Rightarrow> bool \<Rightarrow> bool" where
  "says m b \<longleftrightarrow> (if b then rTow1 m = 0 \<and> 0 < rTow0 m else rTow0 m = 0 \<and> 0 < rTow1 m)"

definition soft :: "bool \<Rightarrow> 'f::{zero,ord} metrics \<Rightarrow> bool \<Rightarrow> bool" where
  "soft kept m b \<longleftrightarrow> (if kept then says m b else m = zero_metric)"

lemma says_makeMetrics: "says (makeMetrics v :: 'f::linordered_idom metrics) (v \<noteq> 0)"
  by (simp add: says_def makeMetrics_def)

text \<open>A branch costs nothing exactly if its kept outputs are the bits sent.\<close>

lemma costsFor_hard:
  fixes symb :: "'f::linordered_idom metrics list"
  assumes "coder_path B st" "i < B" "\<And>k. k < 6 \<Longrightarrow> soft (kept k) (symb ! k) (o' ! k)"
  shows "0 \<le> costsFor (branch_index st i) symb"
    "costsFor (branch_index st i) symb = 0 \<longleftrightarrow> (\<forall>k < 6. kept k \<longrightarrow> o' ! k = outs (path_bit st) i ! k)"
proof -
  let ?o = "outs (path_bit st) i"
  define c :: "nat \<Rightarrow> 'f" where "c k = (if poly_table (polys ! k) ! branch_index st i = 0
      then rTow0 (symb ! k) else rTow1 (symb ! k))" for k
  have zero: "0 \<le> c k \<and> (c k = 0 \<longleftrightarrow> (kept k \<longrightarrow> o' ! k = ?o ! k))" if "k < 6" for k
    using table_outs [OF assms(1,2) that] assms(3) [OF that]
    by (auto simp: c_def soft_def says_def zero_metric_def split: if_splits)
  have sum: "costsFor (branch_index st i) symb = c 0 + c 1 + c 2 + c 3 + c 4 + c 5"
    by (simp add: costsFor_def Let_def c_def)
  have pos: "0 \<le> c 0" "0 \<le> c 1" "0 \<le> c 2" "0 \<le> c 3" "0 \<le> c 4" "0 \<le> c 5" using zero by simp_all
  show "0 \<le> costsFor (branch_index st i) symb" unfolding sum by (intro add_nonneg_nonneg pos)
  have "costsFor (branch_index st i) symb = 0 \<longleftrightarrow> c 0 = 0 \<and> c 1 = 0 \<and> c 2 = 0 \<and> c 3 = 0 \<and> c 4 = 0 \<and> c 5 = 0"
    unfolding sum using pos by (simp add: add_nonneg_eq_0_iff)
  also have "\<dots> \<longleftrightarrow> (\<forall>k < 6. c k = 0)" by (rule all_less_6 [symmetric])
  also have "\<dots> \<longleftrightarrow> (\<forall>k < 6. kept k \<longrightarrow> o' ! k = ?o ! k)" using zero by blast
  finally show "costsFor (branch_index st i) symb = 0 \<longleftrightarrow> (\<forall>k < 6. kept k \<longrightarrow> o' ! k = ?o ! k)" .
qed

lemma coder_cost_hard:
  fixes symb :: "'f::linordered_idom metrics list"
  assumes "coder_path B st" "\<And>i k. i < B \<Longrightarrow> k < 6 \<Longrightarrow> soft (kept i k) (drop (6 * i) symb ! k) (o' i ! k)"
    "n \<le> B"
  shows "0 \<le> coder_cost symb st n \<and> (coder_cost symb st n = 0
    \<longleftrightarrow> (\<forall>i < n. \<forall>k < 6. kept i k \<longrightarrow> o' i ! k = outs (path_bit st) i ! k))"
  using assms(3)
proof (induction n)
  case (Suc n)
  have "0 \<le> costsFor (branch_index st n) (drop (6 * n) symb)"
    "costsFor (branch_index st n) (drop (6 * n) symb) = 0
      \<longleftrightarrow> (\<forall>k < 6. kept n k \<longrightarrow> o' n ! k = outs (path_bit st) n ! k)"
    using costsFor_hard [OF assms(1), of n "kept n" "drop (6 * n) symb" "o' n"] assms(2) [of n] Suc.prems
    by simp_all
  then show ?case using Suc
    by (auto simp: branch_index_def [symmetric] add_nonneg_eq_0_iff less_Suc_eq)
qed simp

text \<open>
  The kept outputs determine the path: the outputs are linear, so it is enough that no sequence
  but zero has all its kept outputs zero.
\<close>

definition resolving :: "(nat \<Rightarrow> nat \<Rightarrow> bool) \<Rightarrow> nat \<Rightarrow> bool" where
  "resolving kept B \<longleftrightarrow>
     (\<forall>d. (\<forall>i < B. \<forall>k < 6. kept i k \<longrightarrow> \<not> outs d i ! k) \<longrightarrow> (\<forall>j < B + 6. \<not> d j))"

lemma nth_outs:
  "outs b i ! 0 = (b (i + 6) \<noteq> (b (i + 4) \<noteq> (b (i + 3) \<noteq> (b (i + 1) \<noteq> b i))))"
  "outs b i ! 1 = (b (i + 6) \<noteq> (b (i + 5) \<noteq> (b (i + 4) \<noteq> (b (i + 3) \<noteq> b i))))"
  "outs b i ! 2 = (b (i + 6) \<noteq> (b (i + 5) \<noteq> (b (i + 2) \<noteq> b i)))"
  "outs b i ! 3 = outs b i ! 0" "outs b i ! 4 = outs b i ! 1" "outs b i ! 5 = outs b i ! 2"
  by (simp_all add: outs_def Let_def)

lemma neq_swap: "((a \<noteq> a') \<noteq> (x \<noteq> x')) = ((a \<noteq> x) \<noteq> (a' \<noteq> x'))" for a a' x x' :: bool
  by blast

lemma neq_swap4:
  "((a \<noteq> a') \<noteq> ((b \<noteq> b') \<noteq> ((c \<noteq> c') \<noteq> (d \<noteq> d'))))
    = ((a \<noteq> (b \<noteq> (c \<noteq> d))) \<noteq> (a' \<noteq> (b' \<noteq> (c' \<noteq> d'))))" for a b c d a' b' c' d' :: bool
  by argo

lemma neq_swap5:
  "((a \<noteq> a') \<noteq> ((b \<noteq> b') \<noteq> ((c \<noteq> c') \<noteq> ((d \<noteq> d') \<noteq> (e \<noteq> e')))))
    = ((a \<noteq> (b \<noteq> (c \<noteq> (d \<noteq> e)))) \<noteq> (a' \<noteq> (b' \<noteq> (c' \<noteq> (d' \<noteq> e')))))"
  for a b c d e a' b' c' d' e' :: bool
  using neq_swap4 [of a a' b b' c c' "d \<noteq> e" "d' \<noteq> e'"] neq_swap [of d d' e e'] by argo

lemma outs_xor: "k < 6 \<Longrightarrow> outs (\<lambda>j. b j \<noteq> c j) i ! k = (outs b i ! k \<noteq> outs c i ! k)"
proof -
  assume "k < 6"
  then consider "k = 0" | "k = 1" | "k = 2" | "k = 3" | "k = 4" | "k = 5" by linarith
  then show ?thesis
  proof cases
    case 3 then show ?thesis by (simp only: nth_outs neq_swap4)
  next
    case 6 then show ?thesis by (simp only: nth_outs neq_swap4)
  qed (simp_all only: nth_outs neq_swap5)
qed

lemma resolvingD:
  assumes "resolving kept B" "\<And>i k. i < B \<Longrightarrow> k < 6 \<Longrightarrow> kept i k \<Longrightarrow> outs b i ! k = outs c i ! k" "j < B + 6"
  shows "b j = c j"
proof -
  have "\<not> outs (\<lambda>j. b j \<noteq> c j) i ! k" if "i < B" "k < 6" "kept i k" for i k
    using assms(2) [OF that] outs_xor [OF that(2), of b c i] by simp
  then have "\<not> (b j \<noteq> c j)" using assms(1,3) unfolding resolving_def by blast
  then show ?thesis by simp
qed

lemma resolving_all: "4 \<le> B \<Longrightarrow> resolving (\<lambda>_ _. True) B"
  unfolding resolving_def
proof (intro allI impI)
  fix d j
  assume B: "4 \<le> B" and z: "\<forall>i < B. \<forall>k < 6. True \<longrightarrow> \<not> outs d i ! k" and j: "j < B + 6"
  have zero: "outs (\<lambda>_. False) i ! k = False" if "k < 6" for i k
  proof -
    have "outs (\<lambda>_. False) i = replicate 6 False" by (simp add: outs_def Let_def eval_nat_numeral)
    then show ?thesis using that by simp
  qed
  have "outs d i = outs (\<lambda>_. False) i" if "i < B" for i
    using z zero that by (intro nth_equalityI) simp_all
  then have "d j = (\<lambda>_. False) j" by (rule outs_inj [OF _ B j])
  then show "\<not> d j" by simp
qed

lemma deconvolve_soft:
  fixes symb :: "'f::linordered_idom metrics list"
  assumes "bits xs" "length xs = B" "resolving kept B" "0 < imax"
    and symb: "\<And>i k. i < B \<Longrightarrow> k < 6 \<Longrightarrow> soft (kept i k) (drop (6 * i) symb ! k)
      (outs (path_bit (coder_states 0 (xs @ replicate 6 0))) i ! k)"
  shows "survivor_bits imax symb B = xs"
proof -
  let ?ys = "xs @ replicate 6 0"
  let ?o = "outs (path_bit (coder_states 0 ?ys))"
  define r0 where "r0 = take (Suc B) (coder_states 0 ?ys)"
  have pys: "coder_path (B + 6) (coder_states 0 ?ys)" using coder_states_path [of 0 ?ys] assms(2) by simp
  then have p0: "coder_path B r0"
    by (auto simp: coder_path_def r0_def dest: in_set_takeD)
  have b0: "path_bit r0 j = path_bit (coder_states 0 ?ys) j" if "j < B + 6" for j
    using that by (auto simp: path_bit_def r0_def)
  have o0: "outs (path_bit r0) i = ?o i" if "i < B" for i
    using that b0 by (simp add: outs_def Let_def)
  have cost: "0 \<le> coder_cost symb st B \<and> (coder_cost symb st B = 0
      \<longleftrightarrow> (\<forall>i < B. \<forall>k < 6. kept i k \<longrightarrow> ?o i ! k = outs (path_bit st) i ! k))" if "coder_path B st" for st
    by (rule coder_cost_hard [OF that symb]) simp_all
  have c0: "coder_cost symb r0 B = 0" using cost [OF p0] o0 by simp
  obtain st where st: "coder_path B st" "coder_cost symb st B \<le> coder_cost symb r0 B"
      "survivor_bits imax symb B = map (\<lambda>s. if s \<ge> 32 then 1 else 0) (tl st)"
    using survivor_cheapest [of B r0 symb imax] p0 c0 assms(4) by (metis add_right_mono)
  have "coder_cost symb st B = 0" using cost [OF st(1)] st(2) c0 by linarith
  then have "?o i ! k = outs (path_bit st) i ! k" if "i < B" "k < 6" "kept i k" for i k
    using cost [OF st(1)] that by blast
  then have same: "path_bit st j = path_bit (coder_states 0 ?ys) j" if "j < B + 6" for j
    using resolvingD [OF assms(3), of "path_bit st" "path_bit (coder_states 0 ?ys)" j] that by simp
  show ?thesis
  proof (rule nth_equalityI)
    show "length (survivor_bits imax symb B) = length xs" using st assms(2) by (simp add: coder_path_def)
  next
    fix i assume "i < length (survivor_bits imax symb B)"
    then have i: "i < B" using st by (simp add: coder_path_def)
    have "st ! Suc i < 64" "length st = Suc B" using st(1) i by (auto simp: coder_path_def)
    then have "32 \<le> st ! Suc i \<longleftrightarrow> path_bit st (i + 6)" using state_msb by (simp add: path_bit_def)
    also have "\<dots> \<longleftrightarrow> xs ! i \<noteq> 0"
      using same [of "i + 6"] coder_path_bit [of i ?ys] i assms(2) by (simp add: nth_append)
    finally show "survivor_bits imax symb B ! i = xs ! i"
      using st(3) i \<open>length st = Suc B\<close> bits_nth [OF assms(1), of i] assms(2)
      by (auto simp: nth_tl is_bit_def)
  qed
qed

lemma deconvolve_noise_free:
  assumes "bits xs" "length xs = B" "4 \<le> B" "(0 :: 'f::linordered_idom) < imax"
  shows "survivor_bits imax (map makeMetrics (convolve xs B)) B = xs"
proof (rule deconvolve_soft [OF assms(1,2) resolving_all [OF assms(3)] assms(4)])
  fix i k :: nat assume ik: "i < B" "k < 6"
  then have "6 * i + k < length (convolve xs B)" using length_convolve [OF assms(1,2)] by simp
  then show "soft True (drop (6 * i) (map makeMetrics (convolve xs B) :: 'f metrics list) ! k)
      (outs (path_bit (coder_states 0 (xs @ replicate 6 0))) i ! k)"
    using nth_convolve [OF assms(1,2), of i k] ik
      says_makeMetrics [of "convolve xs B ! (6 * i + k)", where 'f = 'f] by (simp add: drop_map soft_def)
qed

text \<open>
  C31. Without noise the decoder inverts the encoder: for every block of at least four bits,
  decoding the hard metrics of the encoded block gives the block back, although the decoder knows
  neither the initial nor the final state of the encoder and never uses the six tail bits. A decoder for more than
  32760 bits cannot be built.
\<close>
theorem deconvolve_convolve:
  assumes "bits xs" "length xs = B" "4 \<le> B" "(0 :: 'f::linordered_idom) < imax"
  shows "deconvolve imax (map makeMetrics (convolve xs B)) B = (if viterbi_fits B then Some xs else None)"
  using deconvolve_noise_free [OF assms] length_convolve [OF assms(1,2)] by (simp add: deconvolve_def)

theorem deconvolve_convolve_witness:
  "deconvolve 1 (map makeMetrics (convolve [1, 0, 1, 1] 4) :: int metrics list) 4 = Some [1, 0, 1, 1]"
  using deconvolve_convolve [of "[1, 0, 1, 1]" 4 "1 :: int"] by (simp add: viterbi_fits_def onebit is_bit_def del: convolve_def)

text \<open>The encoder emits bits.\<close>

lemma bits_conv_run [onebit]:
  "bits xs \<Longrightarrow> bits a \<Longrightarrow> length a = 6 \<Longrightarrow> bits (conv_run a xs)"
proof (induction xs arbitrary: a)
  case (Cons x xs)
  have "is_bit (a ! 0)" "is_bit (a ! 1)" "is_bit (a ! 2)" "is_bit (a ! 3)" "is_bit (a ! 4)" "is_bit (a ! 5)"
    using Cons.prems(2,3) by (auto intro: bits_nth)
  then have "bits (conv_out x a)" using Cons.prems(1) by (simp add: conv_out_def Let_def onebit)
  moreover have "bits (conv_run (x # butlast a) xs)"
    using Cons.prems by (intro Cons.IH) (auto simp: onebit butlast_conv_take)
  ultimately show ?case by simp
qed simp

lemma bits_convolve [onebit]: "bits xs \<Longrightarrow> bits (convolve xs n)"
  by (simp add: convolve_def onebit)

end
