(* ===== verification/DrmPuncture.thy ===== *)
theory DrmPuncture
  imports Prelude
begin

text \<open>
  The puncturing of the multilevel code (\<open>parameters/puncture-tables.cpp\<close>) and the code rates of
  the protection levels (\<open>support/protlevels.cpp\<close>). A table has six entries, one per output of the
  encoder, for each of the \<open>RX\<close> input bits of a period; the tail of a block has a table of its own,
  by the number of bits that do not fill a period. The entries are 0 or 1 and are only compared.
\<close>

section \<open>The tables\<close>

definition table_12 :: "nat list" where
  "table_12 =
    [1, 1, 0, 0, 0, 0]"

definition table_13 :: "nat list" where
  "table_13 =
    [1, 1, 1, 0, 0, 0]"

definition table_14 :: "nat list" where
  "table_14 =
    [1, 1, 1, 1, 0, 0]"

definition table_15 :: "nat list" where
  "table_15 =
    [1, 1, 1, 1, 1, 0]"

definition table_16 :: "nat list" where
  "table_16 =
    [1, 1, 1, 1, 1, 1]"

definition table_23 :: "nat list" where
  "table_23 =
    [1, 1, 0, 0, 0, 0,
     1, 0, 0, 0, 0, 0]"

definition table_25 :: "nat list" where
  "table_25 =
    [1, 1, 1, 0, 0, 0,
     1, 1, 0, 0, 0, 0]"

definition table_34 :: "nat list" where
  "table_34 =
    [1, 1, 0, 0, 0, 0,
     1, 0, 0, 0, 0, 0,
     1, 0, 0, 0, 0, 0]"

definition table_35 :: "nat list" where
  "table_35 =
    [1, 1, 0, 0, 0, 0,
     1, 0, 0, 0, 0, 0,
     1, 1, 0, 0, 0, 0]"

definition table_310 :: "nat list" where
  "table_310 =
    [1, 1, 1, 1, 0, 0,
     1, 1, 1, 0, 0, 0,
     1, 1, 1, 0, 0, 0]"

definition table_411 :: "nat list" where
  "table_411 =
    [1, 1, 1, 0, 0, 0,
     1, 1, 1, 0, 0, 0,
     1, 1, 1, 0, 0, 0,
     1, 1, 0, 0, 0, 0]"

definition table_45 :: "nat list" where
  "table_45 =
    [1, 1, 0, 0, 0, 0,
     1, 0, 0, 0, 0, 0,
     1, 0, 0, 0, 0, 0,
     1, 0, 0, 0, 0, 0]"

definition table_47 :: "nat list" where
  "table_47 =
    [1, 1, 0, 0, 0, 0,
     1, 0, 1, 0, 0, 0,
     1, 1, 0, 0, 0, 0,
     1, 0, 0, 0, 0, 0]"

definition table_78 :: "nat list" where
  "table_78 =
    [1, 1, 0, 0, 0, 0,
     1, 0, 0, 0, 0, 0,
     1, 0, 0, 0, 0, 0,
     1, 0, 0, 0, 0, 0,
     1, 0, 0, 0, 0, 0,
     1, 0, 0, 0, 0, 0,
     1, 0, 0, 0, 0, 0,
     1, 0, 0, 0, 0, 0]"

definition table_89 :: "nat list" where
  "table_89 =
    [1, 1, 0, 0, 0, 0,
     1, 0, 0, 0, 0, 0,
     1, 0, 0, 0, 0, 0,
     1, 0, 0, 0, 0, 0,
     1, 0, 0, 0, 0, 0,
     1, 0, 0, 0, 0, 0,
     1, 0, 0, 0, 0, 0,
     1, 0, 0, 0, 0, 0,
     1, 0, 0, 0, 0, 0,
     1, 0, 0, 0, 0, 0]"

definition table_811 :: "nat list" where
  "table_811 =
    [1, 1, 0, 0, 0, 0,
     1, 0, 0, 0, 0, 0,
     1, 0, 0, 0, 0, 0,
     1, 1, 0, 0, 0, 0,
     1, 0, 0, 0, 0, 0,
     1, 0, 0, 0, 0, 0,
     1, 1, 0, 0, 0, 0,
     1, 0, 0, 0, 0, 0]"

definition residuTables :: "nat list list" where
  "residuTables =
    [[1, 1, 0, 0, 0, 0, 1, 1, 0, 0, 0, 0, 1, 1, 0, 0, 0, 0,
      1, 1, 0, 0, 0, 0, 1, 1, 0, 0, 0, 0, 1, 1, 0, 0, 0, 0],
     [1, 1, 1, 0, 0, 0, 1, 1, 0, 0, 0, 0, 1, 1, 0, 0, 0, 0,
      1, 1, 0, 0, 0, 0, 1, 1, 0, 0, 0, 0, 1, 1, 0, 0, 0, 0],
     [1, 1, 1, 0, 0, 0, 1, 1, 0, 0, 0, 0, 1, 1, 0, 0, 0, 0,
      1, 1, 0, 1, 0, 0, 1, 1, 0, 0, 0, 0, 1, 1, 0, 0, 0, 0],
     [1, 1, 1, 0, 0, 0, 1, 1, 1, 0, 0, 0, 1, 1, 0, 0, 0, 0,
      1, 1, 1, 0, 0, 0, 1, 1, 0, 0, 0, 0, 1, 1, 0, 0, 0, 0],
     [1, 1, 1, 0, 0, 0, 1, 1, 1, 0, 0, 0, 1, 1, 0, 0, 0, 0,
      1, 1, 1, 0, 0, 0, 1, 1, 1, 0, 0, 0, 1, 1, 0, 0, 0, 0],
     [1, 1, 1, 0, 0, 0, 1, 1, 1, 0, 0, 0, 1, 1, 1, 0, 0, 0,
      1, 1, 1, 0, 0, 0, 1, 1, 1, 0, 0, 0, 1, 1, 0, 0, 0, 0],
     [1, 1, 1, 0, 0, 0, 1, 1, 1, 0, 0, 0, 1, 1, 1, 0, 0, 0,
      1, 1, 1, 0, 0, 0, 1, 1, 1, 0, 0, 0, 1, 1, 1, 0, 0, 0],
     [1, 1, 1, 1, 0, 0, 1, 1, 1, 0, 0, 0, 1, 1, 1, 0, 0, 0,
      1, 1, 1, 0, 0, 0, 1, 1, 1, 0, 0, 0, 1, 1, 1, 0, 0, 0],
     [1, 1, 1, 1, 0, 0, 1, 1, 1, 0, 0, 0, 1, 1, 1, 0, 0, 0,
      1, 1, 1, 1, 0, 0, 1, 1, 1, 0, 0, 0, 1, 1, 1, 0, 0, 0],
     [1, 1, 1, 1, 0, 0, 1, 1, 1, 1, 0, 0, 1, 1, 1, 0, 0, 0,
      1, 1, 1, 1, 0, 0, 1, 1, 1, 0, 0, 0, 1, 1, 1, 0, 0, 0],
     [1, 1, 1, 1, 0, 0, 1, 1, 1, 1, 0, 0, 1, 1, 1, 0, 0, 0,
      1, 1, 1, 1, 0, 0, 1, 1, 1, 0, 0, 0, 1, 1, 1, 1, 0, 0],
     [1, 1, 1, 1, 0, 0, 1, 1, 1, 1, 0, 0, 1, 1, 1, 1, 0, 0,
      1, 1, 1, 1, 0, 0, 1, 1, 1, 0, 0, 0, 1, 1, 1, 1, 0, 0]]"

fun getPunctureTable :: "nat \<Rightarrow> nat \<Rightarrow> nat list" where
  "getPunctureTable RX RY =
     (if RX = 2 then (if RY = 3 then table_23 else table_25)
      else if RX = 3 then (if RY = 4 then table_34 else if RY = 5 then table_35 else table_310)
      else if RX = 4 then (if RY = 5 then table_45 else if RY = 7 then table_47 else table_411)
      else if RX = 7 then table_78
      else if RX = 8 then (if RY = 9 then table_89 else table_811)
      else (if RY = 3 then table_13 else if RY = 4 then table_14 else if RY = 5 then table_15
        else if RY = 6 then table_16 else table_12))"

text \<open>
  The residual bits: \<open>None\<close> stands for the read outside \<open>residuTables\<close> that a negative or too large
  index would be.
\<close>

definition residuIndex :: "nat \<Rightarrow> nat \<Rightarrow> int" where
  "residuIndex RY nrCells =
     (2 * int nrCells - 12) - int RY * c_div (2 * int nrCells - 12) (int RY)"

definition getResiduTable :: "nat \<Rightarrow> nat \<Rightarrow> nat \<Rightarrow> nat list option" where
  "getResiduTable RX RY nrCells =
     (let i = residuIndex RY nrCells in if 0 \<le> i \<and> i < 12 then Some (residuTables ! nat i) else None)"

definition getResiduBits :: "nat \<Rightarrow> nat \<Rightarrow> nat \<Rightarrow> int" where
  "getResiduBits RX RY nrCells =
     12 + (2 * int nrCells - 12) - int RY * c_div (2 * int nrCells - 12) (int RY)"

section \<open>The protection levels\<close>

fun protLevel_qam16 :: "nat \<Rightarrow> nat \<Rightarrow> nat \<times> nat" where
  "protLevel_qam16 prot nr =
     (if prot = 0 then (if nr = 0 then (1, 3) else (2, 3))
      else (if nr = 0 then (1, 2) else (3, 4)))"

fun protLevel_qam64 :: "nat \<Rightarrow> nat \<Rightarrow> nat \<times> nat" where
  "protLevel_qam64 prot nr =
     (if prot = 1 then (if nr = 0 then (1, 3) else if nr = 1 then (2, 3) else (4, 5))
      else if prot = 2 then (if nr = 0 then (1, 2) else if nr = 1 then (3, 4) else (7, 8))
      else if prot = 3 then (if nr = 0 then (2, 3) else if nr = 1 then (4, 5) else (8, 9))
      else (if nr = 0 then (1, 4) else if nr = 1 then (1, 2) else (3, 4)))"

fun getRYlcm_64 :: "nat \<Rightarrow> nat" where
  "getRYlcm_64 protLevel =
     (if protLevel = 3 then 45 else if protLevel = 2 then 8 else if protLevel = 1 then 15 else 4)"

fun getRYlcm_16 :: "nat \<Rightarrow> nat" where
  "getRYlcm_16 protLevel = (if protLevel = 1 then 4 else 3)"

declare getPunctureTable.simps [simp del] protLevel_qam16.simps [simp del] protLevel_qam64.simps [simp del]
  getRYlcm_64.simps [simp del] getRYlcm_16.simps [simp del]

section \<open>Rates\<close>

text \<open>The rates the protection levels ask for.\<close>

definition code_rates :: "(nat \<times> nat) list" where
  "code_rates = [(1, 2), (1, 3), (1, 4), (2, 3), (3, 4), (4, 5), (7, 8), (8, 9)]"

lemma protLevel_rates:
  "protLevel_qam16 prot nr \<in> set code_rates" "protLevel_qam64 prot nr \<in> set code_rates"
  by (simp_all add: protLevel_qam16.simps protLevel_qam64.simps code_rates_def)

lemma protLevel_lcm:
  "prot \<le> 1 \<Longrightarrow> snd (protLevel_qam16 prot nr) dvd getRYlcm_16 prot"
  "prot \<le> 3 \<Longrightarrow> snd (protLevel_qam64 prot nr) dvd getRYlcm_64 prot"
  by (auto simp: protLevel_qam16.simps protLevel_qam64.simps getRYlcm_16.simps getRYlcm_64.simps)

lemmas table_defs = table_12_def table_13_def table_14_def table_15_def table_16_def table_23_def
  table_25_def table_34_def table_35_def table_310_def table_411_def table_45_def table_47_def
  table_78_def table_89_def table_811_def

definition period :: "nat \<Rightarrow> nat \<Rightarrow> nat list" where
  "period RX RY = take (6 * RX) (getPunctureTable RX RY)"

definition good_rate :: "nat \<Rightarrow> nat \<Rightarrow> bool" where
  "good_rate RX RY \<longleftrightarrow> 0 < RX \<and> length (period RX RY) = 6 * RX \<and> count_list (period RX RY) 1 = RY
     \<and> list_all (\<lambda>i. period RX RY ! (6 * i) = 1) [0 ..< RX]"

lemma rates_good: "list_all (\<lambda>(RX, RY). good_rate RX RY) code_rates"
  by (simp add: code_rates_def good_rate_def period_def getPunctureTable.simps table_defs upt_rec)

lemma residu_good: "list_all (\<lambda>i. length (residuTables ! i) = 36 \<and> count_list (residuTables ! i) 1 = 12 + i) [0 ..< 12]"
  by (simp add: upt_rec residuTables_def)

lemma residuIndex_mod:
  assumes "6 \<le> nrCells" "0 < RY"
  shows "residuIndex RY nrCells = int ((2 * nrCells - 12) mod RY)"
    "getResiduBits RX RY nrCells = 12 + int ((2 * nrCells - 12) mod RY)"
proof -
  have "2 * int nrCells - 12 = int (2 * nrCells - 12)" using assms(1) by (simp add: of_nat_diff)
  then show "residuIndex RY nrCells = int ((2 * nrCells - 12) mod RY)"
    "getResiduBits RX RY nrCells = 12 + int ((2 * nrCells - 12) mod RY)"
    using assms(2) by (simp_all add: residuIndex_def getResiduBits_def c_div_nonneg zmod_int
        minus_mult_div_eq_mod del: of_nat_diff)
qed

lemma getResiduTable_some:
  assumes "6 \<le> nrCells" "0 < RY" "RY \<le> 12"
  shows "getResiduTable RX RY nrCells = Some (residuTables ! ((2 * nrCells - 12) mod RY))"
    "(2 * nrCells - 12) mod RY < 12"
proof -
  show l: "(2 * nrCells - 12) mod RY < 12" using assms(2,3) by (meson less_le_trans mod_less_divisor)
  then show "getResiduTable RX RY nrCells = Some (residuTables ! ((2 * nrCells - 12) mod RY))"
    by (simp add: getResiduTable_def Let_def residuIndex_mod [OF assms(1,2)] del: of_nat_mod)
qed

lemma residuTables_facts:
  assumes "i < 12"
  shows "length (residuTables ! i) = 36" "count_list (residuTables ! i) 1 = 12 + i"
  using residu_good assms by (simp_all add: list_all_iff)

text \<open>
  The puncture tables deliver the rates of the protection levels: for each rate \<open>RX / RY\<close> a
  level can ask for, one period of the table covers \<open>RX\<close> input bits, keeps \<open>RY\<close> outputs, and keeps
  the first output of every input bit; and the tail table for \<open>i\<close> left-over bits keeps \<open>12 + i\<close> of
  the 36 outputs of the six tail bits.
\<close>
theorem puncture_tables_rates:
  "protLevel_qam16 prot nr \<in> set code_rates \<and> protLevel_qam64 prot nr \<in> set code_rates
   \<and> list_all (\<lambda>(RX, RY). length (period RX RY) = 6 * RX \<and> count_list (period RX RY) 1 = RY
       \<and> list_all (\<lambda>i. period RX RY ! (6 * i) = 1) [0 ..< RX]) code_rates
   \<and> list_all (\<lambda>i. length (residuTables ! i) = 36 \<and> count_list (residuTables ! i) 1 = 12 + i) [0 ..< 12]"
  using protLevel_rates rates_good residu_good
  by (simp add: good_rate_def list_all_iff split_def)

end
