(* ===== verification/DrmDepuncture.thy ===== *)
theory DrmDepuncture
  imports DrmConvCode DrmPuncture DrmDeinterleaver
begin

text \<open>
  Puncturing and depuncturing as the stream handlers do it (\<open>sdc/sdc-streamer.cpp\<close>,
  \<open>msc/msc-streamer.cpp\<close>, \<open>fac/fac-processor.cpp\<close>): a pat over the encoder's outputs says which
  of them are on the air; the receiver fills the others with metrics that cost nothing. The second
  half shows that what the masks keep still determines the encoder's path.
\<close>

section \<open>The loops\<close>

text \<open>
  The receiving loop: \<open>Cnt\<close> runs over the received metrics, one for each entry 1 of the pat. The
  loop returns the metrics for the decoder and the final \<open>Cnt\<close>.
\<close>

fun depuncture :: "nat list \<Rightarrow> 'f::zero metrics list \<Rightarrow> nat \<Rightarrow> 'f metrics list \<times> nat" where
  "depuncture [] src Cnt = ([], Cnt)"
| "depuncture (m # pat) src Cnt =
     (if m = 1 then (let (out, Cnt') = depuncture pat src (Cnt + 1) in (src ! Cnt # out, Cnt'))
      else (let (out, Cnt') = depuncture pat src Cnt in (zero_metric # out, Cnt')))"

text \<open>The sending loop, with which a decoded block is encoded again.\<close>

fun puncture :: "nat list \<Rightarrow> 'a list \<Rightarrow> 'a list" where
  "puncture (m # pat) (x # xs) = (if m = 1 then x # puncture pat xs else puncture pat xs)"
| "puncture pat xs = []"

text \<open>\<open>n\<close> entries of a table that is used over and over.\<close>

definition cyclic :: "nat list \<Rightarrow> nat \<Rightarrow> nat \<Rightarrow> nat list" where
  "cyclic table per n = map (\<lambda>i. table ! (i mod per)) [0 ..< n]"

lemma length_cyclic [length_simps, simp]: "length (cyclic table per n) = n"
  by (simp add: cyclic_def)

lemma depuncture_append:
  "depuncture (m1 @ m2) src c =
     (let (a, c1) = depuncture m1 src c; (b, c2) = depuncture m2 src c1 in (a @ b, c2))"
  by (induction m1 arbitrary: c) (auto simp: split_def Let_def)

lemma depuncture_count: "snd (depuncture pat src c) = c + count_list pat 1"
  by (induction pat arbitrary: c) (auto simp: split_def Let_def)

lemma length_depuncture [length_simps]: "length (fst (depuncture pat src c)) = length pat"
  by (induction pat arbitrary: c) (auto simp: split_def Let_def)

lemma length_puncture [length_simps]: "length pat = length xs \<Longrightarrow> length (puncture pat xs) = count_list pat 1"
  by (induction pat xs rule: puncture.induct) auto

lemma puncture_append: "length m1 = length x1 \<Longrightarrow> puncture (m1 @ m2) (x1 @ x2) = puncture m1 x1 @ puncture m2 x2"
  by (induction m1 x1 rule: list_induct2) auto

text \<open>Metrics that say the bits sent end up where the encoder put those bits.\<close>

lemma depuncture_puncture_at:
  "length pat = length xs \<Longrightarrow> list_all2 P rest (puncture pat xs) \<Longrightarrow>
   list_all2 (\<lambda>d (m, x). if m = 1 then P d x else d = zero_metric)
     (fst (depuncture pat (pre @ rest) (length pre))) (zip pat xs)"
proof (induction pat xs arbitrary: pre rest rule: list_induct2)
  case (Cons m pat x xs)
  show ?case
  proof (cases "m = 1")
    case True
    then obtain r rest' where rest: "rest = r # rest'" "P r x" "list_all2 P rest' (puncture pat xs)"
      using Cons.prems by (auto simp: list_all2_Cons2)
    have "list_all2 (\<lambda>d (m, x). if m = 1 then P d x else d = zero_metric)
        (fst (depuncture pat ((pre @ [r]) @ rest') (length (pre @ [r])))) (zip pat xs)"
      by (rule Cons.IH [OF rest(3)])
    then show ?thesis using True rest by (simp add: split_def Let_def)
  next
    case False
    then show ?thesis using Cons.IH [of rest pre] Cons.prems by (simp add: split_def Let_def)
  qed
qed simp

lemma depuncture_puncture:
  assumes "length pat = length xs" "list_all2 P src (puncture pat xs)" "i < length pat"
  shows "if pat ! i = 1 then P (fst (depuncture pat src 0) ! i) (xs ! i)
    else fst (depuncture pat src 0) ! i = zero_metric"
  using list_all2_nthD2 [OF depuncture_puncture_at [OF assms(1,2), of "[]"], of i] assms(1,3)
  by (simp add: split_def split: if_splits)

section \<open>Cyclic masks\<close>

lemma cyclic_periods:
  assumes "0 < per" "per \<le> length table"
  shows "cyclic table per (per * q) = concat (replicate q (take per table))"
proof (induction q)
  case (Suc q)
  have "[0 ..< per * Suc q] = [0 ..< per] @ map (\<lambda>i. i + per) [0 ..< per * q]"
    by (simp add: map_add_upt upt_add_eq_append [of 0 per "per * q"] add.commute)
  then have "cyclic table per (per * Suc q)
      = map (\<lambda>i. table ! (i mod per)) [0 ..< per] @ cyclic table per (per * q)"
    by (simp add: cyclic_def comp_def)
  moreover have "map (\<lambda>i. table ! (i mod per)) [0 ..< per] = take per table"
    using assms by (intro nth_equalityI) simp_all
  ultimately show ?case using Suc by simp
qed (simp add: cyclic_def)

lemma count_concat_replicate: "count_list (concat (replicate q xs)) x = q * count_list xs x"
  by (induction q) simp_all

lemma nth_cyclic: "i < n \<Longrightarrow> cyclic table per n ! i = table ! (i mod per)"
  by (simp add: cyclic_def)

section \<open>What is kept determines the path\<close>

text \<open>
  A window of six bits \<open>d i .. d (i + 5)\<close> of a sequence all of whose kept outputs are zero. The
  first output of every step is kept, so the window determines its successor; \<open>survives\<close> follows a
  window over \<open>n\<close> steps as long as the other kept outputs are zero as well.
\<close>

fun survives :: "(nat \<Rightarrow> nat \<Rightarrow> bool) \<Rightarrow> nat \<Rightarrow> nat \<Rightarrow> bool list \<Rightarrow> bool" where
  "survives kept i (Suc n) [a, b, c, d, e, f] =
     (let g = (e \<noteq> (d \<noteq> (b \<noteq> a)))
      in (kept i 1 \<or> kept i 4 \<longrightarrow> (g \<noteq> (f \<noteq> (e \<noteq> (d \<noteq> a)))) = False)
        \<and> (kept i 2 \<or> kept i 5 \<longrightarrow> (g \<noteq> (f \<noteq> (c \<noteq> a))) = False)
        \<and> survives kept (Suc i) n [b, c, d, e, f, g])"
| "survives kept i n w = True"

definition window :: "(nat \<Rightarrow> bool) \<Rightarrow> nat \<Rightarrow> bool list" where
  "window d i = [d i, d (i + 1), d (i + 2), d (i + 3), d (i + 4), d (i + 5)]"

lemma outs_0_zero:
  "\<not> outs d i ! 0 \<Longrightarrow> d (i + 6) = (d (i + 4) \<noteq> (d (i + 3) \<noteq> (d (i + 1) \<noteq> d i)))"
  by (simp only: nth_outs) argo

lemma survives_zero_outs:
  assumes "\<And>j. i \<le> j \<Longrightarrow> j < i + n \<Longrightarrow> kept j 0"
    "\<And>j k. i \<le> j \<Longrightarrow> j < i + n \<Longrightarrow> k < 6 \<Longrightarrow> kept j k \<Longrightarrow> \<not> outs d j ! k"
  shows "survives kept i n (window d i)"
  using assms
proof (induction n arbitrary: i)
  case (Suc n)
  have z: "\<not> outs d i ! 0" using Suc.prems(1) [of i] Suc.prems(2) [of i 0] by simp
  have o1: "\<not> outs d i ! 1" if "kept i 1 \<or> kept i 4"
    using Suc.prems(2) [of i 1] Suc.prems(2) [of i 4] that by (auto simp: nth_outs(5))
  have o2: "\<not> outs d i ! 2" if "kept i 2 \<or> kept i 5"
    using Suc.prems(2) [of i 2] Suc.prems(2) [of i 5] that by (auto simp: nth_outs(6))
  have "survives kept (Suc i) n (window d (Suc i))" by (rule Suc.IH) (use Suc.prems in auto)
  moreover have "Suc i + 1 = i + 2" "Suc i + 2 = i + 3" "Suc i + 3 = i + 4" "Suc i + 4 = i + 5"
    "Suc i + 5 = i + 6" "Suc i = i + 1" by simp_all
  ultimately have rest: "survives kept (i + 1) n [d (i + 1), d (i + 2), d (i + 3), d (i + 4), d (i + 5), d (i + 6)]"
    by (simp only: window_def)
  show ?case
    using o1 o2 rest outs_0_zero [OF z] unfolding window_def survives.simps Let_def nth_outs by simp
qed (simp add: window_def)

text \<open>A zero window spreads in both directions, as the first output involves both ends.\<close>

lemma zero_window_spreads:
  assumes kept: "\<And>i. i < B \<Longrightarrow> \<not> outs d i ! 0" and w: "\<And>j. s \<le> j \<Longrightarrow> j < s + 6 \<Longrightarrow> \<not> d j" and "s \<le> B"
  shows "j < B + 6 \<Longrightarrow> \<not> d j"
proof -
  have up: "j < B + 6 \<Longrightarrow> s \<le> j \<Longrightarrow> \<not> d j" for j
  proof (induction j rule: less_induct)
    case (less j)
    show ?case
    proof (cases "j < s + 6")
      case True
      then show ?thesis using w less.prems by blast
    next
      case False
      then obtain i where i: "j = i + 6" "s \<le> i" "i < B"
        using less.prems by (metis add.commute add_le_cancel_right le_add_diff_inverse less_imp_le
          linorder_not_less nat_add_left_cancel_less trans_le_add1 nat_le_iff_add)
      then show ?thesis using outs_0_zero [OF kept [OF i(3)]] less.IH [of "i + 4"] less.IH [of "i + 3"]
          less.IH [of "i + 1"] less.IH [of i] less.prems by simp
    qed
  qed
  have down: "k \<le> s \<Longrightarrow> \<not> d (s - k)" for k
  proof (induction k rule: less_induct)
    case (less k)
    show ?case
    proof (cases "k = 0")
      case True
      then show ?thesis using w by simp
    next
      case False
      define i where "i = s - k"
      have i: "i < B" "i < s" using False less.prems assms(3) by (auto simp: i_def)
      have "\<not> d (i + m)" if "0 < m" "m \<le> 6" for m
      proof (cases "s \<le> i + m")
        case True
        then show ?thesis using w [of "i + m"] i that by simp
      next
        case False
        have "i + m = s - (k - m)" "k - m < k" using False that less.prems by (auto simp: i_def)
        then show ?thesis using less.IH [of "k - m"] less.prems by simp
      qed
      from this [of 6] this [of 4] this [of 3] this [of 1]
      have "\<not> d (i + 6)" "\<not> d (i + 4)" "\<not> d (i + 3)" "\<not> d (i + 1)" by simp_all
      then show ?thesis using outs_0_zero [OF kept [OF i(1)]] by (simp add: i_def)
    qed
  qed
  show "j < B + 6 \<Longrightarrow> \<not> d j"
  proof (cases "s \<le> j")
    case False
    then show "\<not> d j" using down [of "s - j"] by simp
  qed (rule up)
qed

text \<open>The check: no window but zero survives \<open>n\<close> steps from step \<open>i\<close> on.\<close>

definition kills :: "(nat \<Rightarrow> nat \<Rightarrow> bool) \<Rightarrow> nat \<Rightarrow> nat \<Rightarrow> bool" where
  "kills kept i n \<longleftrightarrow> list_all (\<lambda>w. w = replicate 6 False \<or> \<not> survives kept i n w)
     (List.n_lists 6 [False, True])"

lemma resolving_if_kills:
  assumes "\<And>i. i < B \<Longrightarrow> kept i 0" "kills kept s n" "s + n \<le> B"
  shows "resolving kept B"
  unfolding resolving_def
proof (intro allI impI)
  fix d j
  assume z: "\<forall>i < B. \<forall>k < 6. kept i k \<longrightarrow> \<not> outs d i ! k" and j: "j < B + 6"
  have "survives kept s n (window d s)"
    using assms z by (intro survives_zero_outs) auto
  moreover have "window d s \<in> set (List.n_lists 6 [False, True])"
    by (simp add: set_n_lists window_def)
  ultimately have "window d s = replicate 6 False"
    using assms(2) by (auto simp: kills_def list_all_iff)
  then have w: "\<not> d (s + k)" if "k < 6" for k
    using that by (auto simp: window_def eval_nat_numeral less_Suc_eq)
  show "\<not> d j"
  proof (rule zero_window_spreads [OF _ _ _ j])
    show "\<not> outs d i ! 0" if "i < B" for i using z assms(1) that by simp
    show "\<not> d j" if "s \<le> j" "j < s + 6" for j using w [of "j - s"] that by simp
  qed (use assms(3) in simp)
qed

section \<open>The rates of the protection levels\<close>

definition table_keeps :: "nat list \<Rightarrow> nat \<Rightarrow> nat \<Rightarrow> nat \<Rightarrow> bool" where
  "table_keeps table RX i k \<longleftrightarrow> table ! (6 * (i mod RX) + k) = 1"

text \<open>How many steps the outputs kept at a rate need to determine the register.\<close>

definition resolve_steps :: "nat \<Rightarrow> nat" where
  "resolve_steps RX = (if RX = 1 then 6 else if RX = 2 then 11 else if RX = 3 then 16
     else if RX = 4 then 21 else if RX = 7 then 36 else 41)"

lemma survives_shift: "survives (\<lambda>i. kept (i + s)) i n w = survives kept (i + s) n w"
  by (induction "\<lambda>i. kept (i + s)" i n w rule: survives.induct) (simp_all add: Let_def)

lemma kills_shift: "kills (\<lambda>i. kept (i + s)) 0 n = kills kept s n"
  by (simp add: kills_def survives_shift)

lemma survives_cong:
  "(\<And>j. i \<le> j \<Longrightarrow> j < i + n \<Longrightarrow> kept j = kept' j) \<Longrightarrow> survives kept i n w = survives kept' i n w"
  by (induction kept i n w rule: survives.induct) (simp_all add: Let_def)

lemma kills_cong:
  "(\<And>j. i \<le> j \<Longrightarrow> j < i + n \<Longrightarrow> kept j = kept' j) \<Longrightarrow> kills kept i n = kills kept' i n"
  using survives_cong [of i n kept kept'] by (simp add: kills_def)

lemma survives_only_6:
  "(\<And>j k. k < 6 \<Longrightarrow> kept j k = kept' j k) \<Longrightarrow> survives kept i n w = survives kept' i n w"
  by (induction kept i n w rule: survives.induct) (simp_all add: Let_def)

lemma kills_only_6:
  "(\<And>j k. k < 6 \<Longrightarrow> kept j k = kept' j k) \<Longrightarrow> kills kept i n = kills kept' i n"
  using survives_only_6 [of kept kept' i n] by (simp add: kills_def)

lemma rates_kill:
  "list_all (\<lambda>(RX, RY). kills (table_keeps (getPunctureTable RX RY) RX) 0 (resolve_steps RX)) code_rates"
  by code_simp

lemma bits_puncture [onebit]: "bits xs \<Longrightarrow> bits (puncture pat xs)"
  by (induction pat xs rule: puncture.induct) (auto simp: onebit)

end
