(* ===== verification/DrmStreamer.thy ===== *)
theory DrmStreamer
  imports DrmDepuncture FloatArith "HOL-Library.Monad_Syntax"
begin

text \<open>
  The stream handlers: one protection level of the SDC (\<open>sdc/sdc-streamer.cpp\<close>) and of the MSC
  (\<open>msc/msc-streamer.cpp\<close>). A stream handler undoes the bit interleaving, depunctures, decodes,
  and can encode the result again, to give the demodulator of the next level the bits that must
  have been sent.
\<close>

section \<open>Decoding behind a puncture mask\<close>

text \<open>The received metrics say the bits \<open>sent\<close>.\<close>

definition receives :: "'f::{zero,ord} metrics list \<Rightarrow> u8 list \<Rightarrow> bool" where
  "receives ms sent \<longleftrightarrow> list_all2 (\<lambda>m b. says m (b \<noteq> 0)) ms sent"

lemma receives_length: "receives ms sent \<Longrightarrow> length ms = length sent"
  by (simp add: receives_def list_all2_lengthD)

lemma receives_makeMetrics: "receives (map makeMetrics sent :: 'f::linordered_idom metrics list) sent"
  by (simp add: receives_def list_all2_conv_all_nth says_makeMetrics)

lemma masked_decode:
  fixes imax :: "'f::linordered_idom"
  assumes "bits xs" "length xs = B" "length pat = 6 * (B + 6)" "0 < imax"
    and res: "resolving (\<lambda>i k. pat ! (6 * i + k) = 1) B"
    and rec: "receives src (puncture pat (convolve xs B))"
  shows "survivor_bits imax (fst (depuncture pat src 0)) B = xs"
proof (rule deconvolve_soft [OF assms(1,2) res assms(4)])
  fix i k :: nat
  assume ik: "i < B" "k < 6"
  have len: "length (convolve xs B) = 6 * (B + 6)" by (rule length_convolve [OF assms(1,2)])
  have p: "6 * i + k < 6 * (B + 6)" using ik by simp
  have "if pat ! (6 * i + k) = 1 then says (fst (depuncture pat src 0) ! (6 * i + k)) (convolve xs B ! (6 * i + k) \<noteq> 0)
    else fst (depuncture pat src 0) ! (6 * i + k) = zero_metric"
    using p assms(3) len rec by (intro depuncture_puncture) (simp_all add: receives_def)
  moreover have "convolve xs B ! (6 * i + k) = of_bool (outs (path_bit (coder_states 0 (xs @ replicate 6 0))) i ! k)"
    using nth_convolve [OF assms(1,2), of i k] ik len by simp
  moreover have "drop (6 * i) (fst (depuncture pat src 0)) ! k = fst (depuncture pat src 0) ! (6 * i + k)"
    using p assms(3) by (simp add: length_depuncture)
  ultimately show "soft (pat ! (6 * i + k) = 1) (drop (6 * i) (fst (depuncture pat src 0)) ! k)
      (outs (path_bit (coder_states 0 (xs @ replicate 6 0))) i ! k)"
    by (simp add: soft_def split: if_splits)
qed

text \<open>Bit deinterleaving: the loop \<open>unmappedBits [demapper -> mapIn (i)] = softBits [i]\<close>.\<close>

definition demap :: "int list \<Rightarrow> nat \<Rightarrow> 'f::zero metrics list \<Rightarrow> 'f metrics list" where
  "demap table n src = foldl (\<lambda>o' i. o'[mapIn table i := src ! i]) (replicate n zero_metric) [0 ..< n]"

definition remap :: "int list \<Rightarrow> nat \<Rightarrow> 'a list \<Rightarrow> 'a list" where
  "remap table n src = map (\<lambda>i. src ! mapIn table i) [0 ..< n]"

lemma length_remap [length_simps, simp]: "length (remap table n src) = n"
  by (simp add: remap_def)

lemma receives_demap:
  assumes "cell_permutation (mapIn table) n" "n \<le> length sent" "receives ms (remap table n sent)"
  shows "receives (demap table n (ms @ rest)) (take n sent)"
proof -
  have len: "length ms = n" using receives_length [OF assms(3)] by simp
  have "says (demap table n (ms @ rest) ! p) (sent ! p \<noteq> 0)" if p: "p < n" for p
  proof -
    obtain i where i: "i < n" "mapIn table i = p" by (rule cell_permutation.m_surj [OF assms(1) p])
    have "demap table n (ms @ rest) ! mapIn table i = (ms @ rest) ! i"
      unfolding demap_def by (rule cell_permutation.nth_scatter [OF assms(1) _ i(1)]) simp
    moreover have "says (ms ! i) (remap table n sent ! i \<noteq> 0)"
      using assms(3) i len by (simp add: receives_def list_all2_conv_all_nth)
    ultimately show ?thesis using i len by (simp add: remap_def nth_append)
  qed
  moreover have "length (demap table n (ms @ rest)) = n"
    by (simp add: demap_def cell_permutation.length_scatter [OF assms(1)])
  ultimately show ?thesis using assms(2) by (simp add: receives_def list_all2_conv_all_nth)
qed

section \<open>The SDC streamer\<close>

record SDC_streamer =
  demapper :: "int list"
  nrCells :: nat
  outLength :: nat
  punctureTable :: "nat list"
  residuTable :: "nat list"
  punctureSize :: nat

text \<open>
  The constructor. With fewer than six cells the lengths would be negative, and the constructor of
  the decoder would ask for arrays of negative length: this, a length for which the decoder cannot be built, and the
  read outside the residual tables, is \<open>None\<close>.
\<close>

definition new_SDC_streamer :: "nat \<Rightarrow> nat \<Rightarrow> int list \<Rightarrow> nat \<Rightarrow> SDC_streamer option" where
  "new_SDC_streamer RX RY myMapper nCells =
     (if nCells < 6 \<or> \<not> viterbi_fits (RX * ((2 * nCells - 12) div RY)) then None
      else case getResiduTable RX RY nCells of None \<Rightarrow> None | Some residu \<Rightarrow>
        Some \<lparr>demapper = myMapper, nrCells = nCells, outLength = RX * ((2 * nCells - 12) div RY),
          punctureTable = getPunctureTable RX RY, residuTable = residu, punctureSize = 6 * RX\<rparr>)"

definition regular_mask :: "SDC_streamer \<Rightarrow> nat list" where
  "regular_mask st = cyclic (punctureTable st) (punctureSize st) (6 * (outLength st + 6) - 36)"

text \<open>The second half of \<open>handle_stream\<close>: the bits that must have been sent.\<close>

definition reencode :: "SDC_streamer \<Rightarrow> u8 list \<Rightarrow> u8 list" where
  "reencode st out =
     (let temp = convolve out (outLength st);
          recomputedBits = puncture (regular_mask st) (take (6 * (outLength st + 6) - 36) temp)
            @ puncture (residuTable st) (drop (6 * (outLength st + 6) - 36) temp)
      in remap (demapper st) (2 * nrCells st) recomputedBits)"

text \<open>
  \<open>handle_stream\<close> returns \<open>reconstr\<close> and \<open>out\<close>; the caller's \<open>reconstr\<close> stays without the flag. All its counters
  are 16-bit numbers: if twice the cells or the encoded length \<open>deconvolveLength\<close> are beyond 32767, the index of a
  loop becomes negative before the loop ends (and the buffers are asked for with a negative size), and the arrays are
  left. This, like a read behind the soft bits, is \<open>None\<close>.
\<close>

definition counters_fit :: "SDC_streamer \<Rightarrow> bool" where
  "counters_fit st \<longleftrightarrow> 2 * nrCells st < 2 ^ 15 \<and> 6 * (outLength st + 6) < 2 ^ 15"

definition handle_stream ::
  "'f::{plus,zero,ord} \<Rightarrow> SDC_streamer \<Rightarrow> 'f metrics list \<Rightarrow> u8 list \<Rightarrow> bool \<Rightarrow> (u8 list \<times> u8 list) option" where
  "handle_stream imax st softBits reconstr flag =
     (if \<not> counters_fit st \<or> length softBits < 2 * nrCells st then None
      else let unmappedBits = demap (demapper st) (2 * nrCells st) softBits;
          (regular, Cnt) = depuncture (regular_mask st) unmappedBits 0;
          (residu, Cnt) = depuncture (residuTable st) unmappedBits Cnt
      in do { out \<leftarrow> deconvolve imax (regular @ residu) (outLength st);
              Some (if flag then reencode st out else reconstr, out) })"

lemma length_regular_mask [length_simps, simp]: "length (regular_mask st) = 6 * outLength st"
  by (simp add: regular_mask_def)

lemma good_rateD:
  assumes "(RX, RY) \<in> set code_rates"
  shows "0 < RX" "0 < RY" "RY \<le> 12" "6 * RX \<le> length (getPunctureTable RX RY)"
    "count_list (take (6 * RX) (getPunctureTable RX RY)) 1 = RY"
    "i < RX \<Longrightarrow> getPunctureTable RX RY ! (6 * i) = 1"
    "kills (table_keeps (getPunctureTable RX RY) RX) 0 (resolve_steps RX)"
proof -
  have g: "good_rate RX RY" using rates_good assms by (auto simp: list_all_iff)
  show "0 < RX" "0 < RY" "RY \<le> 12" using assms by (auto simp: code_rates_def)
  show "6 * RX \<le> length (getPunctureTable RX RY)"
    using g by (auto simp: good_rate_def period_def min_def split: if_splits)
  show "count_list (take (6 * RX) (getPunctureTable RX RY)) 1 = RY"
    using g by (simp add: good_rate_def period_def)
  show "getPunctureTable RX RY ! (6 * i) = 1" if "i < RX"
    using g that by (simp add: good_rate_def period_def list_all_iff)
  show "kills (table_keeps (getPunctureTable RX RY) RX) 0 (resolve_steps RX)"
    using rates_kill assms by (auto simp: list_all_iff)
qed

lemma count_regular:
  assumes "(RX, RY) \<in> set code_rates"
  shows "count_list (cyclic (getPunctureTable RX RY) (6 * RX) (6 * (RX * q))) 1 = RY * q"
proof -
  have a: "6 * (RX * q) = 6 * RX * q" and p: "0 < 6 * RX" using good_rateD(1) [OF assms] by simp_all
  show ?thesis
    unfolding a cyclic_periods [OF p good_rateD(4) [OF assms]] count_concat_replicate good_rateD(5) [OF assms]
    by (rule mult.commute)
qed

text \<open>Entry \<open>k\<close> of step \<open>i\<close> of a cyclic mask.\<close>

lemma nth_cyclic_step:
  assumes "0 < RX" "k < 6" "6 * i + k < n"
  shows "cyclic table (6 * RX) n ! (6 * i + k) = table ! (6 * (i mod RX) + k)"
proof -
  have "(6 * i + k) mod (6 * RX) = 6 * (i mod RX) + k"
  proof -
    have "6 * i + k = 6 * RX * (i div RX) + (6 * (i mod RX) + k)"
      by (metis (no_types, lifting) ab_semigroup_add_class.add_ac(1) mult.assoc mult_div_mod_eq distrib_left)
    moreover have "6 * (i mod RX) + k < 6 * RX"
      using mod_less_divisor [OF assms(1), of i] assms(2) by linarith
    ultimately show ?thesis by (metis mod_less mod_mult_self4)
  qed
  then show ?thesis using nth_cyclic [OF assms(3)] by simp
qed

lemma streamer_mask:
  assumes "(RX, RY) \<in> set code_rates" "6 \<le> n" "new_SDC_streamer RX RY t n = Some st"
  shows "demapper st = t" "nrCells st = n" "outLength st = RX * ((2 * n - 12) div RY)"
    "count_list (regular_mask st @ residuTable st) 1 = 2 * n"
    "length (regular_mask st @ residuTable st) = 6 * (outLength st + 6)"
    "\<And>i k. i < outLength st \<Longrightarrow> k < 6 \<Longrightarrow> (regular_mask st @ residuTable st) ! (6 * i + k)
      = getPunctureTable RX RY ! (6 * (i mod RX) + k)"
proof -
  note r = good_rateD [OF assms(1)]
  note t = getResiduTable_some(1) [OF assms(2) r(2,3), of RX] getResiduTable_some(2) [OF assms(2) r(2,3)]
    residuTables_facts
  have st: "st = \<lparr>demapper = t, nrCells = n, outLength = RX * ((2 * n - 12) div RY),
      punctureTable = getPunctureTable RX RY, residuTable = residuTables ! ((2 * n - 12) mod RY),
      punctureSize = 6 * RX\<rparr>"
    using assms(2,3) t(1) by (auto simp: new_SDC_streamer_def split: if_splits)
  show "demapper st = t" "nrCells st = n" "outLength st = RX * ((2 * n - 12) div RY)" by (simp_all add: st)
  have reg: "regular_mask st = cyclic (getPunctureTable RX RY) (6 * RX) (6 * (RX * ((2 * n - 12) div RY)))"
    by (simp add: regular_mask_def st)
  have "count_list (regular_mask st) 1 = RY * ((2 * n - 12) div RY)"
    unfolding reg by (rule count_regular [OF assms(1)])
  moreover have "count_list (residuTable st) 1 = 12 + (2 * n - 12) mod RY"
    using t(4) [OF t(2)] by (simp add: st)
  ultimately have "count_list (regular_mask st @ residuTable st) 1 = 12 + (2 * n - 12)"
    by simp
  then show "count_list (regular_mask st @ residuTable st) 1 = 2 * n" using assms(2) by simp
  show "length (regular_mask st @ residuTable st) = 6 * (outLength st + 6)"
    using t(3) [OF t(2)] by (simp add: st)
  show "(regular_mask st @ residuTable st) ! (6 * i + k) = getPunctureTable RX RY ! (6 * (i mod RX) + k)"
    if "i < outLength st" "k < 6" for i k
  proof -
    have p: "6 * i + k < 6 * outLength st" using that by simp
    then have "(regular_mask st @ residuTable st) ! (6 * i + k) = regular_mask st ! (6 * i + k)"
      by (simp add: nth_append)
    also have "\<dots> = getPunctureTable RX RY ! (6 * (i mod RX) + k)"
      unfolding reg using nth_cyclic_step [OF r(1) that(2)] p by (simp add: st)
    finally show ?thesis .
  qed
qed

lemma rate_resolving:
  assumes "(RX, RY) \<in> set code_rates" "s + resolve_steps RX \<le> B"
    "\<And>i k. i < resolve_steps RX \<Longrightarrow> k < 6 \<Longrightarrow> kept (s + i) k = (getPunctureTable RX RY ! (6 * (i mod RX) + k) = 1)"
    "\<And>i. i < B \<Longrightarrow> kept i 0"
  shows "resolving kept B"
proof (rule resolving_if_kills [where kept = kept, OF assms(4) _ assms(2)])
  have "kills (\<lambda>i k. if k < 6 then kept (i + s) k else table_keeps (getPunctureTable RX RY) RX i k) 0 (resolve_steps RX)
      = kills (table_keeps (getPunctureTable RX RY) RX) 0 (resolve_steps RX)"
    using assms(3) by (intro kills_cong) (auto simp: table_keeps_def fun_eq_iff add.commute)
  moreover have "kills (\<lambda>i k. if k < 6 then kept (i + s) k else table_keeps (getPunctureTable RX RY) RX i k) 0 n
      = kills (\<lambda>i. kept (i + s)) 0 n" for n
    by (rule kills_only_6) simp
  ultimately show "kills kept s (resolve_steps RX)"
    using good_rateD(7) [OF assms(1)] by (simp add: kills_shift)
qed

lemma handle_stream_noise_free:
  fixes imax :: "'f::linordered_idom"
  assumes "(RX, RY) \<in> set code_rates" "6 \<le> n" "cell_permutation (mapIn t) (2 * n)"
    "new_SDC_streamer RX RY t n = Some st" "resolve_steps RX \<le> outLength st"
    "bits xs" "length xs = outLength st" "0 < imax" "receives softBits (reencode st xs)" "counters_fit st"
  shows "handle_stream imax st softBits reconstr flag = Some (if flag then reencode st xs else reconstr, xs)"
proof -
  note m = streamer_mask [OF assms(1,2,4)]
  let ?B = "outLength st" and ?pat = "regular_mask st @ residuTable st"
  let ?sent = "puncture ?pat (convolve xs ?B)"
  have len: "length (convolve xs ?B) = 6 * (?B + 6)" by (rule length_convolve [OF assms(6,7)])
  have "puncture (regular_mask st) (take (6 * ?B) (convolve xs ?B))
      @ puncture (residuTable st) (drop (6 * ?B) (convolve xs ?B)) = ?sent"
    using len puncture_append [of "regular_mask st" "take (6 * ?B) (convolve xs ?B)" "residuTable st"
        "drop (6 * ?B) (convolve xs ?B)"] by simp
  then have enc: "reencode st xs = remap t (2 * n) ?sent"
    by (simp add: reencode_def Let_def m(1,2))
  have sent: "length ?sent = 2 * n" using m(4,5) len by (simp add: length_puncture)
  have demap: "receives (demap t (2 * n) softBits) ?sent"
    using receives_demap [OF assms(3) _ assms(9) [unfolded enc], of "[]"] sent by simp
  have "resolving (\<lambda>i k. ?pat ! (6 * i + k) = 1) ?B"
  proof (rule rate_resolving [OF assms(1), of 0])
    show "?pat ! (6 * i + 0) = 1" if "i < ?B" for i
      using m(6) [OF that, of 0] good_rateD(1) [OF assms(1)] good_rateD(6) [OF assms(1), of "i mod RX"] by simp
  qed (use m(6) assms(5) in auto)
  then have "survivor_bits imax (fst (depuncture ?pat (demap t (2 * n) softBits) 0)) ?B = xs"
    by (rule masked_decode [OF assms(6,7) m(5) assms(8) _ demap])
  moreover have "viterbi_fits ?B" using assms(10) by (simp add: viterbi_fits_def counters_fit_def)
  moreover have "length (fst (depuncture ?pat (demap t (2 * n) softBits) 0)) = 6 * (?B + 6)"
    unfolding length_depuncture by (rule m(5))
  ultimately have "deconvolve imax (fst (depuncture ?pat (demap t (2 * n) softBits) 0)) ?B = Some xs"
    by (simp add: deconvolve_def)
  moreover have "length softBits = 2 * n"
    using receives_length [OF assms(9)] by (simp add: enc)
  ultimately show ?thesis
    using assms(10) unfolding handle_stream_def m(1,2) Let_def
    by (simp add: depuncture_append split_def Let_def)
qed

text \<open>
  C4. The SDC stream handler, at any of the code rates, for a number of cells it can be built for:
  the depuncturing loops use every received metric exactly once (\<open>Cnt\<close> ends at \<open>2 * nrCells\<close>, as
  the code's comment asks), and whenever the metrics rank the bits that were sent first, the handler
  recovers every block of the length it announces, once that length is enough to fix the encoder's
  state; the bits it reconstructs for the next level are those that were sent. This holds as long as the encoded block
  has at most 32767 bits; beyond that the 16-bit counters of the handler fail, and there is no result.
\<close>
theorem SDC_handle_stream_correct:
  fixes imax :: "'f::linordered_idom"
  assumes "(RX, RY) \<in> set code_rates" "6 \<le> n" "n \<le> 2 ^ 13" "t0 \<in> {13, 21}"
    "new_SDC_streamer RX RY (the (mapper (int (2 * n)) t0)) n = Some st" "resolve_steps RX \<le> outLength st"
    "bits xs" "length xs = outLength st" "0 < imax" "receives softBits (reencode st xs)"
  shows "snd (depuncture (residuTable st) src (snd (depuncture (regular_mask st) src 0))) = 2 * n
    \<and> length (reencode st xs) = 2 * n
    \<and> handle_stream imax st softBits reconstr flag =
        (if 6 * (outLength st + 6) < 2 ^ 15 then Some (if flag then reencode st xs else reconstr, xs) else None)"
proof (intro conjI)
  have perm: "cell_permutation (mapIn (the (mapper (int (2 * n)) t0))) (2 * n)"
    by (rule the_mapper_permutation) (use assms(2,3,4) in auto)
  note m = streamer_mask [OF assms(1,2,5)]
  show "snd (depuncture (residuTable st) src (snd (depuncture (regular_mask st) src 0))) = 2 * n"
    using m(4) by (simp add: depuncture_count)
  show "length (reencode st xs) = 2 * n"
    by (simp add: reencode_def Let_def m(2))
  have fit: "counters_fit st \<longleftrightarrow> 6 * (outLength st + 6) < 2 ^ 15" using assms(3) by (simp add: counters_fit_def m(2))
  show "handle_stream imax st softBits reconstr flag =
      (if 6 * (outLength st + 6) < 2 ^ 15 then Some (if flag then reencode st xs else reconstr, xs) else None)"
  proof (cases "counters_fit st")
    case True
    then show ?thesis
      using handle_stream_noise_free [OF assms(1,2) perm assms(5-10) True] fit by (simp only: if_True)
  qed (use fit in \<open>simp add: handle_stream_def\<close>)
qed

theorem SDC_handle_stream_correct_witness:
  "\<exists>st. new_SDC_streamer 1 2 (the (mapper (int (2 * 12)) 21)) 12 = Some st
    \<and> snd (depuncture (residuTable st) ([] :: int metrics list) (snd (depuncture (regular_mask st) ([] :: int metrics list) 0))) = 2 * 12
    \<and> length (reencode st [1, 0, 1, 1, 0, 1]) = 2 * 12
    \<and> handle_stream 1 st (map makeMetrics (reencode st [1, 0, 1, 1, 0, 1]) :: int metrics list) [] True
      = Some (reencode st [1, 0, 1, 1, 0, 1], [1, 0, 1, 1, 0, 1])"
proof -
  obtain st where st: "new_SDC_streamer 1 2 (the (mapper (int (2 * 12)) 21)) 12 = Some st"
    by (simp add: new_SDC_streamer_def getResiduTable_some viterbi_fits_def)
  then have o: "outLength st = 6" by (auto simp: new_SDC_streamer_def getResiduTable_some split: if_splits)
  have "snd (depuncture (residuTable st) ([] :: int metrics list) (snd (depuncture (regular_mask st) ([] :: int metrics list) 0))) = 2 * 12
    \<and> length (reencode st [1, 0, 1, 1, 0, 1]) = 2 * 12
    \<and> handle_stream 1 st (map makeMetrics (reencode st [1, 0, 1, 1, 0, 1]) :: int metrics list) [] True
      = (if 6 * (outLength st + 6) < 2 ^ 15 then Some (if True then reencode st [1, 0, 1, 1, 0, 1] else [], [1, 0, 1, 1, 0, 1]) else None)"
    by (rule SDC_handle_stream_correct [of 1 2 12 21, OF _ _ _ _ st])
      (simp_all add: code_rates_def resolve_steps_def receives_makeMetrics o)
  then show ?thesis using st o by (intro exI [of _ st]) simp
qed

end
