(* ===== verification/DrmState.thy ===== *)
theory DrmState
  imports Prelude
begin

text \<open>
  The state the FAC and the SDC fill in and the MSC handlers read (\<open>parameters/state-descriptor\<close>).
  Unsigned fields of up to 16 bits are naturals, signed ones integers; the four stream descriptions
  are a list.
\<close>

datatype qam_mode = QAM4 | QAM16 | QAM64
datatype msc_mode = SM | HM | HMI | HMIQ
datatype stream_kind = AUDIO_STREAM | DATA_STREAM

record stream_desc =
  inUse :: bool
  shortId :: nat
  streamId :: nat
  serviceId :: int
  serviceName :: string
  isAudio :: bool
  theLanguage :: string
  theProgrammeType :: string
  soort :: stream_kind
  lengthHigh :: int
  lengthLow :: int
  audioCoding :: nat
  SBR_flag :: nat
  audioMode :: nat
  audioSamplingRate :: nat
  textFlag :: nat
  enhancementFlag :: nat
  coderField :: nat
  rfa :: nat
  xHE_AAC :: "nat list"
  domainId :: nat
  packetModeInd :: nat
  dataUnitIndicator :: nat
  packetId :: nat
  R_code :: int
  C_code :: int
  FEC_flag :: bool
  packetLength :: int
  applicationId :: int
  startofData :: int

record stateDescriptor =
  audio_channel_1 :: bool
  audio_channel_2 :: bool
  set_flag :: bool
  Mode :: nat
  Spectrum :: nat
  spectrumBits :: nat
  frameIdentity :: int
  muxSize :: int
  mscCells_of :: int
  sdcMode :: nat
  RMflag :: bool
  mscMode :: msc_mode
  protLevelA :: nat
  protLevelB :: nat
  QAMMode :: qam_mode
  interleaverDepth :: int
  audioServices :: int
  dataServices :: int
  numofStreams :: nat
  dataLength :: int
  dataHigh :: int
  streams :: "stream_desc list"

text \<open>What \<open>memset (&streams [i], 0, ...)\<close> leaves of a description; a null pointer is the empty name.\<close>

definition zero_stream :: stream_desc where
  "zero_stream = \<lparr>inUse = False, shortId = 0, streamId = 0, serviceId = 0, serviceName = [],
     isAudio = False, theLanguage = [], theProgrammeType = [], soort = AUDIO_STREAM, lengthHigh = 0,
     lengthLow = 0, audioCoding = 0, SBR_flag = 0, audioMode = 0, audioSamplingRate = 0, textFlag = 0,
     enhancementFlag = 0, coderField = 0, rfa = 0, xHE_AAC = [], domainId = 0, packetModeInd = 0,
     dataUnitIndicator = 0, packetId = 0, R_code = 0, C_code = 0, FEC_flag = False, packetLength = 0,
     applicationId = 0, startofData = 0\<rparr>"

text \<open>The loops clear the first three of the four descriptions.\<close>

definition clear_streams :: "stream_desc list \<Rightarrow> stream_desc list" where
  "clear_streams ss = foldl (\<lambda>ss i. ss[i := zero_stream]) ss [0 ..< 3]"

text \<open>The constructor; \<open>mem\<close> holds the fields it does not set.\<close>

definition new_stateDescriptor :: "nat \<Rightarrow> nat \<Rightarrow> stateDescriptor \<Rightarrow> stateDescriptor" where
  "new_stateDescriptor Mode' Spectrum' mem =
     mem\<lparr>Mode := Mode', Spectrum := Spectrum', audio_channel_1 := True, audio_channel_2 := False,
       RMflag := False, sdcMode := 0, numofStreams := 0, set_flag := False,
       streams := clear_streams (streams mem)\<rparr>"

definition getAudioChannel :: "stateDescriptor \<Rightarrow> nat" where
  "getAudioChannel st = (if audio_channel_1 st then 0 else if audio_channel_2 st then 1 else 0)"

definition cleanUp :: "stateDescriptor \<Rightarrow> stateDescriptor" where
  "cleanUp st =
     st\<lparr>audio_channel_1 := True, audio_channel_2 := False, RMflag := False, sdcMode := 0,
       numofStreams := 0, set_flag := False, streams := clear_streams (streams st)\<rparr>"

definition activate_channel_1 :: "stateDescriptor \<Rightarrow> stateDescriptor" where
  "activate_channel_1 st = st\<lparr>audio_channel_1 := True, audio_channel_2 := False\<rparr>"

definition activate_channel_2 :: "stateDescriptor \<Rightarrow> stateDescriptor" where
  "activate_channel_2 st =
     (if soort (streams st ! 1) = AUDIO_STREAM
      then st\<lparr>audio_channel_2 := True, audio_channel_1 := False\<rparr> else st)"

text \<open>Exactly one of the two channel flags is set, and there is room for four streams.\<close>

definition state_ok :: "stateDescriptor \<Rightarrow> bool" where
  "state_ok st \<longleftrightarrow> audio_channel_1 st \<noteq> audio_channel_2 st \<and> length (streams st) = 4 \<and> numofStreams st \<le> 4"

lemma clear_streams_eq:
  "length ss = 4 \<Longrightarrow> clear_streams ss = [zero_stream, zero_stream, zero_stream, ss ! 3]"
  by (auto simp: clear_streams_def upt_rec length_Suc_conv eval_nat_numeral)

lemma state_ok_operations [simp]:
  "length (streams mem) = 4 \<Longrightarrow> state_ok (new_stateDescriptor m s mem)"
  "length (streams st) = 4 \<Longrightarrow> state_ok (cleanUp st)"
  "state_ok st \<Longrightarrow> state_ok (activate_channel_1 st)"
  "state_ok st \<Longrightarrow> state_ok (activate_channel_2 st)"
  by (simp_all add: state_ok_def new_stateDescriptor_def cleanUp_def activate_channel_1_def
      activate_channel_2_def clear_streams_eq)

lemma getAudioChannel_flag: "state_ok st \<Longrightarrow> getAudioChannel st = (if audio_channel_2 st then 1 else 0)"
  by (auto simp: state_ok_def getAudioChannel_def)

text \<open>A state with nothing in it, for examples.\<close>

definition blank_state :: stateDescriptor where
  "blank_state = \<lparr>audio_channel_1 = True, audio_channel_2 = False, set_flag = False, Mode = 0, Spectrum = 0,
     spectrumBits = 0, frameIdentity = 0, muxSize = 0, mscCells_of = 0, sdcMode = 0, RMflag = False, mscMode = SM,
     protLevelA = 0, protLevelB = 0, QAMMode = QAM64, interleaverDepth = 0, audioServices = 0, dataServices = 0,
     numofStreams = 0, dataLength = 0, dataHigh = 0, streams = replicate 4 zero_stream\<rparr>"

end
