(* ===== verification/DrmMscStreamer.thy ===== *)
theory DrmMscStreamer
  imports DrmStreamer DrmState
begin

text \<open>
  One level of a multilevel coded MSC frame (\<open>msc/msc-streamer.cpp\<close>): a higher protected part of
  \<open>N1\<close> cells and a lower protected part of \<open>N2\<close> cells, punctured at their own rates, in one block of
  the convolutional code. The sizes are computed in floating point, here as in the code.
\<close>

section \<open>The sizes\<close>

text \<open>\<open>2 * N1 * ((float) RX / RY)\<close>, cut off to an integer.\<close>

definition high_bits :: "nat \<Rightarrow> nat \<Rightarrow> nat \<Rightarrow> nat" where
  "high_bits N1 RX RY = nat \<lfloor>f32 (of_nat (2 * N1) * f32 (of_nat RX / of_nat RY))\<rfloor>"

text \<open>The float quotient of each rate is not below the rate, and at most \<open>2 ^ -24\<close> above it.\<close>

lemma rate_quotients:
  "list_all (\<lambda>(RX, RY). of_nat RX / of_nat RY \<le> f32 (of_nat RX / of_nat RY)
     \<and> f32 (of_nat RX / of_nat RY) \<le> of_nat RX / of_nat RY + 1 / 2 ^ 24) code_rates"
  by code_simp

lemma floor_f32_near:
  assumes "of_nat n \<le> x" "x \<le> of_nat n + 1 / 2" "n < 2 ^ 22"
  shows "\<lfloor>f32 x\<rfloor> = int n"
proof (cases "n = 0")
  case True
  show ?thesis
  proof (cases "x = 0")
    case False
    then have x: "0 < x" using assms(1) True by simp
    have "f32 (1 / 2) = 1 / 2" by (rule rnd_exact [of 1 24 _ "-1"]) (simp_all add: power_int_minus)
    then have "f32 x \<le> 1 / 2" using rnd_mono [OF x, of "1 / 2" 24] assms(2) True by simp
    moreover have "0 \<le> f32 x" using rnd_between [OF x, of 24] by (meson dual_order.trans less_imp_le zero_less_numeral zero_less_power_int)
    ultimately show ?thesis using True by (simp add: floor_eq_iff)
  qed (simp add: rnd_def True)
next
  case False
  then have n: "0 < int n" by simp
  have nn: "(0 :: rat) < of_nat n" using False by simp
  have "f32 (of_int (int n)) = of_int (int n)" by (rule rnd_int [OF n]) (use assms(3) in simp)
  then have a: "f32 (of_nat n) = of_nat n" by simp
  have "f32 (of_nat n + 1 / 2) = of_nat n + 1 / 2"
    by (rule rnd_exact [of "2 * int n + 1" 24 _ "-1"])
      (use assms(3) in \<open>simp_all add: power_int_minus field_simps\<close>)
  then have "f32 x \<le> of_nat n + 1 / 2" using rnd_mono [of x "of_nat n + 1 / 2" 24] assms(1,2) nn by simp
  moreover have "of_nat n \<le> f32 x" using rnd_mono [OF nn assms(1), of 24] a by simp
  ultimately show ?thesis by (simp add: floor_eq_iff)
qed

lemma high_bits_exact:
  assumes "(RX, RY) \<in> set code_rates" "RY dvd N1" "N1 < 2 ^ 14"
  shows "high_bits N1 RX RY = RX * (2 * N1 div RY)"
proof -
  obtain m where m: "N1 = RY * m" using assms(2) by (elim dvdE)
  have r: "0 < RY" "RX \<le> RY" using assms(1) by (auto simp: code_rates_def)
  have q: "of_nat RX / of_nat RY \<le> f32 (of_nat RX / of_nat RY)"
    "f32 (of_nat RX / of_nat RY) \<le> of_nat RX / of_nat RY + 1 / 2 ^ 24"
    using rate_quotients assms(1) by (auto simp: list_all_iff)
  have div: "RX * (2 * N1 div RY) = 2 * RX * m" using r by (simp add: m)
  have n: "of_nat (2 * RX * m) = of_nat (2 * N1) * (of_nat RX / of_nat RY :: rat)"
    using r by (simp add: m)
  have lo: "of_nat (2 * RX * m) \<le> of_nat (2 * N1) * f32 (of_nat RX / of_nat RY)"
    unfolding n using q(1) by (intro mult_left_mono) simp_all
  have "of_nat (2 * N1) * f32 (of_nat RX / of_nat RY)
      \<le> of_nat (2 * N1) * (of_nat RX / of_nat RY + 1 / 2 ^ 24)"
    using q(2) by (intro mult_left_mono) simp_all
  also have "\<dots> = of_nat (2 * RX * m) + of_nat (2 * N1) / 2 ^ 24" unfolding n by (simp add: algebra_simps)
  also have "\<dots> \<le> of_nat (2 * RX * m) + 1 / 2"
  proof -
    have "(of_nat (2 * N1) :: rat) < of_nat (2 ^ 15)" using assms(3) by (simp only: of_nat_less_iff) simp
    then show ?thesis by simp
  qed
  finally have hi: "of_nat (2 * N1) * f32 (of_nat RX / of_nat RY) \<le> of_nat (2 * RX * m) + 1 / 2" .
  have "2 * RX * m \<le> 2 * N1" using r by (simp add: m)
  then have "2 * RX * m < 2 ^ 22" using assms(3) by simp
  from floor_f32_near [OF lo hi this] show ?thesis unfolding high_bits_def div by (simp only: nat_int)
qed

lemma rates_below_1: "list_all (\<lambda>(RX, RY). 0 < f32 (of_nat RX / of_nat RY) \<and> f32 (of_nat RX / of_nat RY) \<le> 1) code_rates"
  by code_simp

lemma high_bits_le:
  assumes "(RX, RY) \<in> set code_rates" "N1 < 2 ^ 14"
  shows "high_bits N1 RX RY \<le> 2 * N1"
proof (cases "N1 = 0")
  case False
  let ?q = "f32 (of_nat RX / of_nat RY)"
  have q: "0 < ?q" "?q \<le> 1" using rates_below_1 assms(1) by (auto simp: list_all_iff)
  have x: "0 < of_nat (2 * N1) * ?q" using q(1) False by simp
  have "of_nat (2 * N1) * ?q \<le> of_nat (2 * N1)" using mult_left_mono [OF q(2), of "of_nat (2 * N1)"] by simp
  from rnd_mono [OF x this, of 24] have "f32 (of_nat (2 * N1) * ?q) \<le> f32 (of_int (int (2 * N1)))" by simp
  also have "\<dots> = of_int (int (2 * N1))" by (rule rnd_int) (use False assms(2) in simp_all)
  finally have "\<lfloor>f32 (of_nat (2 * N1) * ?q)\<rfloor> \<le> int (2 * N1)" by (simp add: floor_le_iff)
  then show ?thesis by (simp add: high_bits_def nat_le_iff)
qed (simp add: high_bits_def rnd_def)

section \<open>The streamer\<close>

record MSC_streamer =
  cells_1 :: nat
  cells_2 :: nat
  hpMapper :: "int list option"
  lpMapper :: "int list option"
  RX_High :: nat
  RY_High :: nat
  RX_Low :: nat
  RY_Low :: nat
  punctureHigh :: "nat list"
  punctureLow :: "nat list"
  tailTable :: "nat list"
  highProtectedbits :: nat
  lowProtectedbits :: nat

definition protLevel_for :: "stateDescriptor \<Rightarrow> nat \<Rightarrow> nat \<Rightarrow> nat \<times> nat" where
  "protLevel_for st prot nr =
     (if QAMMode st = QAM16 then protLevel_qam16 prot nr else protLevel_qam64 prot nr)"

text \<open>
  The constructor; \<open>None\<close> where the lower part has fewer than six cells, for which the code computes
  negative lengths, and where the decoder cannot be built for so many bits (which covers lengths that do not fit
  the 16-bit fields).
\<close>

definition new_MSC_streamer ::
  "stateDescriptor \<Rightarrow> nat \<Rightarrow> nat \<Rightarrow> int list option \<Rightarrow> int list option \<Rightarrow> MSC_streamer option" where
  "new_MSC_streamer theState streamNumber N1 hp lp =
     (let N2 = nat (muxSize theState - int N1);
          (RXH, RYH) = protLevel_for theState (protLevelA theState) streamNumber;
          (RXL, RYL) = protLevel_for theState (protLevelB theState) streamNumber
      in if muxSize theState - int N1 < 6 \<or> \<not> viterbi_fits (high_bits N1 RXH RYH + RXL * ((2 * N2 - 12) div RYL)) then None
         else case getResiduTable RXL RYL N2 of None \<Rightarrow> None | Some residu \<Rightarrow>
           Some \<lparr>cells_1 = N1, cells_2 = N2, hpMapper = hp, lpMapper = lp,
             RX_High = RXH, RY_High = RYH, RX_Low = RXL, RY_Low = RYL,
             punctureHigh = getPunctureTable RXH RYH, punctureLow = getPunctureTable RXL RYL,
             tailTable = residu, highProtectedbits = high_bits N1 RXH RYH,
             lowProtectedbits = RXL * ((2 * N2 - 12) div RYL)\<rparr>)"

definition high_mask :: "MSC_streamer \<Rightarrow> nat list" where
  "high_mask s = cyclic (punctureHigh s) (6 * RX_High s) (6 * highProtectedbits s)"

definition low_mask :: "MSC_streamer \<Rightarrow> nat list" where
  "low_mask s = cyclic (punctureLow s) (6 * RX_Low s) (6 * lowProtectedbits s)"

text \<open>
  Bit deinterleaving of the parts, each with its own mapper or as it is, and the way back.
\<close>

definition demap_parts :: "MSC_streamer \<Rightarrow> 'f::zero metrics list \<Rightarrow> 'f metrics list" where
  "demap_parts s softBits =
     (case hpMapper s of None \<Rightarrow> take (2 * cells_1 s) softBits | Some t \<Rightarrow> demap t (2 * cells_1 s) softBits)
     @ (let rest = drop (2 * cells_1 s) softBits in
        case lpMapper s of None \<Rightarrow> take (2 * cells_2 s) rest | Some t \<Rightarrow> demap t (2 * cells_2 s) rest)"

definition remap_parts :: "MSC_streamer \<Rightarrow> 'a list \<Rightarrow> 'a list" where
  "remap_parts s xs =
     (case hpMapper s of None \<Rightarrow> take (2 * cells_1 s) xs | Some t \<Rightarrow> remap t (2 * cells_1 s) xs)
     @ (let rest = drop (2 * cells_1 s) xs in
        case lpMapper s of None \<Rightarrow> take (2 * cells_2 s) rest | Some t \<Rightarrow> remap t (2 * cells_2 s) rest)"

text \<open>The last part of \<open>process\<close>: the bits that must have been sent.\<close>

definition msc_reencode :: "MSC_streamer \<Rightarrow> u8 list \<Rightarrow> u8 list" where
  "msc_reencode s out =
     (let hb = highProtectedbits s; lb = lowProtectedbits s;
          hulpVec = convolve out (hb + lb);
          xxTemp = puncture (high_mask s) (take (6 * hb) hulpVec)
            @ puncture (low_mask s) (take (6 * lb) (drop (6 * hb) hulpVec))
            @ puncture (tailTable s) (drop (6 * (hb + lb)) hulpVec)
      in remap_parts s xxTemp)"

text \<open>
  \<open>process\<close>. A part with a mapper is run through with a 16-bit index; a longer one, like a read behind the soft
  bits, is \<open>None\<close>.
\<close>

definition part_fits :: "int list option \<Rightarrow> nat \<Rightarrow> bool" where
  "part_fits m n = (m = None \<or> n < 2 ^ 15)"

definition msc_process ::
  "'f::{plus,zero,ord} \<Rightarrow> MSC_streamer \<Rightarrow> 'f metrics list \<Rightarrow> (u8 list \<times> u8 list) option" where
  "msc_process imax s softBits =
     (if \<not> part_fits (hpMapper s) (2 * cells_1 s) \<or> \<not> part_fits (lpMapper s) (2 * cells_2 s)
        \<or> length softBits < 2 * cells_1 s + 2 * cells_2 s then None
      else let temp = demap_parts s softBits;
          (high, next) = depuncture (high_mask s) temp 0;
          (low, next) = depuncture (low_mask s) temp next;
          (tail, next) = depuncture (tailTable s) temp next
      in do { out \<leftarrow> deconvolve imax (high @ low @ tail) (highProtectedbits s + lowProtectedbits s);
              Some (out, msc_reencode s out) })"

section \<open>Correctness\<close>

lemma length_masks [length_simps, simp]:
  "length (high_mask s) = 6 * highProtectedbits s" "length (low_mask s) = 6 * lowProtectedbits s"
  by (simp_all add: high_mask_def low_mask_def)

text \<open>What the constructor establishes.\<close>

definition msc_ok :: "MSC_streamer \<Rightarrow> bool" where
  "msc_ok s \<longleftrightarrow> (RX_High s, RY_High s) \<in> set code_rates \<and> (RX_Low s, RY_Low s) \<in> set code_rates
     \<and> punctureHigh s = getPunctureTable (RX_High s) (RY_High s)
     \<and> punctureLow s = getPunctureTable (RX_Low s) (RY_Low s)
     \<and> count_list (high_mask s) 1 = 2 * cells_1 s
     \<and> count_list (low_mask s @ tailTable s) 1 = 2 * cells_2 s
     \<and> length (tailTable s) = 36 \<and> viterbi_fits (highProtectedbits s + lowProtectedbits s)"

lemma protLevel_for_rates: "protLevel_for st prot nr \<in> set code_rates"
  by (simp add: protLevel_for_def protLevel_rates)

lemma new_MSC_streamer_ok:
  assumes "new_MSC_streamer st nr N1 hp lp = Some s" "N1 < 2 ^ 14"
    "snd (protLevel_for st (protLevelA st) nr) dvd N1"
  shows "msc_ok s" "cells_1 s = N1" "int (cells_2 s) = muxSize st - int N1" "hpMapper s = hp" "lpMapper s = lp"
    "highProtectedbits s = fst (protLevel_for st (protLevelA st) nr) * (2 * N1 div snd (protLevel_for st (protLevelA st) nr))"
proof -
  obtain RXH RYH RXL RYL where l: "protLevel_for st (protLevelA st) nr = (RXH, RYH)"
      "protLevel_for st (protLevelB st) nr = (RXL, RYL)" by fastforce
  have rates: "(RXH, RYH) \<in> set code_rates" "(RXL, RYL) \<in> set code_rates"
    using protLevel_for_rates l by metis+
  define N2 where "N2 = nat (muxSize st - int N1)"
  have N2: "6 \<le> N2" "int N2 = muxSize st - int N1"
    using assms(1) by (auto simp: new_MSC_streamer_def l N2_def Let_def split: if_splits)
  have fits: "viterbi_fits (high_bits N1 RXH RYH + RXL * ((2 * N2 - 12) div RYL))"
    using assms(1) by (auto simp: new_MSC_streamer_def l N2_def Let_def split: if_splits)
  note r = good_rateD [OF rates(1)] and rl = good_rateD [OF rates(2)]
  note t = getResiduTable_some(1) [OF N2(1) rl(2,3), of RXL] getResiduTable_some(2) [OF N2(1) rl(2,3)]
  have s: "s = \<lparr>cells_1 = N1, cells_2 = N2, hpMapper = hp, lpMapper = lp,
             RX_High = RXH, RY_High = RYH, RX_Low = RXL, RY_Low = RYL,
             punctureHigh = getPunctureTable RXH RYH, punctureLow = getPunctureTable RXL RYL,
             tailTable = residuTables ! ((2 * N2 - 12) mod RYL), highProtectedbits = high_bits N1 RXH RYH,
             lowProtectedbits = RXL * ((2 * N2 - 12) div RYL)\<rparr>"
    using assms(1) t(1) N2_def by (auto simp: new_MSC_streamer_def l Let_def split: if_splits)
  have dvd: "RYH dvd N1" using assms(3) by (simp add: l)
  have hb: "high_bits N1 RXH RYH = RXH * (2 * N1 div RYH)"
    by (rule high_bits_exact [OF rates(1) dvd assms(2)])
  have "count_list (high_mask s) 1 = RYH * (2 * N1 div RYH)"
    using count_regular [OF rates(1)] by (simp add: high_mask_def s hb)
  moreover have "RYH dvd 2 * N1" using dvd by (rule dvd_mult)
  ultimately have h: "count_list (high_mask s) 1 = 2 * N1" by simp
  have "count_list (low_mask s) 1 = RYL * ((2 * N2 - 12) div RYL)"
    using count_regular [OF rates(2)] by (simp add: low_mask_def s)
  then have lo: "count_list (low_mask s @ tailTable s) 1 = 2 * N2"
    using residuTables_facts(2) [OF t(2)] N2(1) by (simp add: s)
  show "msc_ok s" using rates h lo residuTables_facts(1) [OF t(2)] fits by (simp add: msc_ok_def s)
  show "cells_1 s = N1" "int (cells_2 s) = muxSize st - int N1" "hpMapper s = hp" "lpMapper s = lp"
    using N2 by (simp_all add: s)
  show "highProtectedbits s = fst (protLevel_for st (protLevelA st) nr) * (2 * N1 div snd (protLevel_for st (protLevelA st) nr))"
    by (simp add: s hb l)
qed

text \<open>The mappers of the parts are permutations where there is a mapper.\<close>

definition mappers_ok :: "MSC_streamer \<Rightarrow> bool" where
  "mappers_ok s \<longleftrightarrow> part_fits (hpMapper s) (2 * cells_1 s) \<and> part_fits (lpMapper s) (2 * cells_2 s) \<and>
     (case hpMapper s of None \<Rightarrow> True | Some t \<Rightarrow> cell_permutation (mapIn t) (2 * cells_1 s)) \<and>
     (case lpMapper s of None \<Rightarrow> True | Some t \<Rightarrow> cell_permutation (mapIn t) (2 * cells_2 s))"

lemma receives_append:
  "length ms = length a \<Longrightarrow> receives (ms @ ns) (a @ b) \<longleftrightarrow> receives ms a \<and> receives ns b"
  by (simp add: receives_def list_all2_append)

lemma receives_takeD: "receives ms (a @ b) \<Longrightarrow> receives (take (length a) ms) a \<and> receives (drop (length a) ms) b"
  using receives_append [of "take (length a) ms" a "drop (length a) ms" b] receives_length [of ms "a @ b"]
  by simp

text \<open>One part: with a mapper or without.\<close>

definition part_out :: "int list option \<Rightarrow> nat \<Rightarrow> 'a list \<Rightarrow> 'a list" where
  "part_out m n xs = (case m of None \<Rightarrow> take n xs | Some t \<Rightarrow> remap t n xs)"

definition part_in :: "int list option \<Rightarrow> nat \<Rightarrow> 'f::zero metrics list \<Rightarrow> 'f metrics list" where
  "part_in m n xs = (case m of None \<Rightarrow> take n xs | Some t \<Rightarrow> demap t n xs)"

lemma part_in_out:
  assumes "case m of None \<Rightarrow> True | Some t \<Rightarrow> cell_permutation (mapIn t) n" "n \<le> length sent"
    "receives ms (part_out m n sent)"
  shows "receives (part_in m n (ms @ rest)) (take n sent)"
proof (cases m)
  case None
  then show ?thesis using assms receives_length [OF assms(3)] by (simp add: part_in_def part_out_def)
next
  case (Some t)
  then show ?thesis using assms receives_demap [of t n sent ms rest] by (simp add: part_in_def part_out_def)
qed

lemma length_part_out: "n \<le> length sent \<Longrightarrow> length (part_out m n sent) = n"
  by (simp add: part_out_def split: option.splits)

lemma demap_remap_parts:
  assumes "mappers_ok s" "length xs = 2 * cells_1 s + 2 * cells_2 s" "receives softBits (remap_parts s xs)"
  shows "receives (demap_parts s softBits) xs"
proof -
  let ?n1 = "2 * cells_1 s" and ?n2 = "2 * cells_2 s"
  let ?a = "part_out (hpMapper s) ?n1 xs" and ?b = "part_out (lpMapper s) ?n2 (drop ?n1 xs)"
  have out: "remap_parts s xs = ?a @ ?b" by (simp add: remap_parts_def part_out_def Let_def)
  have inp: "demap_parts s softBits = part_in (hpMapper s) ?n1 softBits
      @ part_in (lpMapper s) ?n2 (drop ?n1 softBits)"
    by (simp add: demap_parts_def part_in_def Let_def)
  have m: "case hpMapper s of None \<Rightarrow> True | Some t \<Rightarrow> cell_permutation (mapIn t) ?n1"
    "case lpMapper s of None \<Rightarrow> True | Some t \<Rightarrow> cell_permutation (mapIn t) ?n2"
    using assms(1) by (simp_all add: mappers_ok_def)
  have l: "?n1 \<le> length xs" "?n2 \<le> length (drop ?n1 xs)" using assms(2) by simp_all
  have r: "receives (take ?n1 softBits) ?a" "receives (drop ?n1 softBits) ?b"
    using receives_takeD [OF assms(3) [unfolded out]] length_part_out [OF l(1)] by simp_all
  have "receives (part_in (hpMapper s) ?n1 softBits) (take ?n1 xs)"
    using part_in_out [OF m(1) l(1) r(1), of "drop ?n1 softBits"] by simp
  moreover have "receives (part_in (lpMapper s) ?n2 (drop ?n1 softBits)) (drop ?n1 xs)"
    using part_in_out [OF m(2) l(2) r(2), of "[]"] assms(2) by simp
  ultimately have "receives (demap_parts s softBits) (take ?n1 xs @ drop ?n1 xs)"
    unfolding inp by (subst receives_append) (auto dest: receives_length)
  then show ?thesis by simp
qed

lemma length_remap_parts:
  "length xs = 2 * cells_1 s + 2 * cells_2 s \<Longrightarrow> length (remap_parts s xs) = 2 * cells_1 s + 2 * cells_2 s"
  by (simp add: remap_parts_def Let_def split: option.splits)

lemma puncture_parts:
  assumes "length m1 = n1" "length m2 = n2" "n1 + n2 + length m3 = length xs"
  shows "puncture (m1 @ m2 @ m3) xs = puncture m1 (take n1 xs)
    @ puncture m2 (take n2 (drop n1 xs)) @ puncture m3 (drop (n1 + n2) xs)"
proof -
  have "puncture (m1 @ m2 @ m3) (take n1 xs @ take n2 (drop n1 xs) @ drop (n1 + n2) xs)
      = puncture m1 (take n1 xs) @ puncture m2 (take n2 (drop n1 xs)) @ puncture m3 (drop (n1 + n2) xs)"
    using assms by (simp add: puncture_append)
  then show ?thesis using list_split3 [of xs n1 n2] by simp
qed

lemma msc_resolving:
  assumes "msc_ok s"
    "resolve_steps (RX_High s) \<le> highProtectedbits s \<or> resolve_steps (RX_Low s) \<le> lowProtectedbits s"
  shows "resolving (\<lambda>i k. (high_mask s @ low_mask s @ tailTable s) ! (6 * i + k) = 1)
    (highProtectedbits s + lowProtectedbits s)"
proof -
  let ?hb = "highProtectedbits s" and ?lb = "lowProtectedbits s"
  let ?pat = "high_mask s @ low_mask s @ tailTable s"
  have ok: "(RX_High s, RY_High s) \<in> set code_rates" "(RX_Low s, RY_Low s) \<in> set code_rates"
    "punctureHigh s = getPunctureTable (RX_High s) (RY_High s)"
    "punctureLow s = getPunctureTable (RX_Low s) (RY_Low s)" using assms(1) by (simp_all add: msc_ok_def)
  note rh = good_rateD [OF ok(1)] and rl = good_rateD [OF ok(2)]
  have high: "?pat ! (6 * i + k) = getPunctureTable (RX_High s) (RY_High s) ! (6 * (i mod RX_High s) + k)"
    if "i < ?hb" "k < 6" for i k
  proof -
    have p: "6 * i + k < 6 * ?hb" using that by simp
    then show ?thesis using nth_cyclic_step [OF rh(1) that(2) p, of "punctureHigh s"]
      by (simp add: nth_append high_mask_def ok(3))
  qed
  have low: "?pat ! (6 * (?hb + i) + k) = getPunctureTable (RX_Low s) (RY_Low s) ! (6 * (i mod RX_Low s) + k)"
    if "i < ?lb" "k < 6" for i k
  proof -
    have p: "6 * i + k < 6 * ?lb" using that by simp
    have "?pat ! (6 * (?hb + i) + k) = low_mask s ! (6 * i + k)"
      using p by (simp add: nth_append distrib_left)
    then show ?thesis using nth_cyclic_step [OF rl(1) that(2) p, of "punctureLow s"]
      by (simp add: low_mask_def ok(4))
  qed
  have first: "?pat ! (6 * i + 0) = 1" if "i < ?hb + ?lb" for i
  proof (cases "i < ?hb")
    case True
    then show ?thesis using high [of i 0] good_rateD(6) [OF ok(1), of "i mod RX_High s"] rh(1) by simp
  next
    case False
    then show ?thesis using low [of "i - ?hb" 0] that good_rateD(6) [OF ok(2), of "(i - ?hb) mod RX_Low s"] rl(1)
      by simp
  qed
  show ?thesis
    using assms(2)
  proof
    assume "resolve_steps (RX_High s) \<le> ?hb"
    then show ?thesis
      by (intro rate_resolving [OF ok(1), of 0]) (use first high in auto)
  next
    assume "resolve_steps (RX_Low s) \<le> ?lb"
    then show ?thesis
      by (intro rate_resolving [OF ok(2), of ?hb]) (use first low in auto)
  qed
qed

lemma msc_process_noise_free:
  fixes imax :: "'f::linordered_idom"
  assumes "msc_ok s" "mappers_ok s" "bits xs" "length xs = highProtectedbits s + lowProtectedbits s" "0 < imax"
    "receives softBits (msc_reencode s xs)"
    "resolve_steps (RX_High s) \<le> highProtectedbits s \<or> resolve_steps (RX_Low s) \<le> lowProtectedbits s"
  shows "msc_process imax s softBits = Some (xs, msc_reencode s xs)"
    "length (msc_reencode s xs) = 2 * cells_1 s + 2 * cells_2 s"
proof -
  let ?hb = "highProtectedbits s" and ?lb = "lowProtectedbits s"
  let ?B = "?hb + ?lb" and ?pat = "high_mask s @ low_mask s @ tailTable s"
  let ?c = "convolve xs ?B"
  have ok: "(RX_High s, RY_High s) \<in> set code_rates" "(RX_Low s, RY_Low s) \<in> set code_rates"
    "punctureHigh s = getPunctureTable (RX_High s) (RY_High s)"
    "punctureLow s = getPunctureTable (RX_Low s) (RY_Low s)"
    "count_list (high_mask s) 1 = 2 * cells_1 s"
    "count_list (low_mask s @ tailTable s) 1 = 2 * cells_2 s" "length (tailTable s) = 36"
    using assms(1) by (simp_all add: msc_ok_def)
  have len: "length ?c = 6 * (?B + 6)" by (rule length_convolve [OF assms(3,4)])
  have pat: "length ?pat = 6 * (?B + 6)" using ok(7) by simp
  have cnt: "count_list ?pat 1 = 2 * cells_1 s + 2 * cells_2 s" using ok(5,6) by simp
  have "puncture ?pat ?c = puncture (high_mask s) (take (6 * ?hb) ?c)
      @ puncture (low_mask s) (take (6 * ?lb) (drop (6 * ?hb) ?c)) @ puncture (tailTable s) (drop (6 * ?B) ?c)"
    using len ok(7) puncture_parts [of "high_mask s" "6 * ?hb" "low_mask s" "6 * ?lb" "tailTable s" ?c]
    by (simp add: distrib_left)
  then have enc: "msc_reencode s xs = remap_parts s (puncture ?pat ?c)"
    by (simp add: msc_reencode_def Let_def)
  have sent: "length (puncture ?pat ?c) = 2 * cells_1 s + 2 * cells_2 s"
    using cnt pat len by (simp add: length_puncture)
  show "length (msc_reencode s xs) = 2 * cells_1 s + 2 * cells_2 s"
    using length_remap_parts [OF sent] by (simp add: enc)
  have demap: "receives (demap_parts s softBits) (puncture ?pat ?c)"
    by (rule demap_remap_parts [OF assms(2) sent assms(6) [unfolded enc]])
  have "resolving (\<lambda>i k. ?pat ! (6 * i + k) = 1) ?B" by (rule msc_resolving [OF assms(1,7)])
  then have "survivor_bits imax (fst (depuncture ?pat (demap_parts s softBits) 0)) ?B = xs"
    by (rule masked_decode [OF assms(3,4) pat assms(5) _ demap])
  moreover have "length (fst (depuncture ?pat (demap_parts s softBits) 0)) = 6 * (?B + 6)"
    unfolding length_depuncture by (rule pat)
  moreover have "viterbi_fits ?B" using assms(1) by (simp add: msc_ok_def)
  ultimately have "deconvolve imax (fst (depuncture ?pat (demap_parts s softBits) 0)) ?B = Some xs"
    by (simp add: deconvolve_def)
  moreover have "length softBits = 2 * cells_1 s + 2 * cells_2 s"
    using receives_length [OF assms(6)] length_remap_parts [OF sent] by (simp add: enc)
  moreover have "part_fits (hpMapper s) (2 * cells_1 s)" "part_fits (lpMapper s) (2 * cells_2 s)"
    using assms(2) by (simp_all add: mappers_ok_def)
  ultimately show "msc_process imax s softBits = Some (xs, msc_reencode s xs)"
    unfolding msc_process_def Let_def
    by (simp add: depuncture_append split_def Let_def)
qed

lemma bits_part_out:
  assumes "case m of None \<Rightarrow> True | Some t \<Rightarrow> cell_permutation (mapIn t) n" "n \<le> length sent" "bits sent"
  shows "bits (part_out m n sent)"
proof (cases m)
  case (Some t)
  have "is_bit (sent ! mapIn t i)" if "i < n" for i
    using cell_permutation.m_less [of "mapIn t" n i] assms Some that by (auto intro: bits_nth)
  then show ?thesis using Some by (simp add: part_out_def remap_def bits_def)
qed (use assms in \<open>simp add: part_out_def onebit\<close>)

lemma bits_msc_reencode:
  assumes "msc_ok s" "mappers_ok s" "bits xs" "length xs = highProtectedbits s + lowProtectedbits s"
  shows "bits (msc_reencode s xs)"
proof -
  let ?hb = "highProtectedbits s" and ?lb = "lowProtectedbits s"
  let ?c = "convolve xs (?hb + ?lb)"
  let ?x = "puncture (high_mask s) (take (6 * ?hb) ?c)
    @ puncture (low_mask s) (take (6 * ?lb) (drop (6 * ?hb) ?c)) @ puncture (tailTable s) (drop (6 * (?hb + ?lb)) ?c)"
  have b: "bits ?x" using assms(3) by (simp add: onebit)
  have len: "length ?c = 6 * (?hb + ?lb + 6)" by (rule length_convolve [OF assms(3,4)])
  have "length ?x = 2 * cells_1 s + 2 * cells_2 s"
    using assms(1) len by (simp add: msc_ok_def length_puncture)
  then have "bits (part_out (hpMapper s) (2 * cells_1 s) ?x)"
    "bits (part_out (lpMapper s) (2 * cells_2 s) (drop (2 * cells_1 s) ?x))"
    using assms(2) b by (auto simp only: mappers_ok_def length_drop intro!: bits_part_out bits_drop)
  then show ?thesis
    by (simp add: msc_reencode_def remap_parts_def part_out_def Let_def del: drop_append take_append)
qed

end
