(* ===== verification/DrmMetrics.thy ===== *)
theory DrmMetrics
  imports DrmStreamer
begin

text \<open>
  Soft demodulation (\<open>basics.h\<close>, \<open>support/qam4-metrics.cpp\<close>, \<open>support/qam16-metrics.cpp\<close>,
  \<open>support/qam64-metrics.cpp\<close>): for each of the two components of a cell, what it costs to read the
  bit of a level as 0 and as 1. The arithmetic is that of an ordered field, without the rounding of
  \<open>float\<close>; the constants are the code's. Both columns of the tables are kept, as in the code.
\<close>

record 'f theSignal =
  sig_re :: 'f
  sig_im :: 'f
  rTrans :: 'f

definition component :: "'f theSignal \<Rightarrow> nat \<Rightarrow> 'f" where
  "component s c = (if c = 0 then sig_re s else sig_im s)"

definition computeMetric :: "'f::times \<Rightarrow> 'f \<Rightarrow> 'f" where
  "computeMetric rDist rChan = rDist * rDist * rChan"

definition Minimum1 :: "'f::{minus,abs,times} \<Rightarrow> 'f \<Rightarrow> 'f \<Rightarrow> 'f" where
  "Minimum1 rA rB rChan = computeMetric \<bar>rA - rB\<bar> rChan"

definition Minimum2 :: "'f::{minus,abs,times,ord} \<Rightarrow> 'f \<Rightarrow> 'f \<Rightarrow> 'f \<Rightarrow> 'f" where
  "Minimum2 rA rB1 rB2 rChan =
     (let rResult1 = \<bar>rA - rB1\<bar>; rResult2 = \<bar>rA - rB2\<bar>
      in if rResult1 < rResult2 then computeMetric rResult1 rChan else computeMetric rResult2 rChan)"

definition Minimum4 :: "'f::{minus,abs,times,ord} \<Rightarrow> 'f \<Rightarrow> 'f \<Rightarrow> 'f \<Rightarrow> 'f \<Rightarrow> 'f \<Rightarrow> 'f" where
  "Minimum4 rA rB1 rB2 rB3 rB4 rChan =
     (let rResult1 = \<bar>rA - rB1\<bar>; rResult2 = \<bar>rA - rB2\<bar>; rResult3 = \<bar>rA - rB3\<bar>; rResult4 = \<bar>rA - rB4\<bar>;
          rReturn = rResult1;
          rReturn = (if rResult2 < rReturn then rResult2 else rReturn);
          rReturn = (if rResult3 < rReturn then rResult3 else rReturn);
          rReturn = (if rResult4 < rReturn then rResult4 else rReturn)
      in computeMetric rReturn rChan)"

section \<open>The constellations\<close>

definition rTableQAM4 :: "'f::linordered_field list list" where
  "rTableQAM4 =
     [[7071067811 / 10000000000, 7071067811 / 10000000000],
      [- (7071067811 / 10000000000), - (7071067811 / 10000000000)]]"

definition rTableQAM16 :: "'f::linordered_field list list" where
  "rTableQAM16 =
     [[9486832980 / 10000000000, 9486832980 / 10000000000],
      [- (3162277660 / 10000000000), - (3162277660 / 10000000000)],
      [3162277660 / 10000000000, 3162277660 / 10000000000],
      [- (9486832980 / 10000000000), - (9486832980 / 10000000000)]]"

definition rTableQAM64SM :: "'f::linordered_field list list" where
  "rTableQAM64SM =
     [[10801234497 / 10000000000, 10801234497 / 10000000000],
      [- (1543033499 / 10000000000), - (1543033499 / 10000000000)],
      [4629100498 / 10000000000, 4629100498 / 10000000000],
      [- (7715167498 / 10000000000), - (7715167498 / 10000000000)],
      [7715167498 / 10000000000, 7715167498 / 10000000000],
      [- (4629100498 / 10000000000), - (4629100498 / 10000000000)],
      [1543033499 / 10000000000, 1543033499 / 10000000000],
      [- (10801234497 / 10000000000), - (10801234497 / 10000000000)]]"

section \<open>The demodulators\<close>

text \<open>
  The loops write entry \<open>2 * i\<close> for the real part of cell \<open>i\<close> and entry \<open>2 * i + 1\<close> for the
  imaginary part: \<open>per_component amount f\<close> lists \<open>f i c\<close>, \<open>c\<close> being 0 and 1.
\<close>

definition per_component :: "nat \<Rightarrow> (nat \<Rightarrow> nat \<Rightarrow> 'b) \<Rightarrow> 'b list" where
  "per_component amount f = concat (map (\<lambda>i. [f i 0, f i 1]) [0 ..< amount])"

definition qam4_computemetrics :: "'f::linordered_field theSignal list \<Rightarrow> nat \<Rightarrow> 'f metrics list" where
  "qam4_computemetrics sig amount = per_component amount (\<lambda>i c.
     let x = component (sig ! i) c; r = rTrans (sig ! i)
     in \<lparr>rTow0 = Minimum1 x (rTableQAM4 ! 0 ! c) r, rTow1 = Minimum1 x (rTableQAM4 ! 1 ! c) r\<rparr>)"

definition qam16_computemetrics ::
  "'f::linordered_field theSignal list \<Rightarrow> nat \<Rightarrow> nat \<Rightarrow> bool \<Rightarrow> u8 list \<Rightarrow> u8 list \<Rightarrow> 'f metrics list" where
  "qam16_computemetrics sig amount level retry level_0 level_1 =
     per_component amount (\<lambda>i c.
       let x = component (sig ! i) c; r = rTrans (sig ! i); T = (\<lambda>k :: u8. rTableQAM16 ! unat k ! c) in
       if level = 0 \<and> \<not> retry then
         \<lparr>rTow0 = Minimum2 x (T 0) (T 1) r, rTow1 = Minimum2 x (T 2) (T 3) r\<rparr>
       else if level = 0 \<and> retry then
         (let iTabInd0 = level_1 ! (2 * i + c) AND 1
          in \<lparr>rTow0 = Minimum1 x (T iTabInd0) r, rTow1 = Minimum1 x (T (iTabInd0 OR push_bit 1 1)) r\<rparr>)
       else
         (let iTabInd0 = push_bit 1 (level_0 ! (2 * i + c) AND 1)
          in \<lparr>rTow0 = Minimum1 x (T iTabInd0) r, rTow1 = Minimum1 x (T (iTabInd0 OR 1)) r\<rparr>))"

text \<open>Other levels than 0, 1 and 2 cannot occur; the code prints a message and leaves the output as it is.\<close>

definition qam64_computemetrics ::
  "'f::linordered_field theSignal list \<Rightarrow> nat \<Rightarrow> nat \<Rightarrow> bool \<Rightarrow> u8 list \<Rightarrow> u8 list \<Rightarrow> u8 list
   \<Rightarrow> 'f metrics list \<Rightarrow> 'f metrics list" where
  "qam64_computemetrics sig amount iLevel retry level_0 level_1 level_2 old =
     (if 2 < iLevel then old else per_component amount (\<lambda>i c.
       let x = component (sig ! i) c; r = rTrans (sig ! i); T = (\<lambda>k :: u8. rTableQAM64SM ! unat k ! c);
           b0 = level_0 ! (2 * i + c) AND 1; b1 = level_1 ! (2 * i + c) AND 1; b2 = level_2 ! (2 * i + c) AND 1 in
       if iLevel = 0 \<and> \<not> retry then
         \<lparr>rTow0 = Minimum4 x (T 0) (T 1) (T 2) (T 3) r, rTow1 = Minimum4 x (T 4) (T 5) (T 6) (T 7) r\<rparr>
       else if iLevel = 1 \<and> \<not> retry then
         (let k0 = push_bit 2 b0; k1 = push_bit 2 b0 OR push_bit 1 1
          in \<lparr>rTow0 = Minimum2 x (T k0) (T (k0 OR 1)) r, rTow1 = Minimum2 x (T k1) (T (k1 OR 1)) r\<rparr>)
       else if iLevel = 2 then
         (let k = push_bit 2 b0 OR push_bit 1 b1
          in \<lparr>rTow0 = Minimum1 x (T k) r, rTow1 = Minimum1 x (T (k OR 1)) r\<rparr>)
       else if iLevel = 0 \<and> retry then
         (let k = b2 OR push_bit 1 b1
          in \<lparr>rTow0 = Minimum1 x (T k) r, rTow1 = Minimum1 x (T (k OR push_bit 2 1)) r\<rparr>)
       else
         (let k = push_bit 2 b0 OR b2
          in \<lparr>rTow0 = Minimum1 x (T k) r, rTow1 = Minimum1 x (T (k OR push_bit 1 1)) r\<rparr>)))"

section \<open>What the demodulators say of a clean signal\<close>

lemma length_per_component [length_simps, simp]: "length (per_component n f) = 2 * n"
  by (induction n) (simp_all add: per_component_def)

lemma nth_per_component: "i < n \<Longrightarrow> c < 2 \<Longrightarrow> per_component n f ! (2 * i + c) = f i c"
proof (induction n)
  case (Suc n)
  have "per_component (Suc n) f = per_component n f @ [f n 0, f n 1]" by (simp add: per_component_def)
  moreover have "c = 0 \<or> c = 1" using Suc.prems(2) by auto
  ultimately show ?case using Suc by (auto simp: nth_append less_Suc_eq)
qed simp

text \<open>A signal of clean cells: component \<open>c\<close> of cell \<open>i\<close> is the point with index \<open>idx (2 * i + c)\<close>.\<close>

definition clean :: "'f::linordered_field list list \<Rightarrow> (nat \<Rightarrow> nat) \<Rightarrow> 'f theSignal list \<Rightarrow> nat \<Rightarrow> bool" where
  "clean table idx sig amount \<longleftrightarrow> length sig = amount \<and>
     (\<forall>i < amount. 0 < rTrans (sig ! i) \<and> (\<forall>c < 2. component (sig ! i) c = table ! idx (2 * i + c) ! c))"

lemma metric_zero [simp]: "computeMetric 0 r = (0 :: 'f::linordered_field)"
  by (simp add: computeMetric_def)

lemma metric_pos: "(0 :: 'f::linordered_field) < d \<Longrightarrow> 0 < r \<Longrightarrow> 0 < computeMetric d r"
  by (simp add: computeMetric_def)

lemma Minimum1_zero: "Minimum1 x x r = (0 :: 'f::linordered_field)"
  and Minimum1_pos: "x \<noteq> (y :: 'f::linordered_field) \<Longrightarrow> 0 < r \<Longrightarrow> 0 < Minimum1 x y r"
  by (simp_all add: Minimum1_def metric_pos)

lemma Minimum2_zero: "x = y \<or> x = z \<Longrightarrow> Minimum2 x y z r = (0 :: 'f::linordered_field)"
  and Minimum2_pos: "x \<noteq> (y :: 'f::linordered_field) \<Longrightarrow> x \<noteq> z \<Longrightarrow> 0 < r \<Longrightarrow> 0 < Minimum2 x y z r"
  by (auto simp: Minimum2_def Let_def metric_pos)

lemma Minimum4_zero:
  "x = y1 \<or> x = y2 \<or> x = y3 \<or> x = y4 \<Longrightarrow> Minimum4 x y1 y2 y3 y4 r = (0 :: 'f::linordered_field)"
  by (auto simp: Minimum4_def Let_def)

lemma Minimum4_pos:
  "x \<noteq> (y1 :: 'f::linordered_field) \<Longrightarrow> x \<noteq> y2 \<Longrightarrow> x \<noteq> y3 \<Longrightarrow> x \<noteq> y4 \<Longrightarrow> 0 < r \<Longrightarrow> 0 < Minimum4 x y1 y2 y3 y4 r"
  by (auto simp: Minimum4_def Let_def metric_pos)

lemma receives_per_component:
  assumes "length sent = 2 * n" "\<And>i c. i < n \<Longrightarrow> c < 2 \<Longrightarrow> says (f i c) (sent ! (2 * i + c) \<noteq> 0)"
  shows "receives (per_component n f) sent"
  unfolding receives_def list_all2_conv_all_nth
proof (intro conjI allI impI)
  fix j assume "j < length (per_component n f)"
  then have "j div 2 < n" "j mod 2 < 2" "j = 2 * (j div 2) + j mod 2" by auto
  then show "says (per_component n f ! j) (sent ! j \<noteq> 0)"
    using assms(2) nth_per_component by metis
qed (use assms(1) in simp)

text \<open>The index of the constellation point for the bits of the levels, the first level the highest bit.\<close>

definition idx16 :: "u8 list \<Rightarrow> u8 list \<Rightarrow> nat \<Rightarrow> nat" where
  "idx16 y0 y1 j = 2 * unat (y0 ! j) + unat (y1 ! j)"

definition idx64 :: "u8 list \<Rightarrow> u8 list \<Rightarrow> u8 list \<Rightarrow> nat \<Rightarrow> nat" where
  "idx64 y0 y1 y2 j = 4 * unat (y0 ! j) + 2 * unat (y1 ! j) + unat (y2 ! j)"

lemmas minimum_facts = Minimum1_zero Minimum1_pos Minimum2_zero Minimum2_pos Minimum4_zero Minimum4_pos

text \<open>The points of a constellation are distinct; this is all the proofs use of the tables.\<close>

lemma distinct_points:
  "c < 2 \<Longrightarrow> distinct (map (\<lambda>r. r ! c) (rTableQAM4 :: 'f::linordered_field list list))"
  "c < 2 \<Longrightarrow> distinct (map (\<lambda>r. r ! c) (rTableQAM16 :: 'f::linordered_field list list))"
  "c < 2 \<Longrightarrow> distinct (map (\<lambda>r. r ! c) (rTableQAM64SM :: 'f::linordered_field list list))"
  by (auto simp: less_Suc_eq numeral_2_eq_2 rTableQAM4_def rTableQAM16_def rTableQAM64SM_def)

lemma point_eq:
  "c < 2 \<Longrightarrow> a < 2 \<Longrightarrow> b < 2 \<Longrightarrow> rTableQAM4 ! a ! c = (rTableQAM4 ! b ! c :: 'f::linordered_field) \<longleftrightarrow> a = b"
  "c < 2 \<Longrightarrow> a < 4 \<Longrightarrow> b < 4 \<Longrightarrow> rTableQAM16 ! a ! c = (rTableQAM16 ! b ! c :: 'f::linordered_field) \<longleftrightarrow> a = b"
  "c < 2 \<Longrightarrow> a < 8 \<Longrightarrow> b < 8 \<Longrightarrow> rTableQAM64SM ! a ! c = (rTableQAM64SM ! b ! c :: 'f::linordered_field) \<longleftrightarrow> a = b"
proof -
  have l: "length (rTableQAM4 :: 'f list list) = 2" "length (rTableQAM16 :: 'f list list) = 4"
    "length (rTableQAM64SM :: 'f list list) = 8"
    by (simp_all add: rTableQAM4_def rTableQAM16_def rTableQAM64SM_def)
  show "c < 2 \<Longrightarrow> a < 2 \<Longrightarrow> b < 2 \<Longrightarrow> rTableQAM4 ! a ! c = (rTableQAM4 ! b ! c :: 'f) \<longleftrightarrow> a = b"
    using nth_eq_iff_index_eq [OF distinct_points(1) [where 'f = 'f], of c a b] l by simp
  show "c < 2 \<Longrightarrow> a < 4 \<Longrightarrow> b < 4 \<Longrightarrow> rTableQAM16 ! a ! c = (rTableQAM16 ! b ! c :: 'f) \<longleftrightarrow> a = b"
    using nth_eq_iff_index_eq [OF distinct_points(2) [where 'f = 'f], of c a b] l by simp
  show "c < 2 \<Longrightarrow> a < 8 \<Longrightarrow> b < 8 \<Longrightarrow> rTableQAM64SM ! a ! c = (rTableQAM64SM ! b ! c :: 'f) \<longleftrightarrow> a = b"
    using nth_eq_iff_index_eq [OF distinct_points(3) [where 'f = 'f], of c a b] l by simp
qed

lemma cleanD:
  assumes "clean table idx sig n" "i < n" "c < 2"
  shows "component (sig ! i) c = table ! idx (2 * i + c) ! c" "0 < rTrans (sig ! i)"
  using assms by (auto simp: clean_def)

lemma bit_at: "bits y \<Longrightarrow> length y = 2 * n \<Longrightarrow> i < n \<Longrightarrow> c < 2 \<Longrightarrow> y ! (2 * i + c) = 0 \<or> y ! (2 * i + c) = 1"
  using bits_nth [of y "2 * i + c"] by (auto simp: is_bit_def)

lemma less_2_cases: "c < 2 \<longleftrightarrow> c = 0 \<or> c = (1 :: nat)"
  by auto

lemma qam4_receives:
  fixes sig :: "'f::linordered_field theSignal list"
  assumes "clean rTableQAM4 (\<lambda>j. unat (y ! j)) sig n" "bits y" "length y = 2 * n"
  shows "receives (qam4_computemetrics sig n) y"
  unfolding qam4_computemetrics_def
proof (rule receives_per_component [OF assms(3)])
  fix i c :: nat assume ic: "i < n" "c < 2"
  show "says (let x = component (sig ! i) c; r = rTrans (sig ! i)
      in \<lparr>rTow0 = Minimum1 x (rTableQAM4 ! 0 ! c) r, rTow1 = Minimum1 x (rTableQAM4 ! 1 ! c) r\<rparr>)
      (y ! (2 * i + c) \<noteq> 0)"
    using bit_at [OF assms(2,3) ic] ic(2) cleanD [OF assms(1) ic]
    by (elim disjE) (simp_all add: Let_def says_def point_eq minimum_facts)
qed

lemma qam16_receives_0:
  fixes sig :: "'f::linordered_field theSignal list"
  assumes "clean rTableQAM16 (idx16 y0 y1) sig n" "bits y0" "length y0 = 2 * n" "bits y1" "length y1 = 2 * n"
    "retry \<longrightarrow> l1 = y1"
  shows "receives (qam16_computemetrics sig n 0 retry l0 l1) y0"
  unfolding qam16_computemetrics_def
proof (rule receives_per_component [OF assms(3)], goal_cases)
  case (1 i c)
  then show ?case
    using bit_at [OF assms(2,3) 1] bit_at [OF assms(4,5) 1] 1(2) cleanD [OF assms(1) 1] assms(6)
    by (cases retry; elim disjE) (simp_all add: Let_def says_def point_eq idx16_def minimum_facts)
qed

lemma qam16_receives_1:
  fixes sig :: "'f::linordered_field theSignal list"
  assumes "clean rTableQAM16 (idx16 y0 y1) sig n" "bits y0" "length y0 = 2 * n" "bits y1" "length y1 = 2 * n"
  shows "receives (qam16_computemetrics sig n 1 True y0 l1) y1"
  unfolding qam16_computemetrics_def
proof (rule receives_per_component [OF assms(5)], goal_cases)
  case (1 i c)
  then show ?case
    using bit_at [OF assms(2,3) 1] bit_at [OF assms(4,5) 1] 1(2) cleanD [OF assms(1) 1]
    by (elim disjE) (simp_all add: Let_def says_def point_eq idx16_def minimum_facts)
qed

text \<open>One component of a 64-QAM cell, with the points as a function of the index.\<close>

definition pts64 :: "nat \<Rightarrow> u8 \<Rightarrow> 'f::linordered_field" where
  "pts64 c k = rTableQAM64SM ! unat k ! c"

lemma pts64_eq: "c < 2 \<Longrightarrow> a < 8 \<Longrightarrow> b < 8 \<Longrightarrow> (pts64 c a :: 'f::linordered_field) = pts64 c b \<longleftrightarrow> a = b"
  using point_eq(3) [of c "unat a" "unat b", where 'f = 'f]
  by (simp add: pts64_def word_less_nat_alt word_unat_eq_iff)

lemma pts64_numerals:
  "c < 2 \<Longrightarrow> list_all (\<lambda>a. list_all (\<lambda>b. (pts64 c a :: 'f::linordered_field) = pts64 c b \<longleftrightarrow> a = b)
    [0, 1, 2, 3, 4, 5, 6, 7]) [0, 1, 2, 3, 4, 5, 6, 7]"
  by (simp add: pts64_eq)

lemma cell64:
  fixes T :: "u8 \<Rightarrow> 'f::linordered_field"
  assumes T: "list_all (\<lambda>a. list_all (\<lambda>b. T a = T b \<longleftrightarrow> a = b) [0, 1, 2, 3, 4, 5, 6, 7]) [0, 1, 2, 3, 4, 5, 6, 7]"
    and b: "b0 = 0 \<or> b0 = 1" "b1 = 0 \<or> b1 = 1" "b2 = 0 \<or> b2 = 1"
    and x: "x = T (push_bit 2 b0 OR push_bit 1 b1 OR b2)" and r: "0 < r"
  shows "says \<lparr>rTow0 = Minimum4 x (T 0) (T 1) (T 2) (T 3) r, rTow1 = Minimum4 x (T 4) (T 5) (T 6) (T 7) r\<rparr> (b0 \<noteq> 0)"
    "says \<lparr>rTow0 = Minimum2 x (T (push_bit 2 b0)) (T (push_bit 2 b0 OR 1)) r,
      rTow1 = Minimum2 x (T (push_bit 2 b0 OR push_bit 1 1)) (T ((push_bit 2 b0 OR push_bit 1 1) OR 1)) r\<rparr> (b1 \<noteq> 0)"
    "says \<lparr>rTow0 = Minimum1 x (T (push_bit 2 b0 OR push_bit 1 b1)) r,
      rTow1 = Minimum1 x (T ((push_bit 2 b0 OR push_bit 1 b1) OR 1)) r\<rparr> (b2 \<noteq> 0)"
    "says \<lparr>rTow0 = Minimum1 x (T (b2 OR push_bit 1 b1)) r,
      rTow1 = Minimum1 x (T ((b2 OR push_bit 1 b1) OR push_bit 2 1)) r\<rparr> (b0 \<noteq> 0)"
    "says \<lparr>rTow0 = Minimum1 x (T (push_bit 2 b0 OR b2)) r,
      rTow1 = Minimum1 x (T ((push_bit 2 b0 OR b2) OR push_bit 1 1)) r\<rparr> (b1 \<noteq> 0)"
  using b T r unfolding x says_def
  by (elim disjE; simp add: minimum_facts)+

lemma clean64_point:
  fixes sig :: "'f::linordered_field theSignal list"
  assumes "clean rTableQAM64SM (idx64 y0 y1 y2) sig n" "i < n" "c < 2"
    "y0 ! (2 * i + c) = 0 \<or> y0 ! (2 * i + c) = 1" "y1 ! (2 * i + c) = 0 \<or> y1 ! (2 * i + c) = 1"
    "y2 ! (2 * i + c) = 0 \<or> y2 ! (2 * i + c) = 1"
  shows "component (sig ! i) c
    = pts64 c (push_bit 2 (y0 ! (2 * i + c)) OR push_bit 1 (y1 ! (2 * i + c)) OR y2 ! (2 * i + c))"
proof -
  have "unat (push_bit 2 b0 OR push_bit 1 b1 OR b2) = 4 * unat b0 + 2 * unat b1 + unat b2"
    if "b0 = 0 \<or> b0 = 1" "b1 = 0 \<or> b1 = 1" "b2 = 0 \<or> b2 = 1" for b0 b1 b2 :: u8
    using that by (elim disjE) simp_all
  then show ?thesis
    using cleanD(1) [OF assms(1-3)] assms(4-6) by (simp only: pts64_def idx64_def)
qed

lemma and_1_bit: "x = 0 \<or> x = 1 \<Longrightarrow> x AND 1 = (x :: u8)"
  by auto

text \<open>What the three levels get, in the first round and later ones.\<close>

lemma qam64_receives:
  fixes sig :: "'f::linordered_field theSignal list"
  assumes "clean rTableQAM64SM (idx64 y0 y1 y2) sig n" "bits y0" "length y0 = 2 * n" "bits y1" "length y1 = 2 * n"
    "bits y2" "length y2 = 2 * n"
  shows "receives (qam64_computemetrics sig n 0 False l0 l1 l2 old) y0"
    "receives (qam64_computemetrics sig n 0 True l0 y1 y2 old) y0"
    "receives (qam64_computemetrics sig n 1 False y0 l1 l2 old) y1"
    "receives (qam64_computemetrics sig n 1 True y0 l1 y2 old) y1"
    "receives (qam64_computemetrics sig n 2 retry y0 y1 l2 old) y2"
proof -
  have cell: "says \<lparr>rTow0 = Minimum4 x (T 0) (T 1) (T 2) (T 3) r, rTow1 = Minimum4 x (T 4) (T 5) (T 6) (T 7) r\<rparr> (b0 \<noteq> 0)"
    "says \<lparr>rTow0 = Minimum2 x (T (push_bit 2 b0)) (T (push_bit 2 b0 OR 1)) r,
      rTow1 = Minimum2 x (T (push_bit 2 b0 OR push_bit 1 1)) (T ((push_bit 2 b0 OR push_bit 1 1) OR 1)) r\<rparr> (b1 \<noteq> 0)"
    "says \<lparr>rTow0 = Minimum1 x (T (push_bit 2 b0 OR push_bit 1 b1)) r,
      rTow1 = Minimum1 x (T ((push_bit 2 b0 OR push_bit 1 b1) OR 1)) r\<rparr> (b2 \<noteq> 0)"
    "says \<lparr>rTow0 = Minimum1 x (T (b2 OR push_bit 1 b1)) r,
      rTow1 = Minimum1 x (T ((b2 OR push_bit 1 b1) OR push_bit 2 1)) r\<rparr> (b0 \<noteq> 0)"
    "says \<lparr>rTow0 = Minimum1 x (T (push_bit 2 b0 OR b2)) r,
      rTow1 = Minimum1 x (T ((push_bit 2 b0 OR b2) OR push_bit 1 1)) r\<rparr> (b1 \<noteq> 0)"
    "b0 AND 1 = b0" "b1 AND 1 = b1" "b2 AND 1 = b2"
    if "i < n" "c < 2" "x = component (sig ! i) c" "r = rTrans (sig ! i)" "T = pts64 c"
      "b0 = y0 ! (2 * i + c)" "b1 = y1 ! (2 * i + c)" "b2 = y2 ! (2 * i + c)"
    for i c x r and T :: "u8 \<Rightarrow> 'f" and b0 b1 b2
  proof -
    note b = bit_at [OF assms(2,3) that(1,2)] bit_at [OF assms(4,5) that(1,2)] bit_at [OF assms(6,7) that(1,2)]
    note cl = cell64 [OF pts64_numerals [OF that(2)] b clean64_point [OF assms(1) that(1,2) b] cleanD(2) [OF assms(1) that(1,2)]]
    show "says \<lparr>rTow0 = Minimum4 x (T 0) (T 1) (T 2) (T 3) r, rTow1 = Minimum4 x (T 4) (T 5) (T 6) (T 7) r\<rparr> (b0 \<noteq> 0)"
      unfolding that(3-8) by (rule cl)
    show "says \<lparr>rTow0 = Minimum2 x (T (push_bit 2 b0)) (T (push_bit 2 b0 OR 1)) r,
      rTow1 = Minimum2 x (T (push_bit 2 b0 OR push_bit 1 1)) (T ((push_bit 2 b0 OR push_bit 1 1) OR 1)) r\<rparr> (b1 \<noteq> 0)"
      unfolding that(3-8) by (rule cl)
    show "says \<lparr>rTow0 = Minimum1 x (T (push_bit 2 b0 OR push_bit 1 b1)) r,
      rTow1 = Minimum1 x (T ((push_bit 2 b0 OR push_bit 1 b1) OR 1)) r\<rparr> (b2 \<noteq> 0)"
      unfolding that(3-8) by (rule cl)
    show "says \<lparr>rTow0 = Minimum1 x (T (b2 OR push_bit 1 b1)) r,
      rTow1 = Minimum1 x (T ((b2 OR push_bit 1 b1) OR push_bit 2 1)) r\<rparr> (b0 \<noteq> 0)"
      unfolding that(3-8) by (rule cl)
    show "says \<lparr>rTow0 = Minimum1 x (T (push_bit 2 b0 OR b2)) r,
      rTow1 = Minimum1 x (T ((push_bit 2 b0 OR b2) OR push_bit 1 1)) r\<rparr> (b1 \<noteq> 0)"
      unfolding that(3-8) by (rule cl)
    show "b0 AND 1 = b0" "b1 AND 1 = b1" "b2 AND 1 = b2"
      unfolding that(6-8) using b by (simp_all add: and_1_bit)
  qed
  note at = cell [OF _ _ refl refl refl refl refl refl]
  have n: "\<not> (2 :: nat) < 0" "\<not> (2 :: nat) < 1" "\<not> (2 :: nat) < 2" "(0 :: nat) \<noteq> 1" "(1 :: nat) \<noteq> 0"
    "(2 :: nat) \<noteq> 0" "(2 :: nat) \<noteq> 1" "(0 :: nat) \<noteq> 2" "(1 :: nat) \<noteq> 2" by simp_all
  note unf = qam64_computemetrics_def Let_def pts64_def [symmetric] n if_True if_False simp_thms not_True_eq_False
  show "receives (qam64_computemetrics sig n 0 False l0 l1 l2 old) y0"
    by (simp only: unf, rule receives_per_component [OF assms(3)], rule at)
  show "receives (qam64_computemetrics sig n 0 True l0 y1 y2 old) y0"
    by (simp only: unf, rule receives_per_component [OF assms(3)], simp only: at(6-8), rule at)
  show "receives (qam64_computemetrics sig n 1 False y0 l1 l2 old) y1"
    by (simp only: unf, rule receives_per_component [OF assms(5)], simp only: at(6-8), rule at)
  show "receives (qam64_computemetrics sig n 1 True y0 l1 y2 old) y1"
    by (simp only: unf, rule receives_per_component [OF assms(5)], simp only: at(6-8), rule at)
  show "receives (qam64_computemetrics sig n 2 retry y0 y1 l2 old) y2"
    by (simp only: unf, rule receives_per_component [OF assms(7)], simp only: at(6-8), rule at)
qed

text \<open>A clean signal.\<close>

definition clean_signal :: "'f::linordered_field list list \<Rightarrow> (nat \<Rightarrow> nat) \<Rightarrow> nat \<Rightarrow> 'f theSignal list" where
  "clean_signal table idx amount = map (\<lambda>i. \<lparr>sig_re = table ! idx (2 * i) ! 0, sig_im = table ! idx (2 * i + 1) ! 1,
     rTrans = 1\<rparr>) [0 ..< amount]"

lemma length_clean_signal [length_simps, simp]: "length (clean_signal table idx n) = n"
  by (simp add: clean_signal_def)

lemma clean_clean_signal: "clean table idx (clean_signal table idx n) n"
  by (auto simp: clean_def clean_signal_def component_def less_2_cases)

section \<open>Properties\<close>

text \<open>
  C26. Soft demodulation. On cells that are points of the constellation with positive channel weights,
  the metrics of every level name the bits of that level as free of cost and the opposite ones as
  costly: for QAM-4, for both levels of QAM-16 and for the three levels of QAM-64, in the first round,
  where higher levels are not known yet, and in the later ones, where they are.
\<close>

theorem soft_demodulation_clean:
  fixes v4 v16 v64 :: "'f::linordered_field theSignal list"
  assumes "bits y0" "length y0 = 2 * n" "bits y1" "length y1 = 2 * n" "bits y2" "length y2 = 2 * n"
    "clean rTableQAM4 (\<lambda>j. unat (y0 ! j)) v4 n" "clean rTableQAM16 (idx16 y0 y1) v16 n"
    "clean rTableQAM64SM (idx64 y0 y1 y2) v64 n"
  shows "receives (qam4_computemetrics v4 n) y0
    \<and> receives (qam16_computemetrics v16 n 0 False l0 l1) y0
    \<and> receives (qam16_computemetrics v16 n 0 True l0 y1) y0
    \<and> receives (qam16_computemetrics v16 n 1 True y0 l1) y1
    \<and> receives (qam64_computemetrics v64 n 0 False l0 l1 l2 old) y0
    \<and> receives (qam64_computemetrics v64 n 0 True l0 y1 y2 old) y0
    \<and> receives (qam64_computemetrics v64 n 1 False y0 l1 l2 old) y1
    \<and> receives (qam64_computemetrics v64 n 1 True y0 l1 y2 old) y1
    \<and> receives (qam64_computemetrics v64 n 2 True y0 y1 l2 old) y2"
  by (intro conjI qam4_receives [OF assms(7,1,2)] qam16_receives_0 [OF assms(8,1-4)]
      qam16_receives_1 [OF assms(8,1-4)] qam64_receives [OF assms(9,1-6)]) simp_all

theorem soft_demodulation_clean_witness:
  "let y0 = [1, 0]; y1 = [0, 1]; y2 = [1, 1];
       cell = (\<lambda>(table :: rat list list) idx. [\<lparr>sig_re = table ! idx 0 ! 0, sig_im = table ! idx 1 ! 1, rTrans = 1\<rparr>]);
       v4 = cell rTableQAM4 (\<lambda>j. unat (y0 ! j)); v16 = cell rTableQAM16 (idx16 y0 y1);
       v64 = cell rTableQAM64SM (idx64 y0 y1 y2)
   in receives (qam4_computemetrics v4 1) y0
    \<and> receives (qam16_computemetrics v16 1 0 False [0, 0] [0, 0]) y0
    \<and> receives (qam16_computemetrics v16 1 0 True [0, 0] y1) y0
    \<and> receives (qam16_computemetrics v16 1 1 True y0 [0, 0]) y1
    \<and> receives (qam64_computemetrics v64 1 0 False [0, 0] [0, 0] [0, 0] []) y0
    \<and> receives (qam64_computemetrics v64 1 0 True [0, 0] y1 y2 []) y0
    \<and> receives (qam64_computemetrics v64 1 1 False y0 [0, 0] [0, 0] []) y1
    \<and> receives (qam64_computemetrics v64 1 1 True y0 [0, 0] y2 []) y1
    \<and> receives (qam64_computemetrics v64 1 2 True y0 y1 [0, 0] []) y2"
  unfolding Let_def
  by (rule soft_demodulation_clean) (auto simp: clean_def component_def less_2_cases onebit is_bit_def)

end
