(* ===== verification/DrmMsc.thy ===== *)
theory DrmMsc
  imports DrmMetrics DrmMscStreamer DrmPrbs
begin

text \<open>
  The multilevel MSC handlers of the standard mapping (\<open>msc/msc-handler-qam64.cpp\<close>,
  \<open>msc/msc-handler-qam16.cpp\<close>): the sizes of the two protected parts, the rounds of demodulation
  and decoding in which the levels feed each other, and the assembly of the multiplex frame. The
  modulation error ratio that is only displayed is left out.
\<close>

section \<open>The sizes\<close>

text \<open>\<open>denom\<close>: the float sum of the rates of the levels, times \<open>2 * RYlcm\<close>.\<close>

definition rate_sum :: "(nat \<times> nat) list \<Rightarrow> rat" where
  "rate_sum rates = foldl (\<lambda>denom (RX, RY). f32 (denom + f32 (of_nat RX / of_nat RY))) 0 rates"

definition denom_64 :: "nat \<Rightarrow> rat" where
  "denom_64 prot = f32 (rate_sum (map (protLevel_qam64 prot) [0 ..< 3]) * of_nat (2 * getRYlcm_64 prot))"

definition denom_16 :: "nat \<Rightarrow> rat" where
  "denom_16 prot = f32 (rate_sum (map (protLevel_qam16 prot) [0 ..< 2]) * of_nat (2 * getRYlcm_16 prot))"

text \<open>The number of cells of the higher protected part for \<open>lengthA\<close> bytes.\<close>

definition high_cells_64 :: "int \<Rightarrow> nat \<Rightarrow> int" where
  "high_cells_64 lengthA prot =
     to_int16 (to_int16 \<lceil>f64 (of_int (8 * lengthA) / denom_64 prot)\<rceil> * int (getRYlcm_64 prot))"

definition high_cells_16 :: "int \<Rightarrow> nat \<Rightarrow> int" where
  "high_cells_16 lengthA prot =
     to_int16 (\<lceil>f64 (of_int (8 * lengthA) / denom_16 prot)\<rceil> * int (getRYlcm_16 prot))"

text \<open>The float sums are exact: twice the least common multiple times the sum of the rates.\<close>

definition group_bits_64 :: "nat \<Rightarrow> int" where
  "group_bits_64 prot = (if prot = 0 then 12 else if prot = 1 then 54 else if prot = 2 then 34 else 212)"

definition group_bits_16 :: "nat \<Rightarrow> int" where
  "group_bits_16 prot = (if prot = 0 then 6 else 10)"

text \<open>The rounded quotients and sums that are not exact.\<close>

lemma rounded_rates:
  "f32 (1 / 3) = 11184811 / 33554432" "f32 (2 / 3) = 11184811 / 16777216"
  "f32 (4 / 5) = 13421773 / 16777216" "f32 (8 / 9) = 14913081 / 16777216"
  using rnd_eq [of "- 2" "1 / 3" 24 11184811] rnd_eq [of "- 1" "2 / 3" 24 11184811]
    rnd_eq [of "- 1" "4 / 5" 24 13421773] rnd_eq [of "- 1" "8 / 9" 24 14913081]
  by (simp_all add: power_int_def power_divide)

lemma rounded_sums:
  "f32 (11184811 / 33554432) = 11184811 / 33554432" "f32 (33554433 / 33554432) = 1"
  "f32 (30198989 / 16777216) = 7549747 / 4194304" "f32 (113246205 / 2097152) = 54"
  "f32 (11184811 / 16777216) = 11184811 / 16777216" "f32 (3075823 / 2097152) = 3075823 / 2097152"
  "f32 (39519665 / 16777216) = 2469979 / 1048576" "f32 (111149055 / 524288) = 212" "f32 6 = 6"
  using rnd_eq [of "- 2" "11184811 / 33554432" 24 11184811] rnd_eq [of 0 "33554433 / 33554432" 24 8388608]
    rnd_eq [of 0 "30198989 / 16777216" 24 15099494] rnd_eq [of 5 "113246205 / 2097152" 24 14155776]
    rnd_eq [of "- 1" "11184811 / 16777216" 24 11184811] rnd_eq [of 0 "3075823 / 2097152" 24 12303292]
    rnd_eq [of 1 "39519665 / 16777216" 24 9879916] rnd_eq [of 7 "111149055 / 524288" 24 13893632]
    rnd_eq [of 2 6 24 12582912]
  by (simp_all add: power_int_def power_divide)

lemma denom_thirds: "denom_64 1 = 54" "denom_64 3 = 212" "denom_16 0 = 6"
  by (simp_all add: rounded_rates rounded_sums denom_64_def denom_16_def rate_sum_def upt_rec protLevel_qam64.simps protLevel_qam16.simps
      getRYlcm_64.simps getRYlcm_16.simps)

lemma denom_powers: "denom_64 0 = 12" "denom_64 2 = 34" "denom_16 1 = 10"
  by code_simp+

lemma denom_exact:
  "prot \<le> 3 \<Longrightarrow> denom_64 prot = of_int (group_bits_64 prot)" "prot \<le> 1 \<Longrightarrow> denom_16 prot = of_int (group_bits_16 prot)"
  using denom_thirds denom_powers by (auto simp: group_bits_64_def group_bits_16_def le_Suc_eq numeral_3_eq_3)

text \<open>The rounded quotient has the ceiling of the exact one.\<close>

lemma ceiling_quotient:
  assumes "0 < a" "a < 2 ^ 20" "0 < D" "D < 256"
  shows "\<lceil>f64 (of_int a / of_int D)\<rceil> = (a + D - 1) div D"
proof -
  define k where "k = (a + D - 1) div D"
  have k1: "a \<le> k * D" "k * D < a + D"
  proof -
    have "a + D - 1 = D * k + (a + D - 1) mod D" by (simp add: k_def)
    moreover have "0 \<le> (a + D - 1) mod D" "(a + D - 1) mod D < D" using assms(3) by simp_all
    ultimately show "a \<le> k * D" "k * D < a + D" by (simp_all add: mult.commute)
  qed
  have kpos: "0 < k" using k1(1) assms(1,3) by (metis less_le_trans zero_less_mult_pos2)
  have "k \<le> k * D" using kpos assms(3) by simp
  then have kbound: "k < 2 ^ 21" using k1(2) assms(2,4) by simp
  have Dr: "(0 :: rat) < of_int D" using assms(3) by simp
  have x: "(0 :: rat) < of_int a / of_int D" using assms by simp
  have up: "of_int a / of_int D \<le> (of_int k :: rat)"
    using k1(1) Dr by (simp add: pos_divide_le_eq flip: of_int_mult)
  have fk: "f64 (of_int k) = of_int k" by (rule rnd_int [OF kpos]) (use kbound in simp)
  have hi: "f64 (of_int a / of_int D) \<le> of_int k" using rnd_mono [OF x up, of 53] fk by simp
  have lo: "of_int (k - 1) < f64 (of_int a / of_int D)"
  proof -
    have "(k - 1) * D + 1 \<le> a" using k1(2) by (simp add: algebra_simps)
    then have "of_int ((k - 1) * D + 1) \<le> (of_int a :: rat)" by (simp only: of_int_le_iff)
    moreover have "(of_int D :: rat) < 256" using assms(4) by simp
    ultimately have "(of_int (k - 1) + 1 / 256) * of_int D \<le> (of_int a :: rat)" by (simp add: algebra_simps)
    then have m: "of_int (k - 1) + 1 / 256 \<le> of_int a / (of_int D :: rat)" using Dr by (simp add: pos_le_divide_eq)
    have e: "f64 (of_int (k - 1) + 1 / 256) = of_int (k - 1) + 1 / 256"
      by (rule rnd_exact [of "256 * (k - 1) + 1" 53 _ "-8"])
        (use kpos kbound in \<open>simp_all add: power_int_minus field_simps\<close>)
    have "(0 :: rat) < of_int (k - 1) + 1 / 256" using kpos by simp
    from rnd_mono [OF this m, of 53] e show ?thesis by simp
  qed
  show ?thesis using hi lo unfolding k_def [symmetric] by (intro ceiling_unique) simp_all
qed

text \<open>So the higher protected part has the least number of whole groups that holds \<open>lengthA\<close> bytes.\<close>

lemma high_cells_eq:
  assumes "0 < n" "n \<le> 4000"
  shows "prot \<le> 3 \<Longrightarrow> high_cells_64 n prot = ((8 * n + group_bits_64 prot - 1) div group_bits_64 prot) * int (getRYlcm_64 prot)"
    "prot \<le> 1 \<Longrightarrow> high_cells_16 n prot = ((8 * n + group_bits_16 prot - 1) div group_bits_16 prot) * int (getRYlcm_16 prot)"
proof -
  have a: "0 < 8 * n" "8 * n < 2 ^ 20" using assms by simp_all
  { assume prot: "prot \<le> 3"
    let ?D = "group_bits_64 prot"
    have D: "0 < ?D" "?D < 256" by (simp_all add: group_bits_64_def)
    let ?q = "(8 * n + ?D - 1) div ?D"
    have q: "\<lceil>f64 (of_int (8 * n) / denom_64 prot)\<rceil> = ?q"
      unfolding denom_exact(1) [OF prot] by (rule ceiling_quotient [OF a D])
    have b: "0 \<le> ?q" "?q * int (getRYlcm_64 prot) < 2 ^ 15" "?q < 2 ^ 15"
      using assms prot by (auto simp: group_bits_64_def getRYlcm_64.simps le_Suc_eq numeral_3_eq_3)
    show "high_cells_64 n prot = ?q * int (getRYlcm_64 prot)"
      using b unfolding high_cells_64_def q by (simp add: to_int16_nonneg) }
  { assume prot: "prot \<le> 1"
    let ?D = "group_bits_16 prot"
    have D: "0 < ?D" "?D < 256" by (simp_all add: group_bits_16_def)
    let ?q = "(8 * n + ?D - 1) div ?D"
    have q: "\<lceil>f64 (of_int (8 * n) / denom_16 prot)\<rceil> = ?q"
      unfolding denom_exact(2) [OF prot] by (rule ceiling_quotient [OF a D])
    have b: "0 \<le> ?q" "?q * int (getRYlcm_16 prot) < 2 ^ 15"
      using assms prot by (auto simp: group_bits_16_def getRYlcm_16.simps le_Suc_eq)
    show "high_cells_16 n prot = ?q * int (getRYlcm_16 prot)"
      using b unfolding high_cells_16_def q by (simp add: to_int16_nonneg) }
qed

section \<open>The handlers\<close>

text \<open>The sums of the lengths of the streams, in 16 bits.\<close>

definition length_sum :: "(stream_desc \<Rightarrow> int) \<Rightarrow> stateDescriptor \<Rightarrow> int" where
  "length_sum f st = foldl (\<lambda>l d. to_int16 (l + f d)) 0 (take (numofStreams st) (streams st))"

text \<open>The two interleavers of a part; with the null pointers of an empty part as \<open>None\<close>.\<close>

type_synonym part_mappers = "int list option \<times> int list option"

definition new_mappers :: "int \<Rightarrow> part_mappers option" where
  "new_mappers cells =
     (case (mapper (2 * cells) 13, mapper (2 * cells) 21) of
        (Some Y13, Some Y21) \<Rightarrow> Some (Some Y13, Some Y21) | _ \<Rightarrow> None)"

record QAM_handler =
  muxCells :: nat
  lengthA :: int
  lengthB :: int
  level_streams :: "MSC_streamer list"

definition high_sum :: "MSC_streamer list \<Rightarrow> nat" where
  "high_sum ss = sum_list (map highProtectedbits ss)"

definition low_sum :: "MSC_streamer list \<Rightarrow> nat" where
  "low_sum ss = sum_list (map lowProtectedbits ss)"

text \<open>
  The constructors; \<open>None\<close> where a mapper or a streamer cannot be built. The QAM-64 handler gives its
  first level no mappers. It puts the sums of the lengths into 16-bit numbers, and the vector that gets the bits of a
  frame cannot be made where these have become negative.
\<close>

definition new_QAM64_SM_Handler :: "stateDescriptor \<Rightarrow> QAM_handler option" where
  "new_QAM64_SM_Handler st =
     (let lA = length_sum lengthHigh st; lB = length_sum lengthLow st;
          N1 = (if lA \<noteq> 0 then high_cells_64 lA (protLevelA st) else 0)
      in case (if lA \<noteq> 0 then new_mappers N1 else Some (None, None)) of None \<Rightarrow> None | Some (Y13h, Y21h) \<Rightarrow>
      (case new_mappers (muxSize st - N1) of None \<Rightarrow> None | Some (Y13l, Y21l) \<Rightarrow>
        (case (new_MSC_streamer st 0 (nat N1) None None, new_MSC_streamer st 1 (nat N1) Y13h Y13l,
               new_MSC_streamer st 2 (nat N1) Y21h Y21l) of
           (Some s0, Some s1, Some s2) \<Rightarrow>
             if to_int16 (int (high_sum [s0, s1, s2])) + to_int16 (int (low_sum [s0, s1, s2])) < 0 then None
             else Some \<lparr>muxCells = nat (muxSize st), lengthA = lA, lengthB = lB, level_streams = [s0, s1, s2]\<rparr>
         | _ \<Rightarrow> None)))"

definition new_QAM16_SM_Handler :: "stateDescriptor \<Rightarrow> QAM_handler option" where
  "new_QAM16_SM_Handler st =
     (let lA = length_sum lengthHigh st; lB = length_sum lengthLow st;
          N1 = (if lA \<noteq> 0 then high_cells_16 lA (protLevelA st) else 0)
      in case (if lA \<noteq> 0 then new_mappers N1 else Some (None, None)) of None \<Rightarrow> None | Some (Y13h, Y21h) \<Rightarrow>
      (case new_mappers (muxSize st - N1) of None \<Rightarrow> None | Some (Y13l, Y21l) \<Rightarrow>
        (case (new_MSC_streamer st 0 (nat N1) Y13h Y13l, new_MSC_streamer st 1 (nat N1) Y21h Y21l) of
           (Some s0, Some s1) \<Rightarrow>
             Some \<lparr>muxCells = nat (muxSize st), lengthA = lA, lengthB = lB, level_streams = [s0, s1]\<rparr>
         | _ \<Rightarrow> None)))"

text \<open>
  The rounds: what the levels were found to be in one round (\<open>level_0\<close> ..) guides the next
  demodulation. A round returns the decoded bits and the levels.
\<close>

definition qam64_round :: "'f::linordered_field \<Rightarrow> QAM_handler \<Rightarrow> 'f theSignal list \<Rightarrow> bool
   \<Rightarrow> u8 list \<times> u8 list \<times> u8 list \<Rightarrow> ((u8 list \<times> u8 list \<times> u8 list) \<times> (u8 list \<times> u8 list \<times> u8 list)) option" where
  "qam64_round imax h v retry levels =
     (let (level_0, level_1, level_2) = levels
      in do { let Y0 = qam64_computemetrics v (muxCells h) 0 retry level_0 level_1 level_2 [];
              (bits_0, level_0) \<leftarrow> msc_process imax (level_streams h ! 0) Y0;
              let Y1 = qam64_computemetrics v (muxCells h) 1 retry level_0 level_1 level_2 [];
              (bits_1, level_1) \<leftarrow> msc_process imax (level_streams h ! 1) Y1;
              let Y2 = qam64_computemetrics v (muxCells h) 2 True level_0 level_1 level_2 [];
              (bits_2, level_2) \<leftarrow> msc_process imax (level_streams h ! 2) Y2;
              Some ((bits_0, bits_1, bits_2), (level_0, level_1, level_2)) })"

definition qam16_round :: "'f::linordered_field \<Rightarrow> QAM_handler \<Rightarrow> 'f theSignal list \<Rightarrow> bool
   \<Rightarrow> u8 list \<times> u8 list \<Rightarrow> ((u8 list \<times> u8 list) \<times> (u8 list \<times> u8 list)) option" where
  "qam16_round imax h v retry levels =
     (let (level_0, level_1) = levels
      in do { let Y0 = qam16_computemetrics v (muxCells h) 0 retry level_0 level_1;
              (bits_0, level_0) \<leftarrow> msc_process imax (level_streams h ! 0) Y0;
              let Y1 = qam16_computemetrics v (muxCells h) 1 True level_0 level_1;
              (bits_1, level_1) \<leftarrow> msc_process imax (level_streams h ! 1) Y1;
              Some ((bits_0, bits_1), (level_0, level_1)) })"

text \<open>The big move: the higher protected bits of the levels, then the lower protected bits.\<close>

definition move_64 :: "QAM_handler \<Rightarrow> u8 list \<times> u8 list \<times> u8 list \<Rightarrow> u8 list" where
  "move_64 h b =
     (let (bits_0, bits_1, bits_2) = b; s = level_streams h; H = (\<lambda>k. highProtectedbits (s ! k));
          L = (\<lambda>k. lowProtectedbits (s ! k))
      in take (H 0) bits_0 @ take (H 1) bits_1 @ take (H 2) bits_2
         @ take (L 0) (drop (H 0) bits_0) @ take (L 1) (drop (H 1) bits_1) @ take (L 2) (drop (H 2) bits_2))"

text \<open>The QAM-16 handler takes the lower bits of level 1 at the offset of level 0.\<close>

definition move_16 :: "QAM_handler \<Rightarrow> u8 list \<times> u8 list \<Rightarrow> u8 list" where
  "move_16 h b =
     (let (bits_0, bits_1) = b; s = level_streams h; H = (\<lambda>k. highProtectedbits (s ! k));
          L = (\<lambda>k. lowProtectedbits (s ! k))
      in take (H 0) bits_0 @ take (H 1) bits_1
         @ take (L 0) (drop (H 0) bits_0) @ take (L 1) (drop (H 0) bits_1))"

text \<open>
  The end of \<open>process\<close>: dispersal of the whole vector and the copy of the payload. The vector has as many entries as
  the levels have bits: there is no result where a level does not have the bits that are moved, where the dispersal
  does not end, and where the payload (in bits) is negative or longer than the vector.
\<close>

definition payload_bits :: "QAM_handler \<Rightarrow> int" where
  "payload_bits h = (lengthA h + lengthB h) * 8"

definition frame_out :: "QAM_handler \<Rightarrow> u8 list \<Rightarrow> u8 list option" where
  "frame_out h bitsOut =
     (let n = high_sum (level_streams h) + low_sum (level_streams h)
      in if length bitsOut \<noteq> n \<or> payload_bits h < 0 \<or> int n < payload_bits h then None
         else do { b \<leftarrow> doPRBS n bitsOut; Some (take (nat (payload_bits h)) b) })"

text \<open>
  \<open>process\<close>: \<open>mem\<close> is what the buffers for the decoded bits and the levels hold before.
\<close>

definition process_64 :: "'f::linordered_field \<Rightarrow> QAM_handler \<Rightarrow> nat
   \<Rightarrow> (u8 list \<times> u8 list \<times> u8 list) \<times> (u8 list \<times> u8 list \<times> u8 list) \<Rightarrow> 'f theSignal list \<Rightarrow> u8 list option" where
  "process_64 imax h qam64Roulette mem v =
     do { (b, levels) \<leftarrow> foldl (\<lambda>r i. do { (b, levels) \<leftarrow> r; qam64_round imax h v (0 < i) levels }) (Some mem) [0 ..< qam64Roulette];
          frame_out h (move_64 h b) }"

definition process_16 :: "'f::linordered_field \<Rightarrow> QAM_handler
   \<Rightarrow> (u8 list \<times> u8 list) \<times> (u8 list \<times> u8 list) \<Rightarrow> 'f theSignal list \<Rightarrow> u8 list option" where
  "process_16 imax h mem v =
     do { (b, levels) \<leftarrow> foldl (\<lambda>r i. do { (b, levels) \<leftarrow> r; qam16_round imax h v (0 < i) levels }) (Some mem) [0 ..< 4];
          frame_out h (move_16 h b) }"

section \<open>What the constructors establish\<close>

definition stream_ok :: "nat \<Rightarrow> MSC_streamer \<Rightarrow> bool" where
  "stream_ok n s \<longleftrightarrow> msc_ok s \<and> mappers_ok s \<and> cells_1 s + cells_2 s = n \<and> resolve_steps (RX_Low s) \<le> lowProtectedbits s"

lemma resolve_low:
  assumes "(RX, RY) \<in> set code_rates" "33 \<le> n"
  shows "resolve_steps RX \<le> RX * ((2 * n - 12) div RY)"
proof -
  have RY: "0 < RY" "RY \<le> 9" using assms(1) by (auto simp: code_rates_def)
  have "6 * RY \<le> 2 * n - 12" using RY assms(2) by simp
  then have "6 \<le> (2 * n - 12) div RY" using RY(1) by (simp add: less_eq_div_iff_mult_less_eq)
  then have "RX * 6 \<le> RX * ((2 * n - 12) div RY)" by (rule mult_left_mono) simp
  moreover have "resolve_steps RX \<le> RX * 6" using assms(1) by (auto simp: code_rates_def resolve_steps_def)
  ultimately show ?thesis by (rule le_trans [rotated])
qed

text \<open>No level has more bits than its cells carry.\<close>

lemma level_bits_bound:
  assumes "(RXH, RYH) \<in> set code_rates" "(RXL, RYL) \<in> set code_rates" "N1 < 2 ^ 14"
  shows "high_bits N1 RXH RYH + RXL * ((2 * N2 - 12) div RYL) \<le> 2 * N1 + (2 * N2 - 12)"
proof -
  have "RXL \<le> RYL" using assms(2) by (auto simp: code_rates_def)
  then have "RXL * ((2 * N2 - 12) div RYL) \<le> RYL * ((2 * N2 - 12) div RYL)" by (rule mult_le_mono1)
  also have "\<dots> \<le> 2 * N2 - 12" by (rule times_div_less_eq_dividend)
  finally show ?thesis using high_bits_le [OF assms(1,3)] by simp
qed

lemma new_MSC_streamer_bits:
  assumes "new_MSC_streamer st nr N1 hp lp = Some s" "N1 < 2 ^ 14"
  shows "int (highProtectedbits s + lowProtectedbits s) \<le> 2 * muxSize st - 12"
    "lowProtectedbits s = fst (protLevel_for st (protLevelB st) nr)
      * ((2 * nat (muxSize st - int N1) - 12) div snd (protLevel_for st (protLevelB st) nr))"
proof -
  obtain RXH RYH RXL RYL where l: "protLevel_for st (protLevelA st) nr = (RXH, RYH)"
      "protLevel_for st (protLevelB st) nr = (RXL, RYL)" by fastforce
  have "(RXH, RYH) \<in> set code_rates" "(RXL, RYL) \<in> set code_rates" using protLevel_for_rates l by metis+
  note b = level_bits_bound [OF this assms(2), of "nat (muxSize st - int N1)"]
  have n: "6 \<le> muxSize st - int N1" and s: "highProtectedbits s = high_bits N1 RXH RYH"
    "lowProtectedbits s = RXL * ((2 * nat (muxSize st - int N1) - 12) div RYL)"
    using assms(1) by (auto simp: new_MSC_streamer_def Let_def l split: if_splits option.splits)
  have "int (2 * N1 + (2 * nat (muxSize st - int N1) - 12)) = 2 * muxSize st - 12" using n by (simp add: of_nat_diff)
  then show "int (highProtectedbits s + lowProtectedbits s) \<le> 2 * muxSize st - 12" unfolding s using b by linarith
  show "lowProtectedbits s = fst (protLevel_for st (protLevelB st) nr)
      * ((2 * nat (muxSize st - int N1) - 12) div snd (protLevel_for st (protLevelB st) nr))"
    by (simp add: s l)
qed

lemma new_MSC_streamer_resolves:
  assumes "new_MSC_streamer st nr N1 hp lp = Some s" "33 \<le> muxSize st - int N1"
  shows "resolve_steps (RX_Low s) \<le> lowProtectedbits s"
proof -
  obtain RXL RYL where l: "protLevel_for st (protLevelB st) nr = (RXL, RYL)" by fastforce
  have "(RXL, RYL) \<in> set code_rates" using protLevel_for_rates l by metis
  from resolve_low [OF this, of "nat (muxSize st - int N1)"] assms l show ?thesis
    by (auto simp: new_MSC_streamer_def Let_def split: if_splits option.splits prod.splits)
qed

lemma new_mappers_some:
  assumes "new_mappers cells = Some (Y13, Y21)" "3 \<le> cells" "cells \<le> 2 ^ 13"
  shows "case Y13 of None \<Rightarrow> True | Some t \<Rightarrow> cell_permutation (mapIn t) (nat (2 * cells))"
    "case Y21 of None \<Rightarrow> True | Some t \<Rightarrow> cell_permutation (mapIn t) (nat (2 * cells))"
proof -
  have "cell_permutation (mapIn (the (mapper (2 * cells) t0))) (nat (2 * cells))" if "t0 \<in> {13, 21}" for t0
    using the_mapper_permutation [of t0 "nat (2 * cells)"] that assms(2,3) by auto
  then show "case Y13 of None \<Rightarrow> True | Some t \<Rightarrow> cell_permutation (mapIn t) (nat (2 * cells))"
    "case Y21 of None \<Rightarrow> True | Some t \<Rightarrow> cell_permutation (mapIn t) (nat (2 * cells))"
    using assms(1) by (force simp: new_mappers_def split: option.splits)+
qed

lemma new_stream:
  assumes "new_MSC_streamer st nr (nat N1) hp lp = Some s" "0 \<le> N1" "33 \<le> muxSize st - N1" "muxSize st \<le> 2 ^ 13"
    "snd (protLevel_for st (protLevelA st) nr) dvd nat N1"
    "case hp of None \<Rightarrow> True | Some t \<Rightarrow> cell_permutation (mapIn t) (nat (2 * N1))"
    "case lp of None \<Rightarrow> True | Some t \<Rightarrow> cell_permutation (mapIn t) (nat (2 * (muxSize st - N1)))"
  shows "stream_ok (nat (muxSize st)) s"
    "int (highProtectedbits s) = int (fst (protLevel_for st (protLevelA st) nr))
      * (2 * N1 div int (snd (protLevel_for st (protLevelA st) nr)))"
proof -
  have small: "nat N1 < 2 ^ 14" using assms(2-4) by simp
  note f = new_MSC_streamer_ok [OF assms(1) small assms(5)]
  have c: "nat (2 * N1) = 2 * cells_1 s" "nat (2 * (muxSize st - N1)) = 2 * cells_2 s"
    "cells_1 s + cells_2 s = nat (muxSize st)"
    using f(2,3) assms(2,3) by simp_all
  have "resolve_steps (RX_Low s) \<le> lowProtectedbits s"
    by (rule new_MSC_streamer_resolves [OF assms(1)]) (use assms(2,3) in simp)
  moreover have "part_fits (hpMapper s) (2 * cells_1 s)" "part_fits (lpMapper s) (2 * cells_2 s)"
    using c(3) assms(4) by (auto simp: part_fits_def)
  ultimately show "stream_ok (nat (muxSize st)) s"
    using f(1,4,5) c(3) assms(6,7) unfolding c(1,2) by (simp add: stream_ok_def mappers_ok_def)
  show "int (highProtectedbits s) = int (fst (protLevel_for st (protLevelA st) nr))
      * (2 * N1 div int (snd (protLevel_for st (protLevelA st) nr)))"
    using f(6) assms(2) by (simp add: zdiv_int)
qed

text \<open>The cells of the higher protected part: none without data, else whole groups.\<close>

lemma high_cells_groups:
  assumes "0 \<le> n" "n \<le> 4000"
  shows "prot \<le> 3 \<Longrightarrow> \<exists>g. (if n \<noteq> 0 then high_cells_64 n prot else 0) = int (g * getRYlcm_64 prot)
      \<and> 8 * n \<le> int g * group_bits_64 prot \<and> int g * group_bits_64 prot < 8 * n + group_bits_64 prot"
    "prot \<le> 1 \<Longrightarrow> \<exists>g. (if n \<noteq> 0 then high_cells_16 n prot else 0) = int (g * getRYlcm_16 prot)
      \<and> 8 * n \<le> int g * group_bits_16 prot \<and> int g * group_bits_16 prot < 8 * n + group_bits_16 prot"
proof -
  have q: "0 \<le> (8 * n + D - 1) div D" "8 * n \<le> (8 * n + D - 1) div D * D" "(8 * n + D - 1) div D * D < 8 * n + D"
    if "0 < D" for D
  proof -
    show "0 \<le> (8 * n + D - 1) div D" using that assms(1) by (simp add: pos_imp_zdiv_nonneg_iff)
    have "8 * n + D - 1 = (8 * n + D - 1) div D * D + (8 * n + D - 1) mod D" by simp
    moreover have "0 \<le> (8 * n + D - 1) mod D" "(8 * n + D - 1) mod D < D" using that by simp_all
    ultimately show "8 * n \<le> (8 * n + D - 1) div D * D" "(8 * n + D - 1) div D * D < 8 * n + D" by linarith+
  qed
  have D: "0 < group_bits_64 prot" "0 < group_bits_16 prot" by (simp_all add: group_bits_64_def group_bits_16_def)
  show "\<exists>g. (if n \<noteq> 0 then high_cells_64 n prot else 0) = int (g * getRYlcm_64 prot)
      \<and> 8 * n \<le> int g * group_bits_64 prot \<and> int g * group_bits_64 prot < 8 * n + group_bits_64 prot" if "prot \<le> 3"
  proof (cases "n = 0")
    case True
    then show ?thesis using D by (intro exI [of _ 0]) simp
  next
    case False
    then show ?thesis
      using q [OF D(1)] high_cells_eq(1) [OF _ assms(2) that] assms(1)
      by (intro exI [of _ "nat ((8 * n + group_bits_64 prot - 1) div group_bits_64 prot)"]) simp
  qed
  show "\<exists>g. (if n \<noteq> 0 then high_cells_16 n prot else 0) = int (g * getRYlcm_16 prot)
      \<and> 8 * n \<le> int g * group_bits_16 prot \<and> int g * group_bits_16 prot < 8 * n + group_bits_16 prot" if "prot \<le> 1"
  proof (cases "n = 0")
    case True
    then show ?thesis using D by (intro exI [of _ 0]) simp
  next
    case False
    then show ?thesis
      using q [OF D(2)] high_cells_eq(2) [OF _ assms(2) that] assms(1)
      by (intro exI [of _ "nat ((8 * n + group_bits_16 prot - 1) div group_bits_16 prot)"]) simp
  qed
qed

lemma cells_2_eq: "new_MSC_streamer st nr N1 hp lp = Some s \<Longrightarrow> int (cells_2 s) = muxSize st - int N1"
  by (auto simp: new_MSC_streamer_def Let_def split: if_splits option.splits prod.splits)

lemma new_QAM64_ok:
  assumes "new_QAM64_SM_Handler st = Some h" "QAMMode st \<noteq> QAM16" "protLevelA st \<le> 3"
    "0 \<le> lengthA h" "lengthA h \<le> 4000" "muxSize st \<le> 2 ^ 13" "33 \<le> cells_2 (level_streams h ! 0)"
  shows "list_all (stream_ok (muxCells h)) (level_streams h)" "length (level_streams h) = 3"
    "muxCells h = nat (muxSize st)" "8 * lengthA h \<le> int (high_sum (level_streams h))"
    "int (high_sum (level_streams h)) < 8 * lengthA h + group_bits_64 (protLevelA st)"
proof -
  let ?p = "protLevelA st"
  define lA where "lA = length_sum lengthHigh st"
  define N1 where "N1 = (if lA \<noteq> 0 then high_cells_64 lA ?p else 0)"
  obtain Y13h Y21h Y13l Y21l s0 s1 s2 where
    hm: "(if lA \<noteq> 0 then new_mappers N1 else Some (None, None)) = Some (Y13h, Y21h)"
    and lm: "new_mappers (muxSize st - N1) = Some (Y13l, Y21l)"
    and s0: "new_MSC_streamer st 0 (nat N1) None None = Some s0"
    and s1: "new_MSC_streamer st 1 (nat N1) Y13h Y13l = Some s1"
    and s2: "new_MSC_streamer st 2 (nat N1) Y21h Y21l = Some s2"
    and h: "muxCells h = nat (muxSize st)" "lengthA h = lA" "level_streams h = [s0, s1, s2]"
    using assms(1) unfolding new_QAM64_SM_Handler_def Let_def lA_def [symmetric] N1_def [symmetric]
    by (auto split: option.splits prod.splits if_splits)
  obtain g where g: "N1 = int (g * getRYlcm_64 ?p)" "8 * lA \<le> int g * group_bits_64 ?p"
      "int g * group_bits_64 ?p < 8 * lA + group_bits_64 ?p"
    using high_cells_groups(1) [of lA, OF _ _ assms(3)] assms(4,5) h(2) N1_def by auto
  have N1: "0 \<le> N1" using g(1) by simp
  have rest: "33 \<le> muxSize st - N1" using cells_2_eq [OF s0] assms(7) h(3) N1 by simp
  have rates: "protLevel_for st ?p = protLevel_qam64 ?p" using assms(2) by (simp add: protLevel_for_def fun_eq_iff)
  have dv: "snd (protLevel_for st ?p nr) dvd nat N1" for nr
    unfolding rates g(1) nat_int by (rule dvd_mult [OF protLevel_lcm(2) [OF assms(3)]])
  have hc: "case m of None \<Rightarrow> True | Some t \<Rightarrow> cell_permutation (mapIn t) (nat (2 * N1))" if "m = Y13h \<or> m = Y21h" for m
  proof (cases "lA = 0")
    case False
    have "g \<noteq> 0" using False g(2) assms(4) h(2) by (intro notI) simp
    then have "3 \<le> N1" using g(1) assms(3) by (auto simp: getRYlcm_64.simps)
    then show ?thesis using new_mappers_some [of N1 Y13h Y21h] hm that False rest assms(6) by auto
  qed (use hm that in auto)
  have lc: "case m of None \<Rightarrow> True | Some t \<Rightarrow> cell_permutation (mapIn t) (nat (2 * (muxSize st - N1)))"
    if "m = Y13l \<or> m = Y21l" for m
    using new_mappers_some [OF lm] that rest assms(6) N1 by auto
  note n0 = new_stream [OF s0 N1 rest assms(6) dv] and n1 = new_stream [OF s1 N1 rest assms(6) dv hc lc]
    and n2 = new_stream [OF s2 N1 rest assms(6) dv hc lc]
  show "list_all (stream_ok (muxCells h)) (level_streams h)" using n0(1) n1(1) n2(1) h by simp
  show "length (level_streams h) = 3" "muxCells h = nat (muxSize st)" using h by simp_all
  have "int (high_sum (level_streams h)) = int g * group_bits_64 ?p"
    using n0(2) n1(2) n2(2) assms(3) unfolding rates g(1)
    by (auto simp: h(3) high_sum_def protLevel_qam64.simps getRYlcm_64.simps group_bits_64_def le_Suc_eq numeral_3_eq_3)
  then show "8 * lengthA h \<le> int (high_sum (level_streams h))"
    "int (high_sum (level_streams h)) < 8 * lengthA h + group_bits_64 ?p"
    using g(2,3) h(2) by simp_all
qed

lemma new_QAM16_ok:
  assumes "new_QAM16_SM_Handler st = Some h" "QAMMode st = QAM16" "protLevelA st \<le> 1"
    "0 \<le> lengthA h" "lengthA h \<le> 4000" "muxSize st \<le> 2 ^ 13" "33 \<le> cells_2 (level_streams h ! 0)"
  shows "list_all (stream_ok (muxCells h)) (level_streams h)" "length (level_streams h) = 2"
    "muxCells h = nat (muxSize st)" "8 * lengthA h \<le> int (high_sum (level_streams h))"
    "int (high_sum (level_streams h)) < 8 * lengthA h + group_bits_16 (protLevelA st)"
    "high_sum (level_streams h) + low_sum (level_streams h) < 2 ^ 15"
    "highProtectedbits (level_streams h ! 0) \<le> highProtectedbits (level_streams h ! 1)"
proof -
  let ?p = "protLevelA st"
  define lA where "lA = length_sum lengthHigh st"
  define N1 where "N1 = (if lA \<noteq> 0 then high_cells_16 lA ?p else 0)"
  obtain Y13h Y21h Y13l Y21l s0 s1 where
    hm: "(if lA \<noteq> 0 then new_mappers N1 else Some (None, None)) = Some (Y13h, Y21h)"
    and lm: "new_mappers (muxSize st - N1) = Some (Y13l, Y21l)"
    and s0: "new_MSC_streamer st 0 (nat N1) Y13h Y13l = Some s0"
    and s1: "new_MSC_streamer st 1 (nat N1) Y21h Y21l = Some s1"
    and h: "muxCells h = nat (muxSize st)" "lengthA h = lA" "level_streams h = [s0, s1]"
    using assms(1) unfolding new_QAM16_SM_Handler_def Let_def lA_def [symmetric] N1_def [symmetric]
    by (auto split: option.splits prod.splits)
  obtain g where g: "N1 = int (g * getRYlcm_16 ?p)" "8 * lA \<le> int g * group_bits_16 ?p"
      "int g * group_bits_16 ?p < 8 * lA + group_bits_16 ?p"
    using high_cells_groups(2) [of lA, OF _ _ assms(3)] assms(4,5) h(2) N1_def by auto
  have N1: "0 \<le> N1" using g(1) by simp
  have rest: "33 \<le> muxSize st - N1" using cells_2_eq [OF s0] assms(7) h(3) N1 by simp
  have rates: "protLevel_for st ?p = protLevel_qam16 ?p" using assms(2) by (simp add: protLevel_for_def fun_eq_iff)
  have dv: "snd (protLevel_for st ?p nr) dvd nat N1" for nr
    unfolding rates g(1) nat_int by (rule dvd_mult [OF protLevel_lcm(1) [OF assms(3)]])
  have hc: "case m of None \<Rightarrow> True | Some t \<Rightarrow> cell_permutation (mapIn t) (nat (2 * N1))" if "m = Y13h \<or> m = Y21h" for m
  proof (cases "lA = 0")
    case False
    have "g \<noteq> 0" using False g(2) assms(4) h(2) by (intro notI) simp
    then have "3 \<le> N1" using g(1) assms(3) by (auto simp: getRYlcm_16.simps)
    then show ?thesis using new_mappers_some [of N1 Y13h Y21h] hm that False rest assms(6) by auto
  qed (use hm that in auto)
  have lc: "case m of None \<Rightarrow> True | Some t \<Rightarrow> cell_permutation (mapIn t) (nat (2 * (muxSize st - N1)))"
    if "m = Y13l \<or> m = Y21l" for m
    using new_mappers_some [OF lm] that rest assms(6) N1 by auto
  note n0 = new_stream [OF s0 N1 rest assms(6) dv hc lc] and n1 = new_stream [OF s1 N1 rest assms(6) dv hc lc]
  show "highProtectedbits (level_streams h ! 0) \<le> highProtectedbits (level_streams h ! 1)"
    using n0(2) n1(2) assms(3) unfolding rates g(1)
    by (auto simp: h(3) protLevel_qam16.simps getRYlcm_16.simps le_Suc_eq)
  have "nat N1 < 2 ^ 14" using N1 rest assms(6) by simp
  note b0 = new_MSC_streamer_bits(1) [OF s0 this] and b1 = new_MSC_streamer_bits(1) [OF s1 this]
  show "high_sum (level_streams h) + low_sum (level_streams h) < 2 ^ 15"
    using b0 b1 assms(6) by (simp add: h(3) high_sum_def low_sum_def)
  show "list_all (stream_ok (muxCells h)) (level_streams h)" using n0(1) n1(1) h by simp
  show "length (level_streams h) = 2" "muxCells h = nat (muxSize st)" using h by simp_all
  have "int (high_sum (level_streams h)) = int g * group_bits_16 ?p"
    using n0(2) n1(2) assms(3) unfolding rates g(1)
    by (auto simp: h(3) high_sum_def protLevel_qam16.simps getRYlcm_16.simps group_bits_16_def le_Suc_eq)
  then show "8 * lengthA h \<le> int (high_sum (level_streams h))"
    "int (high_sum (level_streams h)) < 8 * lengthA h + group_bits_16 ?p"
    using g(2,3) h(2) by simp_all
qed

section \<open>Decoding\<close>

text \<open>One stream of a handler gets its bits back from metrics that say what was sent.\<close>

lemma stream_decodes:
  fixes imax :: "'f::linordered_idom"
  assumes "stream_ok n s" "bits x" "length x = highProtectedbits s + lowProtectedbits s" "0 < imax"
  shows "receives ms (msc_reencode s x) \<Longrightarrow> msc_process imax s ms = Some (x, msc_reencode s x)"
    "length (msc_reencode s x) = 2 * n" "bits (msc_reencode s x)"
proof -
  show "msc_process imax s ms = Some (x, msc_reencode s x)" if "receives ms (msc_reencode s x)"
    using msc_process_noise_free(1) [of s x imax ms] assms that by (simp add: stream_ok_def)
  have "receives (map makeMetrics (msc_reencode s x) :: rat metrics list) (msc_reencode s x)"
    by (rule receives_makeMetrics)
  then have "length (msc_reencode s x) = 2 * cells_1 s + 2 * cells_2 s"
    using msc_process_noise_free(2) [of s x "1 :: rat" "map makeMetrics (msc_reencode s x)"] assms(1-3)
    unfolding stream_ok_def by (metis zero_less_one)
  then show "length (msc_reencode s x) = 2 * n" using assms(1) unfolding stream_ok_def by (metis distrib_left)
  show "bits (msc_reencode s x)" using bits_msc_reencode [of s x] assms(1-3) by (simp add: stream_ok_def)
qed

text \<open>One round, from a clean signal: the first one from any levels, the later ones from the right ones.\<close>

lemma qam64_round_decodes:
  fixes imax :: "'f::linordered_field"
  assumes h: "level_streams h = [s0, s1, s2]" "stream_ok (muxCells h) s0" "stream_ok (muxCells h) s1" "stream_ok (muxCells h) s2"
    and x: "bits x0" "length x0 = highProtectedbits s0 + lowProtectedbits s0"
      "bits x1" "length x1 = highProtectedbits s1 + lowProtectedbits s1"
      "bits x2" "length x2 = highProtectedbits s2 + lowProtectedbits s2"
    and y: "y0 = msc_reencode s0 x0" "y1 = msc_reencode s1 x1" "y2 = msc_reencode s2 x2"
    and c: "clean rTableQAM64SM (idx64 y0 y1 y2) v (muxCells h)" "0 < imax"
  shows "qam64_round imax h v False levels = Some ((x0, x1, x2), (y0, y1, y2))"
    "qam64_round imax h v True (y0, y1, y2) = Some ((x0, x1, x2), (y0, y1, y2))"
proof -
  note d0 = stream_decodes [OF h(2) x(1,2), where imax = imax, folded y(1)]
    and d1 = stream_decodes [OF h(3) x(3,4), where imax = imax, folded y(2)]
    and d2 = stream_decodes [OF h(4) x(5,6), where imax = imax, folded y(3)]
  note r = qam64_receives [OF c(1) d0(3) d0(2) d1(3) d1(2) d2(3) d2(2), OF c(2) c(2) c(2) c(2) c(2) c(2)]
  show "qam64_round imax h v True (y0, y1, y2) = Some ((x0, x1, x2), (y0, y1, y2))"
    using d0(1) [OF c(2) r(2)] d1(1) [OF c(2) r(4)] d2(1) [OF c(2) r(5)]
    by (simp add: qam64_round_def h(1) Let_def)
  obtain l0 l1 l2 where l: "levels = (l0, l1, l2)" by (metis prod.collapse)
  show "qam64_round imax h v False levels = Some ((x0, x1, x2), (y0, y1, y2))"
    using d0(1) [OF c(2) r(1)] d1(1) [OF c(2) r(3)] d2(1) [OF c(2) r(5)]
    by (simp add: qam64_round_def h(1) l Let_def)
qed

lemma qam16_round_decodes:
  fixes imax :: "'f::linordered_field"
  assumes h: "level_streams h = [s0, s1]" "stream_ok (muxCells h) s0" "stream_ok (muxCells h) s1"
    and x: "bits x0" "length x0 = highProtectedbits s0 + lowProtectedbits s0"
      "bits x1" "length x1 = highProtectedbits s1 + lowProtectedbits s1"
    and y: "y0 = msc_reencode s0 x0" "y1 = msc_reencode s1 x1"
    and c: "clean rTableQAM16 (idx16 y0 y1) v (muxCells h)" "0 < imax"
  shows "qam16_round imax h v False levels = Some ((x0, x1), (y0, y1))"
    "qam16_round imax h v True (y0, y1) = Some ((x0, x1), (y0, y1))"
proof -
  note d0 = stream_decodes [OF h(2) x(1,2), where imax = imax, folded y(1)]
    and d1 = stream_decodes [OF h(3) x(3,4), where imax = imax, folded y(2)]
  note b = d0(3) [OF c(2)] d0(2) [OF c(2)] d1(3) [OF c(2)] d1(2) [OF c(2)]
  note r0 = qam16_receives_0 [OF c(1) b] and r1 = qam16_receives_1 [OF c(1) b]
  show "qam16_round imax h v True (y0, y1) = Some ((x0, x1), (y0, y1))"
    using d0(1) [OF c(2) r0, of True y1] d1(1) [OF c(2) r1]
    by (simp add: qam16_round_def h(1) Let_def)
  obtain l0 l1 where l: "levels = (l0, l1)" by (metis prod.collapse)
  show "qam16_round imax h v False levels = Some ((x0, x1), (y0, y1))"
    using d0(1) [OF c(2) r0, of False l1] d1(1) [OF c(2) r1]
    by (simp add: qam16_round_def h(1) l Let_def)
qed

text \<open>The bits of level \<open>k\<close> in a frame laid out as the big move expects it.\<close>

definition level_bits :: "QAM_handler \<Rightarrow> u8 list \<Rightarrow> nat \<Rightarrow> u8 list" where
  "level_bits h f k =
     (let ss = level_streams h
      in take (highProtectedbits (ss ! k)) (drop (high_sum (take k ss)) f)
         @ take (lowProtectedbits (ss ! k)) (drop (high_sum ss + low_sum (take k ss)) f))"

text \<open>What the sender maps to the cells for the frame \<open>f\<close>, on level \<open>k\<close>.\<close>

definition level_sent :: "QAM_handler \<Rightarrow> u8 list \<Rightarrow> nat \<Rightarrow> u8 list" where
  "level_sent h f k = msc_reencode (level_streams h ! k) (level_bits h (disperse (length f) f) k)"

lemma length_level_bits:
  assumes "length f = high_sum (level_streams h) + low_sum (level_streams h)" "k < length (level_streams h)"
  shows "length (level_bits h f k) = highProtectedbits (level_streams h ! k) + lowProtectedbits (level_streams h ! k)"
proof -
  let ?ss = "level_streams h"
  have s: "?ss = take k ?ss @ ?ss ! k # drop (Suc k) ?ss" using assms(2) by (rule id_take_nth_drop)
  have "high_sum ?ss = high_sum (take k ?ss) + highProtectedbits (?ss ! k) + high_sum (drop (Suc k) ?ss)"
    "low_sum ?ss = low_sum (take k ?ss) + lowProtectedbits (?ss ! k) + low_sum (drop (Suc k) ?ss)"
    by (subst (1) s, simp add: high_sum_def low_sum_def)+
  then show ?thesis using assms(1) by (simp add: level_bits_def Let_def)
qed

lemma bits_level_bits: "bits f \<Longrightarrow> bits (level_bits h f k)"
  by (simp add: level_bits_def Let_def onebit)

lemma drop_take_append: "drop a f = take b (drop a f) @ drop (a + b) f"
  by (metis append_take_drop_id drop_drop add.commute)

lemma move_64_level_bits:
  assumes "level_streams h = [s0, s1, s2]" "length f = high_sum (level_streams h) + low_sum (level_streams h)"
  shows "move_64 h (level_bits h f 0, level_bits h f 1, level_bits h f 2) = f"
proof -
  let ?H0 = "highProtectedbits s0" and ?H1 = "highProtectedbits s1" and ?H2 = "highProtectedbits s2"
  let ?L0 = "lowProtectedbits s0" and ?L1 = "lowProtectedbits s1" and ?L2 = "lowProtectedbits s2"
  have len: "length f = ?H0 + (?H1 + ?H2) + (?L0 + (?L1 + ?L2))" using assms by (simp add: high_sum_def low_sum_def)
  have f: "f = take ?H0 f @ take ?H1 (drop ?H0 f) @ take ?H2 (drop (?H0 + ?H1) f)
      @ take ?L0 (drop (?H0 + ?H1 + ?H2) f) @ take ?L1 (drop (?H0 + ?H1 + ?H2 + ?L0) f)
      @ drop (?H0 + ?H1 + ?H2 + ?L0 + ?L1) f"
    by (metis append_take_drop_id drop_take_append)
  have last: "drop (?H0 + ?H1 + ?H2 + ?L0 + ?L1) f = take ?L2 (drop (?H0 + ?H1 + ?H2 + ?L0 + ?L1) f)"
    using len by simp
  show ?thesis
    unfolding move_64_def level_bits_def Let_def assms(1) high_sum_def low_sum_def
    using len f last by (simp add: add.assoc)
qed

text \<open>
  For QAM-16 the last block is right only where both levels have the same number of higher protected
  bits, or where it is not used.
\<close>

lemma move_16_level_bits:
  assumes "level_streams h = [s0, s1]" "length f = high_sum (level_streams h) + low_sum (level_streams h)"
  shows "take (high_sum (level_streams h) + lowProtectedbits s0) (move_16 h (level_bits h f 0, level_bits h f 1))
      = take (high_sum (level_streams h) + lowProtectedbits s0) f"
    "highProtectedbits s0 = highProtectedbits s1 \<Longrightarrow> move_16 h (level_bits h f 0, level_bits h f 1) = f"
proof -
  let ?H0 = "highProtectedbits s0" and ?H1 = "highProtectedbits s1"
  let ?L0 = "lowProtectedbits s0" and ?L1 = "lowProtectedbits s1"
  have len: "length f = ?H0 + ?H1 + (?L0 + ?L1)" using assms by (simp add: high_sum_def low_sum_def)
  have f: "f = take ?H0 f @ take ?H1 (drop ?H0 f) @ take ?L0 (drop (?H0 + ?H1) f) @ drop (?H0 + ?H1 + ?L0) f"
    by (metis append_take_drop_id drop_take_append)
  have p: "take (?H0 + ?H1 + ?L0) f = take ?H0 f @ take ?H1 (drop ?H0 f) @ take ?L0 (drop (?H0 + ?H1) f)"
    by (simp add: take_add)
  show "take (high_sum (level_streams h) + ?L0) (move_16 h (level_bits h f 0, level_bits h f 1))
      = take (high_sum (level_streams h) + ?L0) f"
    unfolding move_16_def level_bits_def Let_def assms(1) high_sum_def low_sum_def
    using len by (simp add: p)
  have last: "drop (?H0 + ?H1 + ?L0) f = take ?L1 (drop (?H0 + ?H1 + ?L0) f)"
    using len by simp
  show "move_16 h (level_bits h f 0, level_bits h f 1) = f" if "?H0 = ?H1"
    unfolding move_16_def level_bits_def Let_def assms(1) high_sum_def low_sum_def
    using len f last that by (simp add: add.assoc)
qed

lemma frame_out_disperse:
  assumes "length f = high_sum (level_streams h) + low_sum (level_streams h)"
  shows "frame_out h (disperse (length f) f) = (if length f < 2 ^ 15 \<and> 0 \<le> payload_bits h \<and> payload_bits h \<le> int (length f)
    then Some (take (nat (payload_bits h)) f) else None)"
  by (auto simp: frame_out_def Let_def assms [symmetric] doPRBS_disperse prbs_scrambler.scramble_scramble)

lemma frame_out_length: "frame_out h x = Some b \<Longrightarrow> length b = nat (payload_bits h)"
  by (auto simp: frame_out_def Let_def doPRBS_disperse split: if_splits)

lemma length_move_16:
  assumes "level_streams h = [s0, s1]" "highProtectedbits s0 \<le> highProtectedbits s1"
    "length b0 = highProtectedbits s0 + lowProtectedbits s0" "length b1 = highProtectedbits s1 + lowProtectedbits s1"
  shows "length (move_16 h (b0, b1)) = high_sum (level_streams h) + low_sum (level_streams h)"
  using assms by (simp add: move_16_def Let_def high_sum_def low_sum_def)

lemma process_64_decodes:
  fixes imax :: "'f::linordered_field"
  assumes "list_all (stream_ok (muxCells h)) (level_streams h)" "length (level_streams h) = 3"
    "bits f" "length f = high_sum (level_streams h) + low_sum (level_streams h)"
    "clean rTableQAM64SM (idx64 (level_sent h f 0) (level_sent h f 1) (level_sent h f 2)) v (muxCells h)"
    "0 < imax" "0 < roulette"
  shows "process_64 imax h roulette mem v = (if length f < 2 ^ 15 \<and> 0 \<le> payload_bits h \<and> payload_bits h \<le> int (length f)
    then Some (take (nat (payload_bits h)) f) else None)"
proof -
  obtain s0 s1 s2 where s: "level_streams h = [s0, s1, s2]"
    using assms(2) by (auto simp: numeral_3_eq_3 length_Suc_conv)
  let ?g = "disperse (length f) f"
  have g: "bits ?g" "length ?g = high_sum (level_streams h) + low_sum (level_streams h)"
    using assms(3,4) by (simp_all add: prbs_scrambler.scramble_bits)
  have ok: "stream_ok (muxCells h) s0" "stream_ok (muxCells h) s1" "stream_ok (muxCells h) s2"
    using assms(1) s by simp_all
  note l = length_level_bits [OF g(2), of 0] length_level_bits [OF g(2), of 1] length_level_bits [OF g(2), of 2]
  note r = qam64_round_decodes [OF s ok bits_level_bits [OF g(1), of h 0] _ bits_level_bits [OF g(1), of h 1] _
      bits_level_bits [OF g(1), of h 2] _ refl refl refl, of v imax]
  have "foldl (\<lambda>r i. do { (b, levels) \<leftarrow> r; qam64_round imax h v (0 < i) levels }) (Some mem) [0 ..< roulette]
    = Some ((level_bits h ?g 0, level_bits h ?g 1, level_bits h ?g 2), (level_sent h f 0, level_sent h f 1, level_sent h f 2))"
    by (rule rounds_fixed [OF _ _ assms(7)]) (use r l s assms(5,6) in \<open>simp_all add: level_sent_def\<close>)
  then show ?thesis
    using move_64_level_bits [OF s g(2)] frame_out_disperse [OF assms(4)]
    by (simp add: process_64_def)
qed

lemma process_16_decodes:
  fixes imax :: "'f::linordered_field"
  assumes "list_all (stream_ok (muxCells h)) (level_streams h)" "length (level_streams h) = 2"
    "bits f" "length f = high_sum (level_streams h) + low_sum (level_streams h)"
    "clean rTableQAM16 (idx16 (level_sent h f 0) (level_sent h f 1)) v (muxCells h)" "0 < imax"
  shows "process_16 imax h mem v
    = frame_out h (move_16 h (level_bits h (disperse (length f) f) 0, level_bits h (disperse (length f) f) 1))"
proof -
  obtain s0 s1 where s: "level_streams h = [s0, s1]"
    using assms(2) by (auto simp: numeral_2_eq_2 length_Suc_conv)
  let ?g = "disperse (length f) f"
  have g: "bits ?g" "length ?g = high_sum (level_streams h) + low_sum (level_streams h)"
    using assms(3,4) by (simp_all add: prbs_scrambler.scramble_bits)
  have ok: "stream_ok (muxCells h) s0" "stream_ok (muxCells h) s1" using assms(1) s by simp_all
  note l = length_level_bits [OF g(2), of 0] length_level_bits [OF g(2), of 1]
  note r = qam16_round_decodes [OF s ok bits_level_bits [OF g(1), of h 0] _ bits_level_bits [OF g(1), of h 1] _
      refl refl, of v imax]
  have "foldl (\<lambda>r i. do { (b, levels) \<leftarrow> r; qam16_round imax h v (0 < i) levels }) (Some mem) [0 ..< 4]
    = Some ((level_bits h ?g 0, level_bits h ?g 1), (level_sent h f 0, level_sent h f 1))"
    by (rule rounds_fixed) (use r l s assms(5,6) in \<open>simp_all add: level_sent_def\<close>)
  then show ?thesis by (simp add: process_16_def del: upt_Suc)
qed

lemma new_mappers_exists:
  assumes "3 \<le> cells" "cells \<le> 2 ^ 13"
  shows "\<exists>Y13 Y21. new_mappers cells = Some (Y13, Y21)"
proof -
  have c: "2 * cells = int (nat (2 * cells))" "5 \<le> nat (2 * cells)" "nat (2 * cells) \<le> 2 ^ 14" using assms by simp_all
  obtain a where "mapper (int (nat (2 * cells))) 13 = Some a"
    by (rule mapper_cell_permutation [of 13, OF _ c(2,3)]) simp_all
  moreover obtain b where "mapper (int (nat (2 * cells))) 21 = Some b"
    by (rule mapper_cell_permutation [of 21, OF _ c(2,3)]) simp_all
  ultimately have "mapper (2 * cells) 13 = Some a" "mapper (2 * cells) 21 = Some b" by (simp_all only: c(1) [symmetric])
  then show ?thesis by (simp only: new_mappers_def prod.case option.case) blast
qed

lemma new_MSC_streamer_exists:
  assumes "6 \<le> muxSize st - int N1" "muxSize st \<le> 2 ^ 13"
  shows "\<exists>s. new_MSC_streamer st nr N1 hp lp = Some s"
proof -
  obtain RXH RYH RXL RYL where l: "protLevel_for st (protLevelA st) nr = (RXH, RYH)"
      "protLevel_for st (protLevelB st) nr = (RXL, RYL)" by fastforce
  have r: "(RXH, RYH) \<in> set code_rates" "(RXL, RYL) \<in> set code_rates" using protLevel_for_rates l by metis+
  have n: "6 \<le> nat (muxSize st - int N1)" "N1 < 2 ^ 14" using assms by simp_all
  have "viterbi_fits (high_bits N1 RXH RYH + RXL * ((2 * nat (muxSize st - int N1) - 12) div RYL))"
    using level_bits_bound [OF r n(2), of "nat (muxSize st - int N1)"] n(1) assms by (simp add: viterbi_fits_def)
  then show ?thesis
    using assms getResiduTable_some(1) [OF n(1) good_rateD(2,3) [OF r(2)]] by (simp add: new_MSC_streamer_def l Let_def)
qed

text \<open>The sums of the lengths of the three levels, in the sizes of the multiplexes there are.\<close>

lemma high_sum_64:
  assumes "new_MSC_streamer st 0 N1 a0 b0 = Some s0" "new_MSC_streamer st 1 N1 a1 b1 = Some s1"
    "new_MSC_streamer st 2 N1 a2 b2 = Some s2" "QAMMode st \<noteq> QAM16" "protLevelA st \<le> 3"
    "N1 = g * getRYlcm_64 (protLevelA st)" "N1 < 2 ^ 14"
  shows "int (high_sum [s0, s1, s2]) = int g * group_bits_64 (protLevelA st)"
proof -
  have rates: "protLevel_for st (protLevelA st) = protLevel_qam64 (protLevelA st)"
    using assms(4) by (simp add: protLevel_for_def fun_eq_iff)
  have "snd (protLevel_for st (protLevelA st) nr) dvd N1" for nr
    unfolding rates assms(6) by (rule dvd_mult [OF protLevel_lcm(2) [OF assms(5)]])
  note h = new_MSC_streamer_ok(6) [OF assms(1,7) this] new_MSC_streamer_ok(6) [OF assms(2,7) this]
    new_MSC_streamer_ok(6) [OF assms(3,7) this]
  have "protLevelA st = 0 \<or> protLevelA st = 1 \<or> protLevelA st = 2 \<or> protLevelA st = 3" using assms(5) by linarith
  then show ?thesis
    unfolding high_sum_def list.map sum_list_simps h rates assms(6)
    by (elim disjE) (simp_all add: protLevel_qam64.simps getRYlcm_64.simps group_bits_64_def zdiv_int)
qed

lemma low_sum_64:
  assumes "new_MSC_streamer st 0 N1 a0 b0 = Some s0" "new_MSC_streamer st 1 N1 a1 b1 = Some s1"
    "new_MSC_streamer st 2 N1 a2 b2 = Some s2" "QAMMode st \<noteq> QAM16" "N1 < 2 ^ 14" "muxSize st \<le> 6900"
  shows "low_sum [s0, s1, s2] < 2 ^ 15"
proof -
  have rates: "protLevel_for st (protLevelB st) = protLevel_qam64 (protLevelB st)"
    using assms(4) by (simp add: protLevel_for_def fun_eq_iff)
  define m where "m = 2 * nat (muxSize st - int N1) - 12"
  have m: "m \<le> 13800" using assms(6) by (simp add: m_def)
  note l = new_MSC_streamer_bits(2) [OF assms(1,5)] new_MSC_streamer_bits(2) [OF assms(2,5)]
    new_MSC_streamer_bits(2) [OF assms(3,5)]
  have d: "3 * (m div 3) \<le> m" "5 * (m div 5) \<le> m" "9 * (m div 9) \<le> m" "4 * (m div 4) \<le> m" "2 * (m div 2) \<le> m" "8 * (m div 8) \<le> m"
    by simp_all
  show ?thesis
    using l d m unfolding rates m_def [symmetric]
    by (auto simp: low_sum_def protLevel_qam64.simps)
qed

lemma new_QAM_handlers_exist:
  assumes "0 \<le> length_sum lengthHigh st" "length_sum lengthHigh st \<le> 4000" "muxSize st \<le> 2 ^ 13"
  shows "protLevelA st \<le> 3 \<Longrightarrow> QAMMode st \<noteq> QAM16 \<Longrightarrow> muxSize st \<le> 6900 \<Longrightarrow>
      33 \<le> muxSize st - (if length_sum lengthHigh st \<noteq> 0 then high_cells_64 (length_sum lengthHigh st) (protLevelA st) else 0)
      \<Longrightarrow> \<exists>h. new_QAM64_SM_Handler st = Some h \<and> 33 \<le> cells_2 (level_streams h ! 0)"
    "protLevelA st \<le> 1 \<Longrightarrow>
      33 \<le> muxSize st - (if length_sum lengthHigh st \<noteq> 0 then high_cells_16 (length_sum lengthHigh st) (protLevelA st) else 0)
      \<Longrightarrow> \<exists>h. new_QAM16_SM_Handler st = Some h \<and> 33 \<le> cells_2 (level_streams h ! 0)"
proof -
  define lA where "lA = length_sum lengthHigh st"
  have mappers: "\<exists>a b. (if lA \<noteq> 0 then new_mappers N1 else Some (None, None)) = Some (a, b)"
    if "lA \<noteq> 0 \<longrightarrow> 3 \<le> N1" "33 \<le> muxSize st - N1" for N1
    using that assms(3) new_mappers_exists [of N1] by auto
  have parts: "(\<exists>a b. new_mappers (muxSize st - N1) = Some (a, b))
      \<and> (\<forall>nr hp lp. \<exists>s. new_MSC_streamer st nr (nat N1) hp lp = Some s \<and> 33 \<le> cells_2 s)"
    if "0 \<le> N1" "33 \<le> muxSize st - N1" for N1
  proof -
    have "6 \<le> muxSize st - int (nat N1)" using that by simp
    note ex = new_MSC_streamer_exists [OF this assms(3)]
    have "33 \<le> cells_2 s" if "new_MSC_streamer st nr (nat N1) hp lp = Some s" for nr hp lp s
      using cells_2_eq [OF that] \<open>33 \<le> muxSize st - N1\<close> \<open>0 \<le> N1\<close> by simp
    then have "\<exists>s. new_MSC_streamer st nr (nat N1) hp lp = Some s \<and> 33 \<le> cells_2 s" for nr hp lp
      using ex [of nr hp lp] by blast
    moreover have "\<exists>a b. new_mappers (muxSize st - N1) = Some (a, b)"
      by (rule new_mappers_exists) (use that assms(3) in simp_all)
    ultimately show ?thesis by blast
  qed
  show "\<exists>h. new_QAM64_SM_Handler st = Some h \<and> 33 \<le> cells_2 (level_streams h ! 0)" if prot: "protLevelA st \<le> 3"
    and q: "QAMMode st \<noteq> QAM16" and small: "muxSize st \<le> 6900" and room: "33 \<le> muxSize st - (if length_sum lengthHigh st \<noteq> 0 then high_cells_64 (length_sum lengthHigh st) (protLevelA st) else 0)"
  proof -
    define N1 where "N1 = (if lA \<noteq> 0 then high_cells_64 lA (protLevelA st) else 0)"
    obtain g where g: "N1 = int (g * getRYlcm_64 (protLevelA st))" "8 * lA \<le> int g * group_bits_64 (protLevelA st)"
        "int g * group_bits_64 (protLevelA st) < 8 * lA + group_bits_64 (protLevelA st)"
      using high_cells_groups(1) [of lA, OF _ _ prot] assms(1,2) N1_def lA_def by auto
    have N1: "0 \<le> N1" using g(1) by simp
    have "lA \<noteq> 0 \<longrightarrow> 3 \<le> N1" using g assms(1) lA_def by (cases "g = 0") (auto simp: getRYlcm_64.simps)
    moreover have r: "33 \<le> muxSize st - N1" using room by (simp only: N1_def lA_def)
    ultimately obtain a b where ab: "(if lA \<noteq> 0 then new_mappers N1 else Some (None, None)) = Some (a, b)"
      using mappers by blast
    obtain c d where cd: "new_mappers (muxSize st - N1) = Some (c, d)" using parts [OF N1 r] by blast
    obtain s0 s1 s2 where ss: "new_MSC_streamer st 0 (nat N1) None None = Some s0" "33 \<le> cells_2 s0"
      "new_MSC_streamer st 1 (nat N1) a c = Some s1" "new_MSC_streamer st 2 (nat N1) b d = Some s2"
      using parts [OF N1 r] by meson
    have N: "nat N1 < 2 ^ 14" "nat N1 = g * getRYlcm_64 (protLevelA st)"
      using r small by simp (simp only: g(1) nat_int)
    have "group_bits_64 (protLevelA st) \<le> 212" by (simp add: group_bits_64_def)
    then have "int (high_sum [s0, s1, s2]) < 2 ^ 15"
      using high_sum_64 [OF ss(1,3,4) q prot N(2,1)] g(3) assms(2) lA_def by simp
    moreover have "int (low_sum [s0, s1, s2]) < 2 ^ 15" using low_sum_64 [OF ss(1,3,4) q N(1) small] by simp
    ultimately have "0 \<le> to_int16 (int (high_sum [s0, s1, s2])) + to_int16 (int (low_sum [s0, s1, s2]))"
      by (simp add: to_int16_nonneg)
    then show ?thesis
      using ab cd ss unfolding new_QAM64_SM_Handler_def Let_def lA_def [symmetric] N1_def [symmetric] by simp
  qed
  show "\<exists>h. new_QAM16_SM_Handler st = Some h \<and> 33 \<le> cells_2 (level_streams h ! 0)" if prot: "protLevelA st \<le> 1"
    and room: "33 \<le> muxSize st - (if length_sum lengthHigh st \<noteq> 0 then high_cells_16 (length_sum lengthHigh st) (protLevelA st) else 0)"
  proof -
    define N1 where "N1 = (if lA \<noteq> 0 then high_cells_16 lA (protLevelA st) else 0)"
    obtain g where g: "N1 = int (g * getRYlcm_16 (protLevelA st))" "8 * lA \<le> int g * group_bits_16 (protLevelA st)"
      using high_cells_groups(2) [of lA, OF _ _ prot] assms(1,2) N1_def lA_def by auto
    have N1: "0 \<le> N1" using g(1) by simp
    have "lA \<noteq> 0 \<longrightarrow> 3 \<le> N1" using g assms(1) lA_def by (cases "g = 0") (auto simp: getRYlcm_16.simps)
    moreover have r: "33 \<le> muxSize st - N1" using room by (simp only: N1_def lA_def)
    ultimately obtain a b where "(if lA \<noteq> 0 then new_mappers N1 else Some (None, None)) = Some (a, b)"
      using mappers by blast
    moreover obtain c d where "new_mappers (muxSize st - N1) = Some (c, d)" using parts [OF N1 r] by blast
    moreover obtain s0 s1 where "new_MSC_streamer st 0 (nat N1) a c = Some s0" "33 \<le> cells_2 s0"
      "new_MSC_streamer st 1 (nat N1) b d = Some s1"
      using parts [OF N1 r] by meson
    ultimately show ?thesis
      unfolding new_QAM16_SM_Handler_def Let_def lA_def [symmetric] N1_def [symmetric] by simp
  qed
qed

lemma prbs_loop_take: "take n (prbs_loop k reg v) = prbs_loop k reg (take n v)"
proof (induction k arbitrary: reg v n)
  case (Suc k)
  then show ?case by (cases v; cases n) (simp_all add: split_def Let_def)
qed simp

lemma frame_out_take:
  assumes "take m a = take m b" "payload_bits h \<le> int m" "length a = length b"
  shows "frame_out h a = frame_out h b"
proof -
  have "nat (payload_bits h) \<le> m" using assms(2) by simp
  then have "take (nat (payload_bits h)) (disperse n a) = take (nat (payload_bits h)) (disperse n b)" for n
    unfolding disperse_def prbs_loop_take using assms(1) by (metis min.absorb1 take_take)
  then show ?thesis using assms(3) by (auto simp: frame_out_def Let_def doPRBS_disperse)
qed

section \<open>Properties\<close>

text \<open>The states of the examples: one stream of \<open>n\<close> unprotected or \<open>m\<close> higher protected bytes.\<close>

definition example_state :: "qam_mode \<Rightarrow> int \<Rightarrow> int \<Rightarrow> int \<Rightarrow> stateDescriptor" where
  "example_state q cells m n = blank_state\<lparr>QAMMode := q, muxSize := cells, numofStreams := 1,
     streams := [zero_stream\<lparr>lengthHigh := m, lengthLow := n\<rparr>]\<rparr>"

lemma example_state_fields [simp]:
  "QAMMode (example_state q c m n) = q" "muxSize (example_state q c m n) = c"
  "protLevelA (example_state q c m n) = 0" "protLevelB (example_state q c m n) = 0"
  "0 \<le> m \<Longrightarrow> m < 4000 \<Longrightarrow> length_sum lengthHigh (example_state q c m n) = m"
  by (simp_all add: example_state_def blank_state_def length_sum_def to_int16_nonneg zero_stream_def)

text \<open>
  C3. The QAM-64 multiplex handler. For every state with at most 8192 cells of which at least 33 are
  lower protected, the handler, whatever its buffers hold and for any positive number of rounds,
  returns the bytes of the frame \<open>f\<close> when it gets the signal that carries the dispersed, coded,
  punctured and interleaved levels of \<open>f\<close>, provided that the frame has at most 32767 bits and the payload that
  the streams announce is part of it; otherwise the dispersal runs out of its 16-bit index, or the copy of the
  payload leaves the frame, and there is no result.
\<close>

theorem QAM64_process_correct:
  fixes imax :: "'f::linordered_field"
  assumes "new_QAM64_SM_Handler st = Some h" "QAMMode st \<noteq> QAM16" "protLevelA st \<le> 3"
    "0 \<le> lengthA h" "lengthA h \<le> 4000" "muxSize st \<le> 2 ^ 13" "33 \<le> cells_2 (level_streams h ! 0)"
    "bits f" "length f = high_sum (level_streams h) + low_sum (level_streams h)"
    "clean rTableQAM64SM (idx64 (level_sent h f 0) (level_sent h f 1) (level_sent h f 2)) v (muxCells h)"
    "0 < imax" "0 < roulette"
  shows "process_64 imax h roulette mem v = (if length f < 2 ^ 15 \<and> 0 \<le> payload_bits h \<and> payload_bits h \<le> int (length f)
    then Some (take (nat (payload_bits h)) f) else None)"
  by (rule process_64_decodes [OF new_QAM64_ok(1,2) [OF assms(1-7)] assms(8-12)])

lemma example_QAM64:
  obtains h where "new_QAM64_SM_Handler (example_state QAM64 45 1 12) = Some h" "33 \<le> cells_2 (level_streams h ! 0)"
    "lengthA h = 1" "payload_bits h = 104" "high_sum (level_streams h) + low_sum (level_streams h) = 115"
proof -
  let ?st = "example_state QAM64 45 1 12"
  have N1: "high_cells_64 1 0 = 4" by (simp add: high_cells_eq(1) group_bits_64_def getRYlcm_64.simps)
  then obtain h where h: "new_QAM64_SM_Handler ?st = Some h" "33 \<le> cells_2 (level_streams h ! 0)"
    using new_QAM_handlers_exist(1) [of ?st] by auto
  have lB: "length_sum lengthLow ?st = 12"
    by (simp add: example_state_def length_sum_def to_int16_nonneg blank_state_def)
  obtain s0 s1 s2 hp1 lp1 hp2 lp2 where s: "level_streams h = [s0, s1, s2]" and l: "lengthA h = 1" "lengthB h = 12"
    and ss: "new_MSC_streamer ?st 0 4 None None = Some s0" "new_MSC_streamer ?st 1 4 hp1 lp1 = Some s1"
      "new_MSC_streamer ?st 2 4 hp2 lp2 = Some s2"
    using h(1) N1 lB by (auto simp: new_QAM64_SM_Handler_def Let_def split: option.splits prod.splits if_splits)
  have "int (high_sum [s0, s1, s2]) = int 1 * group_bits_64 (protLevelA ?st)"
    by (rule high_sum_64 [OF ss]) (simp_all add: getRYlcm_64.simps)
  moreover have "lowProtectedbits s0 = 17" "lowProtectedbits s1 = 35" "lowProtectedbits s2 = 51"
    using new_MSC_streamer_bits(2) [OF ss(1)] new_MSC_streamer_bits(2) [OF ss(2)] new_MSC_streamer_bits(2) [OF ss(3)]
    by (simp_all add: protLevel_for_def protLevel_qam64.simps)
  ultimately have "high_sum (level_streams h) + low_sum (level_streams h) = 115"
    by (simp add: s low_sum_def group_bits_64_def)
  then show ?thesis using that h l by (simp add: payload_bits_def)
qed

theorem QAM64_process_correct_witness:
  "\<exists>h. new_QAM64_SM_Handler (example_state QAM64 45 1 12) = Some h \<and>
     (let f = replicate (high_sum (level_streams h) + low_sum (level_streams h)) 1;
          v = clean_signal rTableQAM64SM (idx64 (level_sent h f 0) (level_sent h f 1) (level_sent h f 2)) (muxCells h)
      in length f = 115 \<and> process_64 (1 :: rat) h 3 (([], [], []), ([], [], [])) v = Some (take 104 f))"
proof -
  obtain h where h: "new_QAM64_SM_Handler (example_state QAM64 45 1 12) = Some h" "33 \<le> cells_2 (level_streams h ! 0)"
    "lengthA h = 1" "payload_bits h = 104" "high_sum (level_streams h) + low_sum (level_streams h) = 115"
    by (rule example_QAM64)
  let ?f = "replicate (high_sum (level_streams h) + low_sum (level_streams h)) 1 :: u8 list"
  let ?v = "clean_signal rTableQAM64SM (idx64 (level_sent h ?f 0) (level_sent h ?f 1) (level_sent h ?f 2)) (muxCells h) :: rat theSignal list"
  have "process_64 (1 :: rat) h 3 (([], [], []), ([], [], [])) ?v
      = (if length ?f < 2 ^ 15 \<and> 0 \<le> payload_bits h \<and> payload_bits h \<le> int (length ?f)
         then Some (take (nat (payload_bits h)) ?f) else None)"
    by (rule QAM64_process_correct [OF h(1)]) (use h(2,3) in \<open>simp_all add: clean_clean_signal onebit\<close>)
  then have "process_64 (1 :: rat) h 3 (([], [], []), ([], [], [])) ?v = Some (take 104 ?f)"
    by (simp only: length_replicate h(4,5)) simp
  then show ?thesis using h(1,5) unfolding Let_def by (intro exI [of _ h] conjI) simp_all
qed

text \<open>
  C13. The QAM-16 multiplex handler. Under the same conditions the handler puts the decoded levels
  together with the lower protected bits of level 1 read from the offset of level 0. The bytes of the
  frame come back when the levels have the same number of higher protected bits, in particular when
  there is no higher protected part, or when the payload ends before those bits (there is no result when the payload
  is not part of the frame).
\<close>

theorem QAM16_process_correct:
  fixes imax :: "'f::linordered_field"
  assumes "new_QAM16_SM_Handler st = Some h" "QAMMode st = QAM16" "protLevelA st \<le> 1"
    "0 \<le> lengthA h" "lengthA h \<le> 4000" "muxSize st \<le> 2 ^ 13" "33 \<le> cells_2 (level_streams h ! 0)"
    "bits f" "length f = high_sum (level_streams h) + low_sum (level_streams h)"
    "clean rTableQAM16 (idx16 (level_sent h f 0) (level_sent h f 1)) v (muxCells h)"
    "0 < imax"
  shows "process_16 imax h mem v
      = frame_out h (move_16 h (level_bits h (disperse (length f) f) 0, level_bits h (disperse (length f) f) 1))
    \<and> (highProtectedbits (level_streams h ! 0) = highProtectedbits (level_streams h ! 1)
       \<or> payload_bits h \<le> int (high_sum (level_streams h) + lowProtectedbits (level_streams h ! 0))
       \<longrightarrow> process_16 imax h mem v = (if 0 \<le> payload_bits h \<and> payload_bits h \<le> int (length f)
         then Some (take (nat (payload_bits h)) f) else None))"
proof -
  note ok = new_QAM16_ok [OF assms(1-7)]
  obtain s0 s1 where s: "level_streams h = [s0, s1]" using ok(2) by (auto simp: numeral_2_eq_2 length_Suc_conv)
  let ?g = "disperse (length f) f"
  let ?m = "move_16 h (level_bits h ?g 0, level_bits h ?g 1)"
  have p: "process_16 imax h mem v = frame_out h ?m"
    by (rule process_16_decodes [OF ok(1,2) assms(8-11)])
  have g: "length ?g = high_sum (level_streams h) + low_sum (level_streams h)" using assms(9) by simp
  have f: "frame_out h ?g = (if 0 \<le> payload_bits h \<and> payload_bits h \<le> int (length f) then Some (take (nat (payload_bits h)) f) else None)"
    using frame_out_disperse [OF assms(9)] ok(6) assms(9) by simp
  have len: "length ?m = length ?g"
    using length_move_16 [OF s, of "level_bits h ?g 0" "level_bits h ?g 1"] ok(7) length_level_bits [OF g, of 0] length_level_bits [OF g, of 1] g s
    by simp
  note m = move_16_level_bits [OF s g]
  have "frame_out h ?m = frame_out h ?g"
    if "highProtectedbits s0 = highProtectedbits s1 \<or> payload_bits h \<le> int (high_sum (level_streams h) + lowProtectedbits s0)"
    using that m(2) frame_out_take [OF m(1) _ len] by auto
  then show ?thesis using p f s by simp
qed

theorem QAM16_process_correct_witness:
  "\<exists>h. new_QAM16_SM_Handler (example_state QAM16 45 1 1) = Some h \<and>
     (let f = replicate (high_sum (level_streams h) + low_sum (level_streams h)) 1;
          v = clean_signal rTableQAM16 (idx16 (level_sent h f 0) (level_sent h f 1)) (muxCells h)
      in process_16 (1 :: rat) h (([], []), ([], [])) v
        = frame_out h (move_16 h (level_bits h (disperse (length f) f) 0, level_bits h (disperse (length f) f) 1))
       \<and> (highProtectedbits (level_streams h ! 0) = highProtectedbits (level_streams h ! 1)
          \<or> payload_bits h \<le> int (high_sum (level_streams h) + lowProtectedbits (level_streams h ! 0))
          \<longrightarrow> process_16 (1 :: rat) h (([], []), ([], [])) v = (if 0 \<le> payload_bits h \<and> payload_bits h \<le> int (length f)
             then Some (take (nat (payload_bits h)) f) else None)))"
proof -
  let ?st = "example_state QAM16 45 1 1"
  have "high_cells_16 1 0 = 6" by (simp add: high_cells_eq(2) group_bits_16_def getRYlcm_16.simps)
  then obtain h where h: "new_QAM16_SM_Handler ?st = Some h" "33 \<le> cells_2 (level_streams h ! 0)"
    using new_QAM_handlers_exist(2) [of ?st] by auto
  have A: "lengthA h = 1"
    using h(1) by (auto simp: new_QAM16_SM_Handler_def Let_def split: option.splits prod.splits)
  show ?thesis
    unfolding Let_def
    by (intro exI [of _ h] conjI h(1) QAM16_process_correct [OF h(1)])
      (use h(2) A in \<open>simp_all add: clean_clean_signal onebit\<close>)
qed

text \<open>
  The sizes. With at most 4000 higher protected bytes and at least 33 cells left, and 6900 cells for QAM-64 or 8192
  for QAM-16, the constructors succeed; the higher protected parts of the levels together hold the \<open>lengthA\<close> bytes, with less than
  one group of the least common size to spare, in spite of the floating point division; and every
  stream takes two bits of each of the cells.
\<close>

theorem QAM_handlers_room:
  assumes "0 \<le> length_sum lengthHigh st" "length_sum lengthHigh st \<le> 4000" "muxSize st \<le> 6900"
    "QAMMode st \<noteq> QAM16" "protLevelA st \<le> 3" "QAMMode st' = QAM16" "protLevelA st' \<le> 1"
    "0 \<le> length_sum lengthHigh st'" "length_sum lengthHigh st' \<le> 4000" "muxSize st' \<le> 2 ^ 13"
    "33 \<le> muxSize st - (if length_sum lengthHigh st \<noteq> 0 then high_cells_64 (length_sum lengthHigh st) (protLevelA st) else 0)"
    "33 \<le> muxSize st' - (if length_sum lengthHigh st' \<noteq> 0 then high_cells_16 (length_sum lengthHigh st') (protLevelA st') else 0)"
  shows "\<exists>h h'. new_QAM64_SM_Handler st = Some h \<and> new_QAM16_SM_Handler st' = Some h'
    \<and> 8 * length_sum lengthHigh st \<le> int (high_sum (level_streams h))
    \<and> int (high_sum (level_streams h)) < 8 * length_sum lengthHigh st + group_bits_64 (protLevelA st)
    \<and> 8 * length_sum lengthHigh st' \<le> int (high_sum (level_streams h'))
    \<and> int (high_sum (level_streams h')) < 8 * length_sum lengthHigh st' + group_bits_16 (protLevelA st')
    \<and> list_all (\<lambda>s. cells_1 s + cells_2 s = nat (muxSize st)) (level_streams h)
    \<and> list_all (\<lambda>s. cells_1 s + cells_2 s = nat (muxSize st')) (level_streams h')"
proof -
  have mux: "muxSize st \<le> 2 ^ 13" using assms(3) by simp
  obtain h where h: "new_QAM64_SM_Handler st = Some h" "33 \<le> cells_2 (level_streams h ! 0)"
    using new_QAM_handlers_exist(1) [OF assms(1,2) mux assms(5,4,3,11)] by blast
  obtain h' where h': "new_QAM16_SM_Handler st' = Some h'" "33 \<le> cells_2 (level_streams h' ! 0)"
    using new_QAM_handlers_exist(2) [OF assms(8-10,7,12)] by blast
  have l: "lengthA h = length_sum lengthHigh st" "lengthA h' = length_sum lengthHigh st'"
    using h(1) h'(1) by (auto simp: new_QAM64_SM_Handler_def new_QAM16_SM_Handler_def Let_def split: option.splits prod.splits if_splits)
  have m: "0 \<le> lengthA h" "lengthA h \<le> 4000" "0 \<le> lengthA h'" "lengthA h' \<le> 4000" using assms l by simp_all
  note a = new_QAM64_ok [OF h(1) assms(4,5) m(1,2) mux h(2)]
    and b = new_QAM16_ok [OF h'(1) assms(6,7) m(3,4) assms(10) h'(2)]
  have "list_all (\<lambda>s. cells_1 s + cells_2 s = nat (muxSize st)) (level_streams h)"
    "list_all (\<lambda>s. cells_1 s + cells_2 s = nat (muxSize st')) (level_streams h')"
    using a(1,3) b(1,3) by (auto simp: list_all_iff stream_ok_def)
  then show ?thesis using h(1) h'(1) a(4,5) b(4,5) by (auto simp: l)
qed

theorem QAM_handlers_room_witness:
  "\<exists>h h'. new_QAM64_SM_Handler (example_state QAM64 45 1 12) = Some h
    \<and> new_QAM16_SM_Handler (example_state QAM16 45 1 1) = Some h'
    \<and> 8 * length_sum lengthHigh (example_state QAM64 45 1 12) \<le> int (high_sum (level_streams h))
    \<and> int (high_sum (level_streams h)) < 8 * length_sum lengthHigh (example_state QAM64 45 1 12)
        + group_bits_64 (protLevelA (example_state QAM64 45 1 12))
    \<and> 8 * length_sum lengthHigh (example_state QAM16 45 1 1) \<le> int (high_sum (level_streams h'))
    \<and> int (high_sum (level_streams h')) < 8 * length_sum lengthHigh (example_state QAM16 45 1 1)
        + group_bits_16 (protLevelA (example_state QAM16 45 1 1))
    \<and> list_all (\<lambda>s. cells_1 s + cells_2 s = nat (muxSize (example_state QAM64 45 1 12))) (level_streams h)
    \<and> list_all (\<lambda>s. cells_1 s + cells_2 s = nat (muxSize (example_state QAM16 45 1 1))) (level_streams h')"
proof -
  have "high_cells_64 1 0 = 4" "high_cells_16 1 0 = 6"
    by (simp_all add: high_cells_eq group_bits_64_def group_bits_16_def getRYlcm_64.simps getRYlcm_16.simps)
  then show ?thesis by (intro QAM_handlers_room) simp_all
qed

text \<open>
  With a higher protected part the QAM-16 handler does not return the frame: one higher protected
  byte and eight others in 45 cells come back changed, since the lower protected bits of level 1 start
  at \<open>highBits\<close> of stream 1 and not of stream 0.
\<close>

theorem QAM16_lower_part_shifted:
  "\<exists>h f. new_QAM16_SM_Handler (example_state QAM16 45 1 8) = Some h
    \<and> bits f \<and> length f = high_sum (level_streams h) + low_sum (level_streams h)
    \<and> process_16 (1 :: rat) h mem
        (clean_signal rTableQAM16 (idx16 (level_sent h f 0) (level_sent h f 1)) (muxCells h))
      \<noteq> Some (take (nat (payload_bits h)) f)"
proof -
  let ?st = "example_state QAM16 45 1 8"
  have N1: "high_cells_16 1 0 = 6" by (simp add: high_cells_eq(2) group_bits_16_def getRYlcm_16.simps)
  then obtain h where h: "new_QAM16_SM_Handler ?st = Some h" "33 \<le> cells_2 (level_streams h ! 0)"
    using new_QAM_handlers_exist(2) [of ?st] by auto
  have lB: "length_sum lengthLow ?st = 8"
    by (simp add: example_state_def length_sum_def to_int16_nonneg blank_state_def)
  have A: "lengthA h = 1" "lengthB h = 8"
    using h(1) by (auto simp: new_QAM16_SM_Handler_def Let_def lB split: option.splits prod.splits)
  note ok = new_QAM16_ok(1,2) [OF h(1)]
  obtain s0 s1 hp0 hp1 lp0 lp1 where s: "level_streams h = [s0, s1]"
    and s0: "new_MSC_streamer ?st 0 6 hp0 lp0 = Some s0" and s1: "new_MSC_streamer ?st 1 6 hp1 lp1 = Some s1"
    using h(1) N1 by (auto simp: new_QAM16_SM_Handler_def Let_def split: option.splits prod.splits)
  have hb: "highProtectedbits s0 = 4" "highProtectedbits s1 = 8"
    using new_MSC_streamer_ok(6) [OF s0] new_MSC_streamer_ok(6) [OF s1]
    by (simp_all add: protLevel_for_def protLevel_qam16.simps)
  have lb: "lowProtectedbits s0 = 22" "lowProtectedbits s1 = 44"
    using new_MSC_streamer_bits(2) [OF s0] new_MSC_streamer_bits(2) [OF s1]
    by (simp_all add: protLevel_for_def protLevel_qam16.simps)
  let ?g = "replicate 12 1 @ replicate 66 0 :: u8 list"
  define f where "f = disperse 78 ?g"
  have sums: "high_sum (level_streams h) = 12" "low_sum (level_streams h) = 66"
    by (simp_all add: s hb lb high_sum_def low_sum_def)
  have f: "bits f" "length f = high_sum (level_streams h) + low_sum (level_streams h)" "disperse (length f) f = ?g"
    by (simp_all add: f_def sums prbs_scrambler.scramble_bits prbs_scrambler.scramble_scramble onebit)
  let ?v = "clean_signal rTableQAM16 (idx16 (level_sent h f 0) (level_sent h f 1)) (muxCells h) :: rat theSignal list"
  let ?m = "move_16 h (level_bits h ?g 0, level_bits h ?g 1)"
  have "process_16 1 h mem ?v = frame_out h (move_16 h
      (level_bits h (disperse (length f) f) 0, level_bits h (disperse (length f) f) 1))"
    by (rule process_16_decodes [OF ok _ _ clean_clean_signal]) (use h(2) A f in simp_all)
  moreover have "length ?m = 78"
    using length_move_16 [OF s, of "level_bits h ?g 0" "level_bits h ?g 1"] sums s hb lb
    by (simp add: level_bits_def Let_def high_sum_def low_sum_def)
  ultimately have out: "process_16 1 h mem ?v = Some (take 72 (disperse 78 ?m))"
    by (simp add: f(3) frame_out_def A sums payload_bits_def doPRBS_disperse)
  have inj: "take 72 (disperse 78 ?m) = take 72 f \<longleftrightarrow> take 72 ?m = take 72 ?g"
    unfolding f_def disperse_def prbs_loop_take by (metis prbs_loop_involution)
  have "?m ! 34 = 1" "?g ! 34 = 0"
    by (simp_all add: move_16_def level_bits_def Let_def s hb lb high_sum_def low_sum_def nth_append)
  then have "take 72 ?m ! 34 = 1" "take 72 ?g ! 34 = 0" by (simp_all only: nth_take)
  then have "take 72 ?m \<noteq> take 72 ?g" by (metis zero_neq_one)
  then have "take 72 (disperse 78 ?m) \<noteq> take 72 f" unfolding inj .
  moreover have "nat (payload_bits h) = 72" by (simp add: A payload_bits_def)
  ultimately have "process_16 1 h mem ?v \<noteq> Some (take (nat (payload_bits h)) f)" unfolding out by (simp only: option.inject not_False_eq_True)
  then show ?thesis using h(1) f(1,2) by blast
qed

end
