(* ===== verification/DrmFac.thy ===== *)
theory DrmFac
  imports DrmMetrics DrmState DrmPrbs DrmCrc DrmBasics BitField
begin

text \<open>
  The fast access channel (\<open>fac/fac-processor.cpp\<close>): 65 QAM-4 cells of a frame carry 64 bits and an
  8 bit CRC; the bits say how the rest of the frame is coded and describe one of the services.
\<close>

section \<open>The contents of the channel\<close>

text \<open>The numbers of audio and data services.\<close>

definition set_services :: "nat \<Rightarrow> stateDescriptor \<Rightarrow> stateDescriptor" where
  "set_services val st =
     (if val = 0 then st\<lparr>audioServices := 4, dataServices := 0\<rparr>
      else if val = 1 then st\<lparr>audioServices := 0, dataServices := 1\<rparr>
      else if val = 2 then st\<lparr>audioServices := 0, dataServices := 2\<rparr>
      else if val = 3 then st\<lparr>audioServices := 0, dataServices := 3\<rparr>
      else if val = 4 then st\<lparr>audioServices := 1, dataServices := 0\<rparr>
      else if val = 5 then st\<lparr>audioServices := 1, dataServices := 1\<rparr>
      else if val = 6 then st\<lparr>audioServices := 1, dataServices := 2\<rparr>
      else if val = 7 then st\<lparr>audioServices := 1, dataServices := 3\<rparr>
      else if val = 8 then st\<lparr>audioServices := 2, dataServices := 0\<rparr>
      else if val = 9 then st\<lparr>audioServices := 2, dataServices := 1\<rparr>
      else if val = 10 then st\<lparr>audioServices := 2, dataServices := 2\<rparr>
      else if val = 11 \<or> val = 12 then st\<lparr>audioServices := 3, dataServices := 0\<rparr>
      else if val = 13 then st\<lparr>audioServices := 3, dataServices := 1\<rparr>
      else if val = 14 \<or> val = 15 then st\<lparr>audioServices := 0, dataServices := 4\<rparr>
      else st)"

definition set_channelParameters :: "u8 list \<Rightarrow> stateDescriptor \<Rightarrow> stateDescriptor" where
  "set_channelParameters v st =
     (let st = st\<lparr>frameIdentity := int (bitfield v 1 2), RMflag := (v ! 3 AND 1 \<noteq> 0),
            spectrumBits := bitfield v 4 3, interleaverDepth := (if v ! 7 = 0 then 5 else 1)\<rparr>;
          m = bitfield v 8 2;
          st = (if \<not> RMflag st
                then (if m = 1 then st\<lparr>QAMMode := QAM64, mscMode := HMI\<rparr>
                      else if m = 2 then st\<lparr>QAMMode := QAM64, mscMode := HMIQ\<rparr>
                      else if m = 3 then st\<lparr>QAMMode := QAM16, mscMode := SM\<rparr>
                      else st\<lparr>QAMMode := QAM64, mscMode := SM\<rparr>)
                else (if m = 1 then st else st\<lparr>QAMMode := QAM16, mscMode := SM\<rparr>));
          st = st\<lparr>sdcMode := unat (v ! 10 AND 1)\<rparr>
      in set_services (bitfield v 11 4) st)"

definition update_stream :: "nat \<Rightarrow> (stream_desc \<Rightarrow> stream_desc) \<Rightarrow> stateDescriptor \<Rightarrow> stateDescriptor" where
  "update_stream k f st = st\<lparr>streams := (streams st)[k := f (streams st ! k)]\<rparr>"

definition languages :: "string list" where
  "languages =
    [''No language specified'', ''Arabic'', ''Bengali'', ''Chinese'', ''Dutch'', ''English'', 
     ''French'', ''German'', ''Hindi'', ''Japanese'', ''Javanese'', ''Korean'', ''Portugese'', 
     ''Russian'', ''Spanish'', ''Other Language'']"

definition set_serviceLanguage :: "nat \<Rightarrow> u8 list \<Rightarrow> stateDescriptor \<Rightarrow> stateDescriptor" where
  "set_serviceLanguage k v st =
     (let val = bitfield v 0 4 in update_stream k (theLanguage_update (\<lambda>_. languages ! (if val < 16 then val else 0))) st)"

definition programme_types :: "string list" where
  "programme_types =
    [''no program type'', ''News'', ''Current Affairs'', ''Information'', ''Sport'', ''Education'', 
     ''Drama'', ''Culture'', ''Science'', ''Varied'', ''Pop Music'', ''Rock Music'', 
     ''Easy Listening'', ''Light Classical'', ''Serious Classical'', ''Other Music'', ''Wheather'', 
     ''Finance/Business'', ''Children's programmes'', ''Social Affairs'', ''Religion'', ''Phone In'', 
     ''Travel'', ''Leisure'', ''Jazz Music'', ''Country Music'', ''National Music'', 
     ''Oldies Music'', ''Folk Music'', ''Documentary'', ''   '', ''   '']"

definition set_serviceDescriptor :: "nat \<Rightarrow> u8 list \<Rightarrow> stateDescriptor \<Rightarrow> stateDescriptor" where
  "set_serviceDescriptor k v st =
     (if \<not> isAudio (streams st ! k) then st
      else (let val = bitfield (map (\<lambda>x. x AND 1) v) 0 5
        in update_stream k (theProgrammeType_update (\<lambda>_. programme_types ! (if val < 32 then val else 0))) st))"

definition set_serviceParameters :: "u8 list \<Rightarrow> stateDescriptor \<Rightarrow> stateDescriptor" where
  "set_serviceParameters v st =
     (let sid = bitfield v 24 2;
          st = update_stream sid (\<lambda>d. d\<lparr>serviceId := int (bitfield v 0 24), shortId := sid\<rparr>) st;
          st = set_serviceLanguage sid (drop 27 v) st;
          st = update_stream sid (\<lambda>d. d\<lparr>isAudio := (v ! 31 = 0)\<rparr>) st
      in set_serviceDescriptor sid (drop 32 v) st)"

definition interpretFac :: "u8 list \<Rightarrow> stateDescriptor \<Rightarrow> stateDescriptor" where
  "interpretFac v st = set_serviceParameters (drop 20 v) (set_channelParameters v st)"

text \<open>The cells of a transmission super frame.\<close>

definition mscCells :: "nat \<Rightarrow> nat \<Rightarrow> int" where
  "mscCells M s =
     (if M = 1 then (if s = 0 then 3778 else if s = 1 then 4268 else if s = 2 then 7897
        else if s = 4 then 16394 else 8877)
      else if M = 3 then 5532 else if M = 4 then 3679
      else (if s = 0 then 2900 else if s = 1 then 3330 else if s = 2 then 6153
        else if s = 4 then 12747 else 7013))"

section \<open>The decoder\<close>

definition fac_crc :: check_crc where
  "fac_crc = \<lparr>crc_size = 8, crc_polynome = [0, 0, 0, 1, 1, 1, 0]\<rparr>"

definition fac_mapper :: "int list" where
  "fac_mapper = the (mapper (int 130) 21)"

definition fac_puncture :: "nat list" where
  "fac_puncture = [1, 1, 0, 0, 0, 0, 1, 0, 0, 0, 0, 0, 1, 1, 0, 0, 0, 0]"

definition fac_mask :: "nat list" where
  "fac_mask = cyclic fac_puncture 18 (6 * (64 + 8 + 6))"

text \<open>The cells of the channel; \<open>outbank\<close> has a row of cells for each symbol.\<close>

definition fac_vector :: "nat \<Rightarrow> nat \<Rightarrow> 'f theSignal list list \<Rightarrow> 'f theSignal list" where
  "fac_vector M s outbank =
     map (\<lambda>(symbol, carrier). outbank ! nat symbol ! nat (carrier - Kmin M s)) (fac_entries M)"

text \<open>
  The buffers of the decoder have fixed sizes: the 468 soft bits for its 72 bits, and the 72 bits that are dispersed;
  the decoder and the dispersal always have a result (lemma \<open>fac_buffers\<close>).
\<close>

definition fromSamplestoBits :: "'f::linordered_field \<Rightarrow> 'f theSignal list \<Rightarrow> u8 list" where
  "fromSamplestoBits imax v =
     (let rawBits = qam4_computemetrics v 65;
          demappedBits = demap fac_mapper 130 rawBits;
          (deconvolveBuffer, inputCnt) = depuncture fac_mask demappedBits 0
      in the (deconvolve imax deconvolveBuffer (64 + 8)))"

definition processFAC ::
  "'f::linordered_field \<Rightarrow> nat \<Rightarrow> nat \<Rightarrow> 'f theSignal list list \<Rightarrow> stateDescriptor \<Rightarrow> bool \<times> stateDescriptor" where
  "processFAC imax M s outbank st =
     (let facBits = the (doPRBS (64 + 8) (fromSamplestoBits imax (fac_vector M s outbank)));
          (ok, facBits) = doCRC fac_crc facBits (64 + 8)
      in if \<not> ok then (False, st)
         else (let cells = mscCells M s; st = st\<lparr>mscCells_of := cells, muxSize := cells div 3\<rparr>
               in (True, interpretFac facBits st)))"

section \<open>Decoding\<close>

lemma bits_survivor_bits [onebit, simp]: "bits (survivor_bits imax symb n)"
  by (auto simp: survivor_bits_def Let_def bits_def is_bit_def)

lemma length_survivor_bits [length_simps, simp]: "length (survivor_bits imax symb n) = n"
  by (simp add: survivor_bits_def Let_def)

lemma fromSamplestoBits_eq:
  "fromSamplestoBits imax v = survivor_bits imax (fst (depuncture fac_mask (demap fac_mapper 130 (qam4_computemetrics v 65)) 0)) 72"
  by (simp add: fromSamplestoBits_def split_def deconvolve_def length_depuncture fac_mask_def viterbi_fits_def)

lemma fac_buffers:
  "bits (fromSamplestoBits imax v)" "length (fromSamplestoBits imax v) = 72"
  "deconvolve imax (fst (depuncture fac_mask (demap fac_mapper 130 (qam4_computemetrics v 65)) 0)) 72 = Some (fromSamplestoBits imax v)"
  "doPRBS 72 (fromSamplestoBits imax v) = Some (disperse 72 (fromSamplestoBits imax v))"
  by (simp_all add: fromSamplestoBits_eq deconvolve_def length_depuncture fac_mask_def viterbi_fits_def doPRBS_disperse)

lemma fac_kills: "kills (table_keeps fac_puncture 3) 0 20"
  by code_simp

lemma fac_mask_facts: "length fac_mask = 468" "count_list fac_mask 1 = 130"
  by (simp add: fac_mask_def) code_simp

lemma fac_mask_step: "i < 78 \<Longrightarrow> k < 6 \<Longrightarrow> fac_mask ! (6 * i + k) = fac_puncture ! (6 * (i mod 3) + k)"
  using nth_cyclic_step [of 3 k i "6 * (64 + 8 + 6)" fac_puncture] by (simp add: fac_mask_def)

lemma fac_resolving: "resolving (\<lambda>i k. fac_mask ! (6 * i + k) = 1) 72"
proof (rule resolving_if_kills [where s = 0 and n = 20])
  show "fac_mask ! (6 * i + 0) = 1" if "i < 72" for i
  proof -
    have "i mod 3 < 3" by simp
    then have "i mod 3 = 0 \<or> i mod 3 = 1 \<or> i mod 3 = 2" by linarith
    then show ?thesis using fac_mask_step [of i 0] that by (auto simp: fac_puncture_def)
  qed
  have "kills (\<lambda>i k. if i < 20 \<and> k < 6 then fac_mask ! (6 * i + k) = 1 else table_keeps fac_puncture 3 i k) 0 20
      = kills (table_keeps fac_puncture 3) 0 20"
    by (rule kills_cong) (auto simp: table_keeps_def fac_mask_step fun_eq_iff)
  moreover have "kills (\<lambda>i k. if i < 20 \<and> k < 6 then fac_mask ! (6 * i + k) = 1 else table_keeps fac_puncture 3 i k) 0 20
      = kills (\<lambda>i k. if k < 6 then fac_mask ! (6 * i + k) = 1 else table_keeps fac_puncture 3 i k) 0 20"
    by (rule kills_cong) simp
  moreover have "\<dots> = kills (\<lambda>i k. fac_mask ! (6 * i + k) = 1) 0 20"
    by (rule kills_only_6) simp
  ultimately show "kills (\<lambda>i k. fac_mask ! (6 * i + k) = 1) 0 20" using fac_kills by simp
qed simp

text \<open>The bits sent for a block of 72 bits.\<close>

definition fac_sent :: "u8 list \<Rightarrow> u8 list" where
  "fac_sent x = remap fac_mapper 130 (puncture fac_mask (convolve x 72))"

lemma fac_mapper_permutation: "cell_permutation (mapIn fac_mapper) 130"
  unfolding fac_mapper_def by (rule the_mapper_permutation) simp_all

lemma fac_sent_facts:
  assumes "bits x" "length x = 72"
  shows "length (puncture fac_mask (convolve x 72)) = 130" "length (fac_sent x) = 130" "bits (fac_sent x)"
proof -
  have len: "length (convolve x 72) = 468" using length_convolve [OF assms] by simp
  show p: "length (puncture fac_mask (convolve x 72)) = 130"
    using fac_mask_facts len by (simp add: length_puncture)
  show "length (fac_sent x) = 130" by (simp add: fac_sent_def)
  have "bits (puncture fac_mask (convolve x 72))" using assms(1) by (simp add: onebit)
  then have "is_bit (puncture fac_mask (convolve x 72) ! mapIn fac_mapper i)" if "i < 130" for i
    using cell_permutation.m_less [OF fac_mapper_permutation that] p by (auto intro: bits_nth)
  then show "bits (fac_sent x)" by (simp add: fac_sent_def remap_def bits_def)
qed

lemma fromSamplestoBits_decodes:
  fixes imax :: "'f::linordered_field"
  assumes "bits x" "length x = 72" "clean rTableQAM4 (\<lambda>j. unat (fac_sent x ! j)) v 65" "0 < imax"
  shows "fromSamplestoBits imax v = x"
proof -
  note f = fac_sent_facts [OF assms(1,2)]
  have "receives (qam4_computemetrics v 65) (fac_sent x)"
    by (rule qam4_receives [OF assms(3) f(3)]) (simp add: f(2))
  then have "receives (demap fac_mapper 130 (qam4_computemetrics v 65)) (puncture fac_mask (convolve x 72))"
    using receives_demap [OF fac_mapper_permutation, of "puncture fac_mask (convolve x 72)" _ "[]"] f(1)
    by (simp add: fac_sent_def)
  then have "survivor_bits imax (fst (depuncture fac_mask (demap fac_mapper 130 (qam4_computemetrics v 65)) 0)) 72 = x"
    using masked_decode [OF assms(1,2) _ assms(4) fac_resolving] fac_mask_facts(1) by simp
  then show ?thesis by (simp add: fromSamplestoBits_eq)
qed

section \<open>What interpretation reads\<close>

lemma interpretFac_append:
  assumes u: "length u = 64"
  shows "interpretFac (u @ w) st = interpretFac u st"
proof -
  have b: "bitfield (u @ w) 1 2 = bitfield u 1 2" "bitfield (u @ w) 4 3 = bitfield u 4 3"
    "bitfield (u @ w) 8 2 = bitfield u 8 2" "bitfield (u @ w) 11 4 = bitfield u 11 4"
    "bitfield (u @ w) 44 2 = bitfield u 44 2" "bitfield (u @ w) 20 24 = bitfield u 20 24"
    "bitfield (u @ w) 47 4 = bitfield u 47 4" "bitfield (map (\<lambda>x. x AND 1) (u @ w)) 52 5 = bitfield (map (\<lambda>x. x AND 1) u) 52 5"
    by (simp_all add: bitfield_prefix u)
  have n: "(u @ w) ! 3 = u ! 3" "(u @ w) ! 7 = u ! 7" "(u @ w) ! 10 = u ! 10" "drop 20 (u @ w) ! 31 = drop 20 u ! 31"
    by (simp_all add: nth_append u)
  have a: "20 + 24 = (44 :: nat)" "20 + 0 = (20 :: nat)" "20 + (27 + 0) = (47 :: nat)" "20 + (32 + 0) = (52 :: nat)"
    by simp_all
  have "set_channelParameters (u @ w) st = set_channelParameters u st"
    by (simp only: set_channelParameters_def b n)
  then show ?thesis
    by (simp only: interpretFac_def set_serviceParameters_def set_serviceLanguage_def set_serviceDescriptor_def
        bitfield_drop drop_map [symmetric] a n b)
qed

lemma fac_crc_ok: "crc_ok fac_crc"
  by (simp add: fac_crc_def crc_ok_def bit_poly_def onebit is_bit_def)

lemma processFAC_eq:
  fixes imax :: "'f::linordered_field"
  shows "processFAC imax M s outbank st =
    (let d = disperse 72 (fromSamplestoBits imax (fac_vector M s outbank))
     in if drop 64 d = crc_bits fac_crc (take 64 d)
        then (True, interpretFac (take 64 d) (st\<lparr>mscCells_of := mscCells M s, muxSize := mscCells M s div 3\<rparr>))
        else (False, st))"
proof -
  let ?d = "disperse 72 (fromSamplestoBits imax (fac_vector M s outbank))"
  have d: "bits ?d" "length ?d = 72"
    by (simp_all add: prbs_scrambler.scramble_bits fac_buffers)
  let ?u = "take 64 ?d" and ?c = "drop 64 ?d"
  have split: "?d = ?u @ ?c" "length ?u = 64" "length ?c = crc_size fac_crc" "bits ?u" "bits ?c"
    using d by (simp_all add: fac_crc_def onebit)
  have ok: "fst (doCRC fac_crc ?d 72) \<longleftrightarrow> ?c = crc_bits fac_crc ?u"
    using doCRC_register [OF fac_crc_ok split(5,3), of ?u] crc_run_inverted_iff [OF fac_crc_ok split(5,3), of ?u] split
    by (simp add: fac_crc_def)
  have "snd (doCRC fac_crc ?d 72) = ?u @ map (\<lambda>x. x XOR 1) ?c"
    using d by (simp add: doCRC_def Let_def crc_invert_def fac_crc_def)
  then have "interpretFac (snd (doCRC fac_crc ?d 72)) st' = interpretFac ?u st'" for st'
    using interpretFac_append [OF split(2)] by simp
  then show ?thesis using ok by (simp add: processFAC_def split_def Let_def fac_buffers)
qed

section \<open>The layout\<close>

text \<open>The sender's side: the fields of the channel in their order, reserved bits as zeros.\<close>

definition fac_layout ::
  "nat \<Rightarrow> nat \<Rightarrow> nat \<Rightarrow> nat \<Rightarrow> nat \<Rightarrow> nat \<Rightarrow> nat \<Rightarrow> nat \<Rightarrow> nat \<Rightarrow> nat \<Rightarrow> nat \<Rightarrow> nat \<Rightarrow> u8 list" where
  "fac_layout frame rm spectrum il msc sdc services sid short lang data descr =
     field_bits 1 0 @ field_bits 2 frame @ field_bits 1 rm @ field_bits 3 spectrum @ field_bits 1 il
     @ field_bits 2 msc @ field_bits 1 sdc @ field_bits 4 services @ field_bits 5 0
     @ field_bits 24 sid @ field_bits 2 short @ field_bits 1 0 @ field_bits 4 lang @ field_bits 1 data
     @ field_bits 5 descr @ field_bits 7 0"

lemma fac_layout_bits: "bits (fac_layout a b c d e f g h i j k l)" "length (fac_layout a b c d e f g h i j k l) = 64"
  by (simp_all add: fac_layout_def)

lemma and_1_bits: "bits v \<Longrightarrow> map (\<lambda>x. x AND 1) v = v"
  by (rule map_idI) (auto simp: bits_def is_bit_def)

lemma fac_layout_reads:
  assumes "frame < 4" "rm < 2" "spectrum < 8" "il < 2" "msc < 4" "sdc < 2" "services < 16"
    "sid < 2 ^ 24" "short < 4" "lang < 16" "data < 2" "descr < 32"
  defines "v \<equiv> fac_layout frame rm spectrum il msc sdc services sid short lang data descr"
  shows "bitfield v 1 2 = frame" "v ! 3 = of_nat rm" "bitfield v 4 3 = spectrum" "v ! 7 = of_nat il"
    "bitfield v 8 2 = msc" "v ! 10 = of_nat sdc" "bitfield v 11 4 = services" "bitfield v 20 24 = sid"
    "bitfield v 44 2 = short" "bitfield v 47 4 = lang" "drop 20 v ! 31 = of_nat data" "bitfield v 52 5 = descr"
  using assms(1-12)
  by (simp_all add: v_def fac_layout_def bitfield_later bitfield_here bitfield_Cons nth_append nth_Cons' field_bits_1)

definition service_counts :: "(int \<times> int) list" where
  "service_counts = [(4, 0), (0, 1), (0, 2), (0, 3), (1, 0), (1, 1), (1, 2), (1, 3), (2, 0), (2, 1), (2, 2),
     (3, 0), (3, 0), (3, 1), (0, 4), (0, 4)]"

lemma set_services_eq:
  assumes "val < 16"
  shows "set_services val st
    = st\<lparr>audioServices := fst (service_counts ! val), dataServices := snd (service_counts ! val)\<rparr>"
proof -
  have "val = 0 \<or> val = 1 \<or> val = 2 \<or> val = 3 \<or> val = 4 \<or> val = 5 \<or> val = 6 \<or> val = 7 \<or> val = 8 \<or> val = 9
    \<or> val = 10 \<or> val = 11 \<or> val = 12 \<or> val = 13 \<or> val = 14 \<or> val = 15"
    using assms by arith
  then show ?thesis by (elim disjE; simp add: set_services_def service_counts_def)
qed

lemma set_channelParameters_layout:
  assumes "frame < 4" "rm < 2" "spectrum < 8" "il < 2" "msc < 4" "sdc < 2" "services < 16"
    "sid < 2 ^ 24" "short < 4" "lang < 16" "data < 2" "descr < 32"
  shows "set_channelParameters (fac_layout frame rm spectrum il msc sdc services sid short lang data descr) st
    = st\<lparr>frameIdentity := int frame, RMflag := (rm = 1), spectrumBits := spectrum,
        interleaverDepth := (if il = 0 then 5 else 1),
        QAMMode := (if rm = 1 then (if msc = 1 then QAMMode st else QAM16) else if msc = 3 then QAM16 else QAM64),
        mscMode := (if rm = 1 then (if msc = 1 then mscMode st else SM)
          else if msc = 1 then HMI else if msc = 2 then HMIQ else SM),
        sdcMode := sdc, audioServices := fst (service_counts ! services), dataServices := snd (service_counts ! services)\<rparr>"
proof -
  note r = fac_layout_reads [OF assms]
  have rm: "(of_nat rm AND 1 \<noteq> (0 :: u8)) = (rm = 1)" "unat (of_nat sdc AND 1 :: u8) = sdc" "(of_nat il = (0 :: u8)) = (il = 0)"
    using assms(2,4,6) by (auto simp: less_2_cases)
  show ?thesis
    unfolding set_channelParameters_def r rm Let_def by (simp add: set_services_eq [OF assms(7)])
qed

lemma update_stream_simps [simp]:
  "length (streams (update_stream k f st)) = length (streams st)"
  "k < length (streams st) \<Longrightarrow> streams (update_stream k f st) ! k = f (streams st ! k)"
  "j \<noteq> k \<Longrightarrow> streams (update_stream k f st) ! j = streams st ! j"
  "numofStreams (update_stream k f st) = numofStreams st"
  "audio_channel_1 (update_stream k f st) = audio_channel_1 st" "audio_channel_2 (update_stream k f st) = audio_channel_2 st"
  "audioServices (update_stream k f st) = audioServices st" "dataServices (update_stream k f st) = dataServices st"
  by (simp_all add: update_stream_def)

lemma update_stream_twice:
  "k < length (streams st) \<Longrightarrow> update_stream k g (update_stream k f st) = update_stream k (g \<circ> f) st"
  by (simp add: update_stream_def)

text \<open>The service parameters change one stream only.\<close>

lemma set_serviceParameters_eq:
  assumes "bitfield v 24 2 < length (streams st)" "bits v"
  shows "set_serviceParameters v st = update_stream (bitfield v 24 2) (\<lambda>d.
     let d = d\<lparr>serviceId := int (bitfield v 0 24), shortId := bitfield v 24 2,
            theLanguage := languages ! (bitfield v 27 4), isAudio := (v ! 31 = 0)\<rparr>
     in if v ! 31 = 0 then d\<lparr>theProgrammeType := programme_types ! (bitfield v 32 5)\<rparr> else d) st"
proof -
  let ?k = "bitfield v 24 2"
  have l: "bitfield v 27 4 < 16" "bitfield v 32 5 < 32"
    using bitfield_less [OF assms(2), of 27 4] bitfield_less [OF assms(2), of 32 5] by simp_all
  have m: "bitfield (map (\<lambda>x. x AND 1) (drop 32 v)) 0 5 = bitfield v 32 5"
    using assms(2) by (simp add: and_1_bits onebit)
  show ?thesis
    using assms(1) l
    by (simp add: set_serviceParameters_def set_serviceLanguage_def set_serviceDescriptor_def Let_def m
        update_stream_twice comp_def)
qed

lemma set_channelParameters_streams [simp]:
  "streams (set_channelParameters v st) = streams st" "numofStreams (set_channelParameters v st) = numofStreams st"
  "audio_channel_1 (set_channelParameters v st) = audio_channel_1 st"
  "audio_channel_2 (set_channelParameters v st) = audio_channel_2 st"
  by (simp_all add: set_channelParameters_def set_services_def Let_def)

lemma set_channelParameters_services:
  assumes "bits v"
  shows "audioServices (set_channelParameters v st) + dataServices (set_channelParameters v st) \<in> {1 .. 4}"
proof -
  have l: "bitfield v 11 4 < 16" using bitfield_less [OF assms, of 11 4] by simp
  then have "bitfield v 11 4 \<in> set [0 ..< 16]" by simp
  moreover have "list_all (\<lambda>n. fst (service_counts ! n) + snd (service_counts ! n) \<in> {1 .. 4}) [0 ..< 16]"
    by (simp add: upt_rec service_counts_def)
  ultimately show ?thesis
    using l by (auto simp: set_channelParameters_def set_services_eq Let_def list_all_iff)
qed

section \<open>Properties\<close>

text \<open>
  C10. The fast access channel round trip. The 64 bits of a channel, whatever they are, followed by
  their CRC, dispersed, coded, punctured, interleaved and put on the FAC cells of a frame, are found
  by the decoder, which accepts them and interprets exactly these bits.
\<close>

theorem FAC_roundtrip:
  fixes imax :: "'f::linordered_field"
  assumes "bits u" "length u = 64" "0 < imax"
    "clean rTableQAM4 (\<lambda>j. unat (fac_sent (disperse 72 (u @ crc_bits fac_crc u)) ! j)) (fac_vector M s outbank) 65"
  shows "processFAC imax M s outbank st
    = (True, interpretFac u (st\<lparr>mscCells_of := mscCells M s, muxSize := mscCells M s div 3\<rparr>))"
proof -
  let ?x = "disperse 72 (u @ crc_bits fac_crc u)"
  note c = crc_bits_facts [OF fac_crc_ok, of u]
  have x: "bits ?x" "length ?x = 72"
    using assms(1,2) c by (simp_all add: prbs_scrambler.scramble_bits fac_crc_def)
  have "disperse 72 (fromSamplestoBits imax (fac_vector M s outbank)) = u @ crc_bits fac_crc u"
    by (simp add: fromSamplestoBits_decodes [OF x assms(4,3)] prbs_scrambler.scramble_scramble)
  then show ?thesis using assms(2) by (simp add: processFAC_eq Let_def)
qed

text \<open>The grid of cells of the examples: all cells as the bits of the channel ask for.\<close>

definition fac_grid :: "nat \<Rightarrow> nat \<Rightarrow> u8 list \<Rightarrow> rat theSignal list list" where
  "fac_grid M s sent = map (\<lambda>symbol. map (\<lambda>i. case map_of (zip (fac_entries M) [0 ..< 65]) (int symbol, int i + Kmin M s) of
       None \<Rightarrow> \<lparr>sig_re = 0, sig_im = 0, rTrans = 0\<rparr>
     | Some k \<Rightarrow> \<lparr>sig_re = rTableQAM4 ! unat (sent ! (2 * k)) ! 0, sig_im = rTableQAM4 ! unat (sent ! (2 * k + 1)) ! 1, rTrans = 1\<rparr>)
     [0 ..< nat (Kmax M s - Kmin M s + 1)]) [0 ..< nat (symbolsperFrame M)]"

lemma fac_grid_clean:
  assumes "M \<in> set [1, 2, 3, 4]" "s < 6"
  shows "clean rTableQAM4 (\<lambda>j. unat (sent ! j)) (fac_vector M s (fac_grid M s sent)) 65"
proof -
  let ?e = "fac_entries M"
  have "fac_vector M s (fac_grid M s sent) ! k
      = \<lparr>sig_re = rTableQAM4 ! unat (sent ! (2 * k)) ! 0, sig_im = rTableQAM4 ! unat (sent ! (2 * k + 1)) ! 1, rTrans = 1\<rparr>"
    if k: "k < 65" for k
  proof -
    obtain symbol carrier where e: "?e ! k = (symbol, carrier)" by fastforce
    have "(symbol, carrier) \<in> set ?e" using k e by (metis length_fac_entries nth_mem)
    then have r: "2 \<le> symbol" "symbol < symbolsperFrame M" "Kmin M s \<le> carrier" "carrier \<le> Kmax M s" "distinct ?e"
      using fac_entries_facts assms unfolding list_all_iff by fastforce+
    have m: "map_of (zip ?e [0 ..< 65]) (symbol, carrier) = Some k"
      using r(5) k e by (intro map_of_is_SomeI) (auto simp: in_set_zip intro!: exI [of _ k])
    show ?thesis
      using k r m by (simp add: fac_vector_def fac_grid_def e nat_less_iff)
  qed
  then show ?thesis
    by (auto simp: clean_def component_def less_2_cases) (simp add: fac_vector_def)
qed

theorem FAC_roundtrip_witness:
  "let u = fac_layout 0 0 3 0 0 1 4 1234567 1 5 0 1
   in processFAC 1 2 3 (fac_grid 2 3 (fac_sent (disperse 72 (u @ crc_bits fac_crc u)))) blank_state
    = (True, interpretFac u (blank_state\<lparr>mscCells_of := mscCells 2 3, muxSize := mscCells 2 3 div 3\<rparr>))"
  unfolding Let_def by (rule FAC_roundtrip) (simp_all add: fac_layout_bits fac_grid_clean)

text \<open>
  C25. The layout of the channel. Written by the sender's rules, the parameters are read back: the
  modulation, the services, and the description of the one service the channel names; no other
  stream description changes, and audio programme types are only set for audio services.
\<close>

theorem FAC_layout_interpreted:
  assumes "frame < 4" "rm < 2" "spectrum < 8" "il < 2" "msc < 4" "sdc < 2" "services < 16"
    "sid < 2 ^ 24" "short < 4" "lang < 16" "data < 2" "descr < 32" "length (streams st) = 4"
  shows "interpretFac (fac_layout frame rm spectrum il msc sdc services sid short lang data descr) st
    = update_stream short (\<lambda>d. let d = d\<lparr>serviceId := int sid, shortId := short,
          theLanguage := languages ! lang, isAudio := (data = 0)\<rparr>
        in if data = 0 then d\<lparr>theProgrammeType := programme_types ! descr\<rparr> else d)
      (st\<lparr>frameIdentity := int frame, RMflag := (rm = 1), spectrumBits := spectrum,
        interleaverDepth := (if il = 0 then 5 else 1),
        QAMMode := (if rm = 1 then (if msc = 1 then QAMMode st else QAM16) else if msc = 3 then QAM16 else QAM64),
        mscMode := (if rm = 1 then (if msc = 1 then mscMode st else SM)
          else if msc = 1 then HMI else if msc = 2 then HMIQ else SM),
        sdcMode := sdc, audioServices := fst (service_counts ! services), dataServices := snd (service_counts ! services)\<rparr>)"
proof -
  let ?v = "fac_layout frame rm spectrum il msc sdc services sid short lang data descr"
  let ?st = "set_channelParameters ?v st"
  note r = fac_layout_reads [OF assms(1-12)]
  have d: "(of_nat data = (0 :: u8)) = (data = 0)" using assms(11) by (auto simp: less_2_cases)
  have "interpretFac ?v st = set_serviceParameters (drop 20 ?v) ?st" by (simp add: interpretFac_def)
  also have "\<dots> = update_stream short (\<lambda>d. let d = d\<lparr>serviceId := int sid, shortId := short,
          theLanguage := languages ! lang, isAudio := (data = 0)\<rparr>
        in if data = 0 then d\<lparr>theProgrammeType := programme_types ! descr\<rparr> else d) ?st"
  proof -
    have rd: "bitfield (drop 20 ?v) 24 2 = short" "bitfield (drop 20 ?v) 0 24 = sid"
      "bitfield (drop 20 ?v) 27 4 = lang" "bitfield (drop 20 ?v) 32 5 = descr"
      using r by simp_all
    have "bitfield (drop 20 ?v) 24 2 < length (streams ?st)" "bits (drop 20 ?v)"
      using assms(9,13) rd(1) by (simp_all add: fac_layout_bits onebit del: bitfield_drop)
    from set_serviceParameters_eq [OF this, unfolded rd r(11) d] show ?thesis .
  qed
  finally show ?thesis by (simp only: set_channelParameters_layout [OF assms(1-12)])
qed

theorem FAC_layout_interpreted_witness:
  "interpretFac (fac_layout 0 0 3 0 0 1 4 1234567 1 5 0 1) blank_state
    = update_stream 1 (\<lambda>d. let d = d\<lparr>serviceId := int 1234567, shortId := 1,
          theLanguage := languages ! 5, isAudio := ((0 :: nat) = 0)\<rparr>
        in if (0 :: nat) = 0 then d\<lparr>theProgrammeType := programme_types ! 1\<rparr> else d)
      (blank_state\<lparr>frameIdentity := int 0, RMflag := ((0 :: nat) = 1), spectrumBits := 3,
        interleaverDepth := (if (0 :: nat) = 0 then 5 else 1),
        QAMMode := (if (0 :: nat) = 1 then (if (0 :: nat) = 1 then QAMMode blank_state else QAM16) else if (0 :: nat) = 3 then QAM16 else QAM64),
        mscMode := (if (0 :: nat) = 1 then (if (0 :: nat) = 1 then mscMode blank_state else SM)
          else if (0 :: nat) = 1 then HMI else if (0 :: nat) = 2 then HMIQ else SM),
        sdcMode := 1, audioServices := fst (service_counts ! 4), dataServices := snd (service_counts ! 4)\<rparr>)"
  by (rule FAC_layout_interpreted) (simp_all add: blank_state_def)

text \<open>
  C27. Acceptance. On any input at all the state only changes when the last 8 bits are the CRC of the
  first 64; then these are interpreted, the state keeps its invariant, and between one and four
  services are announced.
\<close>

theorem FAC_accepts_or_keeps:
  fixes imax :: "'f::linordered_field" and outbank :: "'f theSignal list list"
  assumes "state_ok st"
  shows "let d = disperse 72 (fromSamplestoBits imax (fac_vector M s outbank)); r = processFAC imax M s outbank st
     in fst r = (drop 64 d = crc_bits fac_crc (take 64 d))
       \<and> (if fst r then state_ok (snd r) \<and> audioServices (snd r) + dataServices (snd r) \<in> {1 .. 4} else snd r = st)"
proof -
  let ?d = "disperse 72 (fromSamplestoBits imax (fac_vector M s outbank))"
  let ?s = "st\<lparr>mscCells_of := mscCells M s, muxSize := mscCells M s div 3\<rparr>"
  have u: "bits (take 64 ?d)"
    by (simp add: prbs_scrambler.scramble_bits fac_buffers onebit)
  have k: "bitfield (drop 20 (take 64 ?d)) 24 2 < 4"
    using bitfield_less [of "drop 20 (take 64 ?d)" 24 2] u by (simp add: onebit del: bitfield_drop)
  have st: "state_ok ?s" "length (streams st) = 4" using assms by (simp_all add: state_ok_def)
  have "state_ok (interpretFac (take 64 ?d) ?s)"
    using st k set_serviceParameters_eq [of "drop 20 (take 64 ?d)" "set_channelParameters (take 64 ?d) ?s"] u
    by (simp add: state_ok_def interpretFac_def onebit del: bitfield_drop)
  moreover have "audioServices (interpretFac (take 64 ?d) ?s) + dataServices (interpretFac (take 64 ?d) ?s) \<in> {1 .. 4}"
    using st k set_serviceParameters_eq [of "drop 20 (take 64 ?d)" "set_channelParameters (take 64 ?d) ?s"] u
      set_channelParameters_services [OF u, of ?s]
    by (simp add: interpretFac_def onebit del: bitfield_drop)
  ultimately show ?thesis by (simp add: processFAC_eq Let_def del: atLeastAtMost_iff)
qed

theorem FAC_accepts_or_keeps_witness:
  "let outbank = fac_grid 2 3 (replicate 130 0);
       d = disperse 72 (fromSamplestoBits 1 (fac_vector 2 3 outbank)); r = processFAC 1 2 3 outbank blank_state
     in fst r = (drop 64 d = crc_bits fac_crc (take 64 d))
       \<and> (if fst r then state_ok (snd r) \<and> audioServices (snd r) + dataServices (snd r) \<in> {1 .. 4}
          else snd r = blank_state)"
  unfolding Let_def
  by (rule FAC_accepts_or_keeps [unfolded Let_def]) (simp add: state_ok_def blank_state_def)

end
