(* ===== verification/DrmSdc.thy ===== *)
theory DrmSdc
  imports DrmFac "HOL-Library.Signed_Division" "HOL-Library.Monad_Syntax"
begin

text \<open>
  The service description channel (\<open>sdc/sdc-processor.cpp\<close>, \<open>sdc/sdc-include.h\<close>): its block is decoded
  from the QAM-4 or QAM-16 cells of the first frame of a super frame, checked, and its entities fill
  in the state that the multiplex handlers use. A read past the end of the block is \<open>None\<close>; the
  displays the processor signals are a list.
\<close>

section \<open>Reading a block\<close>

definition get_SDCBits :: "u8 list \<Rightarrow> nat \<Rightarrow> nat \<Rightarrow> nat option" where
  "get_SDCBits v offset nr =
     (if offset + nr \<le> length v then Some (bitfield (map (\<lambda>x. x AND 1) v) offset nr mod 2 ^ 16) else None)"

datatype sdc_signal = Time_label int int | Channel_name nat "nat list"

record sdc_state =
  sdcCorrect :: bool
  theState :: stateDescriptor
  emitted :: "sdc_signal list"

definition on_state :: "(stateDescriptor \<Rightarrow> stateDescriptor) \<Rightarrow> sdc_state \<Rightarrow> sdc_state" where
  "on_state f s = s\<lparr>theState := f (theState s)\<rparr>"

text \<open>\<open>count\<close> bytes from position \<open>pos\<close> on.\<close>

fun get_bytes :: "u8 list \<Rightarrow> nat \<Rightarrow> nat \<Rightarrow> nat list option" where
  "get_bytes v pos 0 = Some []"
| "get_bytes v pos (Suc count) = do {
     b \<leftarrow> get_SDCBits v pos 8;
     bs \<leftarrow> get_bytes v (pos + 8) count;
     Some (b # bs) }"

section \<open>The entities\<close>

text \<open>Type 0, the multiplex description: the loop over the streams from the \<open>i\<close>th on, \<open>n\<close> of them.\<close>

fun set_lengths :: "u8 list \<Rightarrow> nat \<Rightarrow> nat \<Rightarrow> stateDescriptor \<Rightarrow> stateDescriptor option" where
  "set_lengths v i 0 st = Some st"
| "set_lengths v i (Suc n) st = do {
     h \<leftarrow> get_SDCBits v (4 + i * 24) 12;
     l \<leftarrow> get_SDCBits v (16 + i * 24) 12;
     set_lengths v (i + 1) n
       ((update_stream i (\<lambda>d. d\<lparr>lengthHigh := int h, lengthLow := int l, inUse := True\<rparr>) st)
        \<lparr>dataLength := to_int16 (dataLength st + (int h + int l)), dataHigh := to_int16 (dataHigh st + int h)\<rparr>) }"

definition multiplex_description :: "u8 list \<Rightarrow> nat \<Rightarrow> sdc_state \<Rightarrow> sdc_state option" where
  "multiplex_description v lengthofBody s =
     (if lengthofBody div 3 > 4 then Some (s\<lparr>sdcCorrect := False\<rparr>)
      else do {
        a \<leftarrow> get_SDCBits v 0 2;
        b \<leftarrow> get_SDCBits v 2 2;
        st \<leftarrow> set_lengths v 0 (lengthofBody div 3)
          ((theState s)\<lparr>numofStreams := lengthofBody div 3, protLevelA := a, protLevelB := b, dataLength := 0\<rparr>);
        Some (s\<lparr>theState := st\<rparr>) })"

text \<open>
  Type 1, a label: it becomes the name of the first stream in use with its identification, unless that
  has a name; the name is a C string.
\<close>

definition label_entity :: "u8 list \<Rightarrow> nat \<Rightarrow> sdc_state \<Rightarrow> sdc_state option" where
  "label_entity v lengthofBody s = do {
     sid \<leftarrow> get_SDCBits v 0 2;
     rfu \<leftarrow> get_SDCBits v 2 2;
     label \<leftarrow> get_bytes v 4 lengthofBody;
     Some (if lengthofBody > 1 then
       (case filter (\<lambda>i. inUse (streams (theState s) ! i) \<and> shortId (streams (theState s) ! i) = sid)
               [0 ..< numofStreams (theState s)] of
          [] \<Rightarrow> s
        | i # _ \<Rightarrow>
          if serviceName (streams (theState s) ! i) \<noteq> [] then s
          else (on_state (update_stream i (serviceName_update
                 (\<lambda>_. map (\<lambda>b. char_of b) (takeWhile (\<lambda>b. b \<noteq> 0) label)))) s)
               \<lparr>emitted := emitted s @ [Channel_name sid (label @ [0])]\<rparr>)
       else s) }"

text \<open>Type 5, the description of a data application.\<close>

definition application_entity :: "u8 list \<Rightarrow> sdc_state \<Rightarrow> sdc_state option" where
  "application_entity v s = do {
     index \<leftarrow> get_SDCBits v 2 2;
     sid \<leftarrow> get_SDCBits v 0 2;
     packet \<leftarrow> get_SDCBits v 4 1;
     let s = on_state (update_stream index (\<lambda>d. d\<lparr>soort := DATA_STREAM, shortId := sid, streamId := index,
       packetModeInd := packet\<rparr>)) s;
     if packet = 0 then do {
       r \<leftarrow> get_SDCBits v 5 3;
       e \<leftarrow> get_SDCBits v 8 1;
       dom \<leftarrow> get_SDCBits v 9 3;
       Some (on_state (update_stream index (\<lambda>d. d\<lparr>rfa := r, enhancementFlag := e, domainId := dom\<rparr>)) s) }
     else do {
       u \<leftarrow> get_SDCBits v 5 1;
       p \<leftarrow> get_SDCBits v 6 2;
       e \<leftarrow> get_SDCBits v 8 1;
       dom \<leftarrow> get_SDCBits v 9 3;
       l \<leftarrow> get_SDCBits v 12 8;
       let s = on_state (update_stream index (\<lambda>d. d\<lparr>dataUnitIndicator := u, packetId := p,
         enhancementFlag := e, domainId := dom, packetLength := int l\<rparr>)) s;
       s \<leftarrow> (if dom = 0 then do {
             a \<leftarrow> get_SDCBits v 20 16;
             Some (on_state (update_stream index (\<lambda>d. d\<lparr>applicationId := to_int16 (int a)\<rparr>)) s) }
           else if dom = 1 then do {
             a \<leftarrow> get_SDCBits v 25 11;
             Some (on_state (update_stream index (\<lambda>d. d\<lparr>applicationId := to_int16 (int a)\<rparr>)) s) }
           else Some s);
       Some (on_state (update_stream index (\<lambda>d. d\<lparr>startofData := 36\<rparr>)) s) } }"

text \<open>Type 8, time and date.\<close>

definition time_entity :: "u8 list \<Rightarrow> nat \<Rightarrow> sdc_state \<Rightarrow> sdc_state option" where
  "time_entity v lengthofBody s = do {
     hours \<leftarrow> get_SDCBits v 17 5;
     minutes \<leftarrow> get_SDCBits v 22 6;
     hours \<leftarrow> (if lengthofBody > 30 then do {
         offset \<leftarrow> get_SDCBits v 31 5;
         f \<leftarrow> get_SDCBits v 30 1;
         Some (int hours + (if f \<noteq> 0 then - int offset else int offset)) }
       else Some (int hours));
     Some (s\<lparr>emitted := emitted s @ [Time_label hours (int minutes)]\<rparr>) }"

text \<open>Type 9, the description of an audio stream; xHE-AAC adds bytes for its decoder.\<close>

definition audio_entity :: "u8 list \<Rightarrow> nat \<Rightarrow> sdc_state \<Rightarrow> sdc_state option" where
  "audio_entity v lengthofBody s = do {
     index \<leftarrow> get_SDCBits v 2 2;
     sid \<leftarrow> get_SDCBits v 0 2;
     coding \<leftarrow> get_SDCBits v 4 2;
     sbr \<leftarrow> get_SDCBits v 6 1;
     mode \<leftarrow> get_SDCBits v 7 2;
     rate \<leftarrow> get_SDCBits v 9 3;
     txt \<leftarrow> get_SDCBits v 12 1;
     enh \<leftarrow> get_SDCBits v 13 1;
     coder \<leftarrow> get_SDCBits v 14 5;
     r \<leftarrow> get_SDCBits v 19 1;
     let s = on_state (update_stream index (\<lambda>d. d\<lparr>soort := AUDIO_STREAM, shortId := sid, streamId := index,
       audioCoding := coding, SBR_flag := sbr, audioMode := mode, audioSamplingRate := rate, textFlag := txt,
       enhancementFlag := enh, coderField := coder, rfa := r\<rparr>)) s;
     if coding = 3 then do {
       bs \<leftarrow> get_bytes v 20 (nat ((int index + 16 + 8 * int lengthofBody - 20) sdiv 8));
       Some (on_state (update_stream index (\<lambda>d. d\<lparr>xHE_AAC := bs\<rparr>)) s) }
     else Some s }"

text \<open>Type 12 only reads, type 14 describes the error protection of a packet stream.\<close>

definition language_entity :: "u8 list \<Rightarrow> sdc_state \<Rightarrow> sdc_state option" where
  "language_entity v s = do {
     sid \<leftarrow> get_SDCBits v 0 2;
     rfu \<leftarrow> get_SDCBits v 2 2;
     l0 \<leftarrow> get_SDCBits v 4 8;
     l1 \<leftarrow> get_SDCBits v 12 8;
     l2 \<leftarrow> get_SDCBits v 20 8;
     c0 \<leftarrow> get_SDCBits v 28 8;
     c1 \<leftarrow> get_SDCBits v 36 8;
     Some s }"

definition fec_entity :: "u8 list \<Rightarrow> sdc_state \<Rightarrow> sdc_state option" where
  "fec_entity v s = do {
     index \<leftarrow> get_SDCBits v 0 2;
     rfu \<leftarrow> get_SDCBits v 2 2;
     r \<leftarrow> get_SDCBits v 4 8;
     c \<leftarrow> get_SDCBits v 12 8;
     l \<leftarrow> get_SDCBits v 20 8;
     Some (on_state (update_stream index (\<lambda>d. d\<lparr>R_code := int r, C_code := int c, packetLength := int l - 3,
       FEC_flag := True\<rparr>)) s) }"

definition set_SDCData :: "u8 list \<Rightarrow> nat \<Rightarrow> nat \<Rightarrow> nat \<Rightarrow> sdc_state \<Rightarrow> sdc_state option" where
  "set_SDCData v dataType versionFlag lengthofBody s =
     (if versionFlag = 1 then Some s
      else if dataType = 0 then multiplex_description v lengthofBody s
      else if dataType = 1 then label_entity v lengthofBody s
      else if dataType = 5 then application_entity v s
      else if dataType = 8 then time_entity v lengthofBody s
      else if dataType = 9 then audio_entity v lengthofBody s
      else if dataType = 12 then language_entity v s
      else if dataType = 14 then fec_entity v s
      else Some s)"

section \<open>The loop over the entities\<close>

text \<open>\<open>limit\<close> is \<open>lengthofDatafield * 8 + 8\<close>.\<close>

function sdc_loop :: "u8 list \<Rightarrow> nat \<Rightarrow> nat \<Rightarrow> sdc_state \<Rightarrow> sdc_state option" where
  "sdc_loop v limit index s =
     (if index < limit then do {
        lengthofBody \<leftarrow> get_SDCBits v index 7;
        versionFlag \<leftarrow> get_SDCBits v (index + 7) 1;
        dataType \<leftarrow> get_SDCBits v (index + 8) 4;
        if dataType = 0 \<and> lengthofBody = 0 then Some s
        else do {
          s \<leftarrow> (if index + 12 + lengthofBody < limit
                then set_SDCData (drop (index + 12) v) dataType versionFlag lengthofBody s else Some s);
          sdc_loop v limit (index + 12 + (lengthofBody * 8 + 4)) s } }
      else Some s)"
  by pat_completeness auto
termination by (relation "measure (\<lambda>(v, limit, index, s). limit - index)") simp_all

declare sdc_loop.simps [simp del]

definition interpretSDC :: "u8 list \<Rightarrow> nat \<Rightarrow> sdc_state \<Rightarrow> sdc_state option" where
  "interpretSDC v sz s = do {
     s \<leftarrow> sdc_loop v ((sz - 16 - 4) div 8 * 8 + 8) 8 (s\<lparr>sdcCorrect := True\<rparr>);
     Some (s\<lparr>theState := (theState s)\<lparr>set_flag := sdcCorrect s\<rparr>\<rparr>) }"

section \<open>The processor\<close>

definition sdc_crc :: check_crc where
  "sdc_crc = \<lparr>crc_size = 16, crc_polynome = [0, 0, 0, 1, 0, 0, 0, 0, 0, 0, 1, 0, 0, 0, 0]\<rparr>"

definition table_56 :: "int list" where
  "table_56 = [37, 43, 85, 97, 184, 17, 20, 41, 47, 91, 28, 33, 66, 76, 143, 13, 15, 32, 37, 70,
     - 1, - 1, - 1, 68, - 1, - 1, - 1, - 1, 32, - 1, - 1, - 1, - 1, 33, - 1, - 1, - 1, - 1, 15, - 1]"

definition getLengthofSDC :: "nat \<Rightarrow> nat \<Rightarrow> nat \<Rightarrow> int" where
  "getLengthofSDC M s m = (let index = (M - 1) * 10 + (if m = 1 then 5 else 0) + s in 4 + 8 * table_56 ! index + 16)"

record sdc_processor =
  sdc_table :: "(int \<times> int) list"
  sdc_qam16 :: bool
  stream_0 :: SDC_streamer
  stream_1 :: "SDC_streamer option"
  lengthofSDC :: nat

text \<open>The constructor; \<open>None\<close> where a mapper or a streamer cannot be built or there is no table entry.\<close>

definition new_sdcProcessor :: "(int \<times> int) list \<Rightarrow> stateDescriptor \<Rightarrow> sdc_processor option" where
  "new_sdcProcessor table st =
     (let n = length table; l = getLengthofSDC (Mode st) (Spectrum st) (sdcMode st)
      in if (Mode st - 1) * 10 + (if sdcMode st = 1 then 5 else 0) + Spectrum st \<ge> 40 then None
      else if \<not> RMflag st \<and> sdcMode st = 0 then do {
        Y13 \<leftarrow> mapper (int (2 * n)) 13;
        Y21 \<leftarrow> mapper (int (2 * n)) 21;
        s0 \<leftarrow> new_SDC_streamer 1 3 Y13 n;
        s1 \<leftarrow> new_SDC_streamer 2 3 Y21 n;
        Some \<lparr>sdc_table = table, sdc_qam16 = True, stream_0 = s0, stream_1 = Some s1, lengthofSDC = nat l\<rparr> }
      else do {
        Y21 \<leftarrow> mapper (int (2 * n)) 21;
        s0 \<leftarrow> new_SDC_streamer 1 2 Y21 n;
        Some \<lparr>sdc_table = table, sdc_qam16 = False, stream_0 = s0, stream_1 = None, lengthofSDC = nat l\<rparr> })"

text \<open>
  The cells; an access outside the grid ends the collection, and the cells that are left are zero.
\<close>

definition elementValue :: "'a list list \<Rightarrow> int \<Rightarrow> int \<Rightarrow> 'a option" where
  "elementValue table row column =
     (if row < 0 \<or> row \<ge> int (length table) \<or> column < 0 \<or> column \<ge> int (length (table ! nat row)) then None
      else Some (table ! nat row ! nat column))"

definition sdc_vector :: "nat \<Rightarrow> nat \<Rightarrow> (int \<times> int) list \<Rightarrow> 'f::zero theSignal list list \<Rightarrow> 'f theSignal list" where
  "sdc_vector M s table outbank =
     (let got = takeWhile (\<lambda>c. c \<noteq> None)
        (map (\<lambda>(symbol, carrier). elementValue outbank symbol (carrier - Kmin M s)) table)
      in map the got @ replicate (length table - length got) \<lparr>sig_re = 0, sig_im = 0, rTrans = 0\<rparr>)"

text \<open>CRC and interpretation of the bits after the four zeros; \<open>None\<close> where the CRC reads past the bits.\<close>

definition check_and_interpret :: "nat \<Rightarrow> u8 list \<Rightarrow> sdc_state \<Rightarrow> (bool \<times> sdc_state) option" where
  "check_and_interpret len b s =
     (let sdcBits = replicate 4 0 @ b; (ok, sdcBits) = doCRC sdc_crc sdcBits (4 + len)
      in if length b < len then None
         else if \<not> ok then Some (False, s)
         else do { s \<leftarrow> interpretSDC sdcBits len s; Some (True, s) })"

definition processSDC_QAM4 :: "'f::linordered_field \<Rightarrow> sdc_processor \<Rightarrow> 'f theSignal list \<Rightarrow> sdc_state
   \<Rightarrow> (bool \<times> sdc_state) option" where
  "processSDC_QAM4 imax p v s = do {
     let rawBits = qam4_computemetrics v (length (sdc_table p));
     (reconstructed, sdcBits) \<leftarrow> handle_stream imax (stream_0 p) rawBits [] False;
     sdcBits \<leftarrow> doPRBS (outLength (stream_0 p)) sdcBits;
     check_and_interpret (lengthofSDC p) sdcBits s }"

definition sdc16_round :: "'f::linordered_field \<Rightarrow> nat \<Rightarrow> SDC_streamer \<Rightarrow> SDC_streamer \<Rightarrow> 'f theSignal list \<Rightarrow> bool
   \<Rightarrow> u8 list \<times> u8 list \<Rightarrow> ((u8 list \<times> u8 list) \<times> (u8 list \<times> u8 list)) option" where
  "sdc16_round imax n s0 s1 v retry levels =
     (let (level_0, level_1) = levels
      in do { let Y0 = qam16_computemetrics v n 0 retry level_0 level_1;
              (level_0, bits_0) \<leftarrow> handle_stream imax s0 Y0 level_0 True;
              let Y1 = qam16_computemetrics v n 1 True level_0 level_1;
              (level_1, bits_1) \<leftarrow> handle_stream imax s1 Y1 level_1 True;
              Some ((bits_0, bits_1), (level_0, level_1)) })"

definition processSDC_QAM16 :: "'f::linordered_field \<Rightarrow> sdc_processor \<Rightarrow> 'f theSignal list \<Rightarrow> sdc_state
   \<Rightarrow> (bool \<times> sdc_state) option" where
  "processSDC_QAM16 imax p v s =
     (let n = length (sdc_table p); s0 = stream_0 p; s1 = the (stream_1 p); zeros = replicate (2 * n) 0
      in do {
        (sdcBits, levels) \<leftarrow> foldl (\<lambda>r i. do { (b, levels) \<leftarrow> r; sdc16_round imax n s0 s1 v (0 < i) levels })
            (Some (([], []), (zeros, zeros))) [0 ..< 4];
        sdcBits \<leftarrow> doPRBS (outLength s0 + outLength s1) (fst sdcBits @ snd sdcBits);
        (ok, s) \<leftarrow> check_and_interpret (lengthofSDC p) sdcBits s;
        Some (if ok then set_flag (theState s) else False, s) })"

definition processSDC :: "'f::linordered_field \<Rightarrow> nat \<Rightarrow> nat \<Rightarrow> sdc_processor \<Rightarrow> 'f theSignal list list \<Rightarrow> sdc_state
   \<Rightarrow> (bool \<times> sdc_state) option" where
  "processSDC imax M sp p outbank s =
     (let sdcVector = sdc_vector M sp (sdc_table p) outbank
      in if sdc_qam16 p then processSDC_QAM16 imax p sdcVector s else processSDC_QAM4 imax p sdcVector s)"

section \<open>Decoding\<close>

lemma sdc_crc_ok: "crc_ok sdc_crc"
  by (simp add: sdc_crc_def crc_ok_def bit_poly_def onebit is_bit_def)

text \<open>The block of a message \<open>u\<close>: the message with its CRC, which covers the four zeros as well, and padding.\<close>

definition sdc_block :: "u8 list \<Rightarrow> u8 list \<Rightarrow> u8 list" where
  "sdc_block u pad = u @ crc_bits sdc_crc (replicate 4 0 @ u) @ pad"

lemma sdc_block_facts:
  "bits u \<Longrightarrow> bits pad \<Longrightarrow> bits (sdc_block u pad)" "length (sdc_block u pad) = length u + 16 + length pad"
  using crc_bits_facts [OF sdc_crc_ok, of "replicate 4 0 @ u"] by (simp_all add: sdc_block_def sdc_crc_def)

lemma check_and_interpret_block:
  assumes "bits u" "bits pad" "len = length u + 16"
  shows "check_and_interpret len (sdc_block u pad) s = do {
    s \<leftarrow> interpretSDC (replicate 4 0 @ u @ map (\<lambda>x. x XOR 1) (crc_bits sdc_crc (replicate 4 0 @ u)) @ pad) len s;
    Some (True, s) }"
proof -
  let ?m = "replicate 4 0 @ u" and ?c = "crc_bits sdc_crc (replicate 4 0 @ u)"
  note c = crc_bits_facts [OF sdc_crc_ok, of ?m]
  have l: "4 + len = length ?m + crc_size sdc_crc" "length ?c = 16" "crc_size sdc_crc = 16"
    using assms(3) c(2) by (simp_all add: sdc_crc_def)
  have "doCRC sdc_crc (?m @ ?c @ pad) (4 + len) = (True, ?m @ map (\<lambda>x. x XOR 1) ?c @ pad)"
  proof -
    have "fst (doCRC sdc_crc (?m @ ?c) (4 + len))"
      unfolding l(1) by (rule doCRC_accepts_crc_bits [OF sdc_crc_ok]) (use assms(1) in \<open>simp add: onebit is_bit_def\<close>)
    then show ?thesis using l assms(3) by (simp add: doCRC_def Let_def crc_invert_def)
  qed
  then show ?thesis using assms(3) l(2) by (simp add: check_and_interpret_def sdc_block_def)
qed

text \<open>An SDC streamer of the processor gets its bits back.\<close>

lemma bits_reencode:
  assumes "(RX, RY) \<in> set code_rates" "6 \<le> n" "cell_permutation (mapIn t) (2 * n)"
    "new_SDC_streamer RX RY t n = Some st" "bits xs" "length xs = outLength st"
  shows "bits (reencode st xs)" "length (reencode st xs) = 2 * n"
proof -
  note m = streamer_mask [OF assms(1,2,4)]
  let ?c = "convolve xs (outLength st)" and ?k = "6 * (outLength st + 6) - 36"
  let ?x = "puncture (regular_mask st) (take ?k ?c) @ puncture (residuTable st) (drop ?k ?c)"
  have len: "length ?c = 6 * (outLength st + 6)" by (rule length_convolve [OF assms(5,6)])
  have "puncture (regular_mask st @ residuTable st) (take ?k ?c @ drop ?k ?c) = ?x"
    using len by (intro puncture_append) simp
  then have x: "length ?x = 2 * n" using m(4,5) len by (metis append_take_drop_id length_puncture)
  have "bits ?x" using assms(5) by (simp add: onebit)
  then have "is_bit (?x ! mapIn t i)" if "i < 2 * n" for i
    using cell_permutation.m_less [OF assms(3) that] x by (auto intro: bits_nth)
  then show "bits (reencode st xs)" by (simp add: reencode_def Let_def remap_def bits_def m(1,2))
  show "length (reencode st xs) = 2 * n" by (simp add: reencode_def Let_def m(2))
qed

lemma mapper_some_permutation:
  assumes "mapper (int (2 * n)) t0 = Some t" "t0 \<in> {13, 21}" "3 \<le> n" "n \<le> 2 ^ 13"
  shows "cell_permutation (mapIn t) (2 * n)"
  using the_mapper_permutation [of t0 "2 * n"] assms by auto

lemma new_sdcProcessor_cases:
  assumes "new_sdcProcessor table st = Some p" "15 \<le> length table" "length table \<le> 2 ^ 12"
  shows "sdc_table p = table" "lengthofSDC p = nat (getLengthofSDC (Mode st) (Spectrum st) (sdcMode st))"
    "sdc_qam16 p = (\<not> RMflag st \<and> sdcMode st = 0)"
    "\<not> sdc_qam16 p \<Longrightarrow> counters_fit (stream_0 p)"
    "sdc_qam16 p \<Longrightarrow> counters_fit (stream_0 p) \<and> counters_fit (the (stream_1 p))"
    "\<not> sdc_qam16 p \<Longrightarrow> \<exists>t. cell_permutation (mapIn t) (2 * length table)
      \<and> new_SDC_streamer 1 2 t (length table) = Some (stream_0 p) \<and> 6 \<le> outLength (stream_0 p)"
    "sdc_qam16 p \<Longrightarrow> \<exists>t t' s1. cell_permutation (mapIn t) (2 * length table) \<and> cell_permutation (mapIn t') (2 * length table)
      \<and> new_SDC_streamer 1 3 t (length table) = Some (stream_0 p) \<and> 6 \<le> outLength (stream_0 p)
      \<and> new_SDC_streamer 2 3 t' (length table) = Some s1 \<and> stream_1 p = Some s1 \<and> 11 \<le> outLength s1"
proof -
  let ?n = "length table"
  have n13: "?n \<le> 2 ^ 13" using assms(3) by simp
  note perm = mapper_some_permutation [of ?n, OF _ _ _ n13]
  have out: "outLength s = RX * ((2 * ?n - 12) div RY)" "nrCells s = ?n" if "new_SDC_streamer RX RY t ?n = Some s" for RX RY t s
    using that by (auto simp: new_SDC_streamer_def split: if_splits option.splits)
  show "sdc_table p = table" "lengthofSDC p = nat (getLengthofSDC (Mode st) (Spectrum st) (sdcMode st))"
    "sdc_qam16 p = (\<not> RMflag st \<and> sdcMode st = 0)"
    using assms(1) by (auto simp: new_sdcProcessor_def Let_def split: if_splits bind_splits)
  show "counters_fit (stream_0 p)" if q: "\<not> sdc_qam16 p"
  proof -
    obtain Y where "new_SDC_streamer 1 2 Y ?n = Some (stream_0 p)"
      using assms(1) q by (auto simp: new_sdcProcessor_def Let_def split: if_splits bind_splits)
    from out [OF this] show ?thesis using assms(3) by (simp add: counters_fit_def)
  qed
  show "counters_fit (stream_0 p) \<and> counters_fit (the (stream_1 p))" if q: "sdc_qam16 p"
  proof -
    obtain Y Y' s1 where Y: "new_SDC_streamer 1 3 Y ?n = Some (stream_0 p)" "new_SDC_streamer 2 3 Y' ?n = Some s1" "stream_1 p = Some s1"
      using assms(1) q by (auto simp: new_sdcProcessor_def Let_def split: if_splits bind_splits)
    have "3 * ((2 * ?n - 12) div 3) \<le> 8180"
      by (rule le_trans [OF times_div_less_eq_dividend]) (use assms(3) in simp)
    then show ?thesis using out [OF Y(1)] out [OF Y(2)] Y(3) assms(3) by (simp add: counters_fit_def)
  qed
  have six: "6 \<le> (2 * ?n - 12) div 3" using assms(2) by (simp add: less_eq_div_iff_mult_less_eq)
  show "\<exists>t. cell_permutation (mapIn t) (2 * ?n) \<and> new_SDC_streamer 1 2 t ?n = Some (stream_0 p)
    \<and> 6 \<le> outLength (stream_0 p)" if q: "\<not> sdc_qam16 p"
  proof -
    obtain Y where Y: "mapper (int (2 * ?n)) 21 = Some Y" "new_SDC_streamer 1 2 Y ?n = Some (stream_0 p)"
      using assms(1) q by (auto simp: new_sdcProcessor_def Let_def split: if_splits bind_splits)
    have "6 \<le> outLength (stream_0 p)" using out [OF Y(2)] assms(2) by simp
    then show ?thesis using perm [OF Y(1)] Y(2) assms(2) by auto
  qed
  show "\<exists>t t' s1. cell_permutation (mapIn t) (2 * ?n) \<and> cell_permutation (mapIn t') (2 * ?n)
      \<and> new_SDC_streamer 1 3 t ?n = Some (stream_0 p) \<and> 6 \<le> outLength (stream_0 p)
      \<and> new_SDC_streamer 2 3 t' ?n = Some s1 \<and> stream_1 p = Some s1 \<and> 11 \<le> outLength s1" if q: "sdc_qam16 p"
  proof -
    obtain Y Y' s1 where Y: "mapper (int (2 * ?n)) 13 = Some Y" "mapper (int (2 * ?n)) 21 = Some Y'"
      "new_SDC_streamer 1 3 Y ?n = Some (stream_0 p)" "new_SDC_streamer 2 3 Y' ?n = Some s1" "stream_1 p = Some s1"
      using assms(1) q by (auto simp: new_sdcProcessor_def Let_def split: if_splits bind_splits)
    have "6 \<le> outLength (stream_0 p)" "11 \<le> outLength s1" using out [OF Y(3)] out [OF Y(4)] six by simp_all
    then show ?thesis using perm [OF Y(1)] perm [OF Y(2)] Y(3-5) assms(2) by auto
  qed
qed

lemma processSDC_QAM4_decodes:
  fixes imax :: "'f::linordered_field"
  assumes "new_sdcProcessor table st = Some p" "15 \<le> length table" "length table \<le> 2 ^ 12" "\<not> sdc_qam16 p"
    "bits b" "length b = outLength (stream_0 p)" "0 < imax"
    "clean rTableQAM4 (\<lambda>j. unat (reencode (stream_0 p) (disperse (length b) b) ! j)) v (length table)"
  shows "processSDC_QAM4 imax p v s = check_and_interpret (lengthofSDC p) b s"
proof -
  note c = new_sdcProcessor_cases [OF assms(1-3)]
  obtain t where t: "cell_permutation (mapIn t) (2 * length table)"
    "new_SDC_streamer 1 2 t (length table) = Some (stream_0 p)" "6 \<le> outLength (stream_0 p)"
    using c(6) [OF assms(4)] by blast
  let ?x = "disperse (length b) b"
  have x: "bits ?x" "length ?x = outLength (stream_0 p)" using assms(5,6) by (simp_all add: prbs_scrambler.scramble_bits)
  have r: "(1, 2) \<in> set code_rates" "6 \<le> length table" "resolve_steps 1 \<le> outLength (stream_0 p)"
    using assms(2) t(3) by (simp_all add: code_rates_def resolve_steps_def)
  note e = bits_reencode [OF r(1,2) t(1,2) x]
  have "receives (qam4_computemetrics v (length table)) (reencode (stream_0 p) ?x)"
    by (rule qam4_receives [OF assms(8) e])
  then have "handle_stream imax (stream_0 p) (qam4_computemetrics v (length table)) [] False = Some ([], ?x)"
    using handle_stream_noise_free [OF r(1,2) t(1,2) r(3) x assms(7) _ c(4) [OF assms(4)]] by simp
  moreover have "doPRBS (outLength (stream_0 p)) ?x = Some b"
    using prbs_scrambler.descramble [of "length b" b] c(4) [OF assms(4)] assms(6) by (simp add: counters_fit_def)
  ultimately show ?thesis by (simp add: processSDC_QAM4_def c(1))
qed

lemma sdc16_round_decodes:
  fixes imax :: "'f::linordered_field"
  assumes "cell_permutation (mapIn t) (2 * n)" "cell_permutation (mapIn t') (2 * n)"
    "new_SDC_streamer 1 3 t n = Some s0" "new_SDC_streamer 2 3 t' n = Some s1" "6 \<le> outLength s0" "11 \<le> outLength s1"
    "15 \<le> n" "bits x0" "length x0 = outLength s0" "bits x1" "length x1 = outLength s1" "0 < imax"
    and y: "y0 = reencode s0 x0" "y1 = reencode s1 x1"
    and c: "clean rTableQAM16 (idx16 y0 y1) v n" and f: "counters_fit s0" "counters_fit s1"
  shows "sdc16_round imax n s0 s1 v False levels = Some ((x0, x1), (y0, y1))"
    "sdc16_round imax n s0 s1 v True (y0, y1) = Some ((x0, x1), (y0, y1))"
proof -
  have r: "(1, 3) \<in> set code_rates" "(2, 3) \<in> set code_rates" "6 \<le> n" "resolve_steps 1 \<le> outLength s0"
    "resolve_steps 2 \<le> outLength s1"
    using assms(5-7) by (simp_all add: code_rates_def resolve_steps_def)
  note e0 = bits_reencode [OF r(1,3) assms(1,3,8,9), folded y(1)]
    and e1 = bits_reencode [OF r(2,3) assms(2,4,10,11), folded y(2)]
  note h0 = handle_stream_noise_free [OF r(1,3) assms(1,3) r(4) assms(8,9,12) _ f(1), folded y(1)]
    and h1 = handle_stream_noise_free [OF r(2,3) assms(2,4) r(5) assms(10,11,12) _ f(2), folded y(2)]
  have r0: "receives (qam16_computemetrics v n 0 False l0 l1) y0" "receives (qam16_computemetrics v n 0 True l0 y1) y0" for l0 l1
    by (rule qam16_receives_0 [OF c e0 e1]; simp)+
  have r1: "receives (qam16_computemetrics v n 1 True y0 l1) y1" for l1
    by (rule qam16_receives_1 [OF c e0 e1])
  show "sdc16_round imax n s0 s1 v True (y0, y1) = Some ((x0, x1), (y0, y1))"
    using h0 [OF r0(2)] h1 [OF r1] by (simp add: sdc16_round_def Let_def)
  obtain l0 l1 where l: "levels = (l0, l1)" by (metis prod.collapse)
  show "sdc16_round imax n s0 s1 v False levels = Some ((x0, x1), (y0, y1))"
    using h0 [OF r0(1)] h1 [OF r1] by (simp add: sdc16_round_def l Let_def)
qed

lemma processSDC_QAM16_decodes:
  fixes imax :: "'f::linordered_field"
  assumes "new_sdcProcessor table st = Some p" "15 \<le> length table" "length table \<le> 2 ^ 12" "sdc_qam16 p"
    "bits b" "length b = outLength (stream_0 p) + outLength (the (stream_1 p))" "0 < imax"
    "clean rTableQAM16 (idx16 (reencode (stream_0 p) (take (outLength (stream_0 p)) (disperse (length b) b)))
      (reencode (the (stream_1 p)) (drop (outLength (stream_0 p)) (disperse (length b) b)))) v (length table)"
  shows "processSDC_QAM16 imax p v s = do {
    (ok, s) \<leftarrow> check_and_interpret (lengthofSDC p) b s; Some (if ok then set_flag (theState s) else False, s) }"
proof -
  note c = new_sdcProcessor_cases [OF assms(1-3)]
  obtain t t' s1 where t: "cell_permutation (mapIn t) (2 * length table)" "cell_permutation (mapIn t') (2 * length table)"
      "new_SDC_streamer 1 3 t (length table) = Some (stream_0 p)" "new_SDC_streamer 2 3 t' (length table) = Some s1"
      "6 \<le> outLength (stream_0 p)" "11 \<le> outLength s1" "stream_1 p = Some s1"
    using c(7) [OF assms(4)] by blast
  let ?g = "disperse (length b) b"
  let ?x0 = "take (outLength (stream_0 p)) ?g" and ?x1 = "drop (outLength (stream_0 p)) ?g"
  have x: "bits ?x0" "length ?x0 = outLength (stream_0 p)" "bits ?x1" "length ?x1 = outLength s1"
    using assms(5,6) t(7) by (simp_all add: prbs_scrambler.scramble_bits onebit)
  have cf: "counters_fit (stream_0 p)" "counters_fit s1" using c(5) [OF assms(4)] t(7) by simp_all
  note r = sdc16_round_decodes [OF t(1-6) assms(2) x assms(7) refl refl _ cf, of v]
  have "foldl (\<lambda>r i. do { (b, levels) \<leftarrow> r; sdc16_round imax (length table) (stream_0 p) s1 v (0 < i) levels }) (Some mem) [0 ..< 4]
    = Some ((?x0, ?x1), (reencode (stream_0 p) ?x0, reencode s1 ?x1))" for mem
    by (rule rounds_fixed) (use r assms(8) t(7) in simp_all)
  moreover have "doPRBS (outLength (stream_0 p) + outLength s1) (?x0 @ ?x1) = Some b"
    using prbs_scrambler.descramble [of "length b" b] cf assms(6) t(7) by (simp add: counters_fit_def)
  ultimately show ?thesis
    using t(7) by (simp add: processSDC_QAM16_def c(1) Let_def)
qed

section \<open>Sequences of entities\<close>

text \<open>The sender's side: an entity has a header and a body of 4 bits and whole bytes.\<close>

record sdc_entity =
  versionF :: nat
  dataT :: nat
  body :: "u8 list"

definition body_bytes :: "sdc_entity \<Rightarrow> nat" where
  "body_bytes e = (length (body e) - 4) div 8"

definition entity_ok :: "sdc_entity \<Rightarrow> bool" where
  "entity_ok e \<longleftrightarrow> versionF e < 2 \<and> dataT e < 16 \<and> bits (body e) \<and> body_bytes e < 128
     \<and> length (body e) = 8 * body_bytes e + 4 \<and> (dataT e, body_bytes e) \<noteq> (0, 0)"

definition entity_bits :: "sdc_entity \<Rightarrow> u8 list" where
  "entity_bits e = field_bits 7 (body_bytes e) @ field_bits 1 (versionF e) @ field_bits 4 (dataT e) @ body e"

text \<open>What the entities do, one after the other, each with the rest of the block behind its body.\<close>

fun entities_effect :: "sdc_entity list \<Rightarrow> u8 list \<Rightarrow> sdc_state \<Rightarrow> sdc_state option" where
  "entities_effect [] rest s = Some s"
| "entities_effect (e # es) rest s = do {
     s \<leftarrow> set_SDCData (body e @ concat (map entity_bits es) @ rest) (dataT e) (versionF e) (body_bytes e) s;
     entities_effect es rest s }"

lemma length_entity_bits: "entity_ok e \<Longrightarrow> length (entity_bits e) = 16 + 8 * body_bytes e"
  by (simp add: entity_bits_def entity_ok_def)

lemma get_SDCBits_eq:
  "bits v \<Longrightarrow> nr \<le> 16 \<Longrightarrow> o' + nr \<le> length v \<Longrightarrow> get_SDCBits v o' nr = Some (bitfield v o' nr)"
proof -
  assume a: "bits v" "nr \<le> 16" "o' + nr \<le> length v"
  have "bitfield v o' nr < 2 ^ nr" by (rule bitfield_less [OF a(1)])
  also have "(2 :: nat) ^ nr \<le> 2 ^ 16" using a(2) by (rule power_increasing) simp
  finally show ?thesis using a by (simp add: get_SDCBits_def and_1_bits)
qed

lemma entity_header:
  assumes "entity_ok e" "bits pre" "bits w" "length pre = i"
  shows "get_SDCBits (pre @ entity_bits e @ w) i 7 = Some (body_bytes e)"
    "get_SDCBits (pre @ entity_bits e @ w) (i + 7) 1 = Some (versionF e)"
    "get_SDCBits (pre @ entity_bits e @ w) (i + 8) 4 = Some (dataT e)"
    "drop (i + 12) (pre @ entity_bits e @ w) = body e @ w"
proof -
  let ?v = "pre @ entity_bits e @ w"
  have e: "body_bytes e < 128" "versionF e < 2" "dataT e < 16" "bits (body e)" using assms(1) by (auto simp: entity_ok_def)
  have v: "bits ?v" "16 + i \<le> length ?v"
    using assms e(4) length_entity_bits [OF assms(1)] by (simp_all add: entity_bits_def)
  have "bitfield ?v i 7 = body_bytes e" "bitfield ?v (i + 7) 1 = versionF e" "bitfield ?v (i + 8) 4 = dataT e"
    using e assms(4) by (simp_all add: bitfield_append entity_bits_def bitfield_here bitfield_later)
  then show "get_SDCBits ?v i 7 = Some (body_bytes e)" "get_SDCBits ?v (i + 7) 1 = Some (versionF e)"
    "get_SDCBits ?v (i + 8) 4 = Some (dataT e)"
    using v by (simp_all only: get_SDCBits_eq)
  show "drop (i + 12) ?v = body e @ w" using assms(4) by (simp add: entity_bits_def)
qed

lemma sdc_loop_entities:
  assumes "list_all entity_ok es" "bits pre" "bits rest" "length pre = i"
    "i + length (concat (map entity_bits es)) = limit
      \<or> i + length (concat (map entity_bits es)) < limit \<and> 12 \<le> length rest \<and> take 12 rest = replicate 12 0"
  shows "sdc_loop (pre @ concat (map entity_bits es) @ rest) limit i s = entities_effect es rest s"
  using assms
proof (induction es arbitrary: pre i s)
  case Nil
  show ?case
  proof (cases "i < limit")
    case True
    then have z: "12 \<le> length rest" "take 12 rest = replicate 12 0" using Nil.prems(5) by auto
    obtain w where w: "rest = replicate 12 0 @ w" by (metis z(2) append_take_drop_id)
    have e: "rest = field_bits 7 0 @ field_bits 1 0 @ field_bits 4 0 @ w"
      by (simp only: w field_bits_0 append_assoc [symmetric] replicate_add [symmetric]) simp
    have "bitfield (pre @ rest) i 7 = 0" "bitfield (pre @ rest) (i + 7) 1 = 0" "bitfield (pre @ rest) (i + 8) 4 = 0"
      using Nil.prems(4) by (simp_all add: e bitfield_append bitfield_here bitfield_later)
    moreover have "bits (pre @ rest)" "i + 12 \<le> length (pre @ rest)" using Nil.prems(2-4) z(1) by simp_all
    ultimately have "get_SDCBits (pre @ rest) i 7 = Some 0" "get_SDCBits (pre @ rest) (i + 7) 1 = Some 0"
      "get_SDCBits (pre @ rest) (i + 8) 4 = Some 0"
      by (simp_all add: get_SDCBits_eq)
    then show ?thesis using True by (subst sdc_loop.simps) simp
  next
    case False
    then show ?thesis by (subst sdc_loop.simps) simp
  qed
next
  case (Cons e es)
  let ?w = "concat (map entity_bits es) @ rest"
  have ok: "entity_ok e" "list_all entity_ok es" using Cons.prems(1) by simp_all
  have bw: "bits (concat (map entity_bits es))" using ok(2)
    by (induction es) (simp_all add: entity_ok_def entity_bits_def)
  have w: "bits ?w" using bw Cons.prems(3) by simp
  note h = entity_header [OF ok(1) Cons.prems(2) w Cons.prems(4)]
  note l = length_entity_bits [OF ok(1)]
  have lim: "i < limit" "i + 12 + body_bytes e < limit" using Cons.prems(5) l by auto
  have nz: "\<not> (dataT e = 0 \<and> body_bytes e = 0)" using ok(1) by (simp add: entity_ok_def)
  have step: "sdc_loop ((pre @ entity_bits e) @ ?w) limit (i + (16 + 8 * body_bytes e)) s' = entities_effect es rest s'" for s'
    by (rule Cons.IH [OF ok(2) _ Cons.prems(3)])
      (use ok(1) Cons.prems(2,4,5) l in \<open>simp_all add: entity_bits_def entity_ok_def add.assoc\<close>)
  then have step': "sdc_loop (pre @ entity_bits e @ ?w) limit (i + (16 + 8 * body_bytes e)) = entities_effect es rest"
    by (simp add: fun_eq_iff)
  have idx: "i + 12 + (body_bytes e * 8 + 4) = i + (16 + 8 * body_bytes e)" by simp
  have v: "pre @ concat (map entity_bits (e # es)) @ rest = pre @ entity_bits e @ ?w" by simp
  show ?case
    unfolding v
    by (subst sdc_loop.simps)
      (simp only: h lim nz idx bind.bind_lunit if_True if_False entities_effect.simps step')
qed

lemma length_entities: "list_all entity_ok es \<Longrightarrow> length (concat (map entity_bits es)) = sum_list (map (\<lambda>e. 16 + 8 * body_bytes e) es)"
  by (induction es) (simp_all add: length_entity_bits)

section \<open>The multiplex description\<close>

definition with_lengths :: "(nat \<Rightarrow> int) \<Rightarrow> (nat \<Rightarrow> int) \<Rightarrow> nat \<Rightarrow> nat \<Rightarrow> stateDescriptor \<Rightarrow> stateDescriptor" where
  "with_lengths h l i n st = st\<lparr>streams := map (\<lambda>j. if i \<le> j \<and> j < i + n
       then (streams st ! j)\<lparr>lengthHigh := h j, lengthLow := l j, inUse := True\<rparr> else streams st ! j) [0 ..< length (streams st)],
     dataLength := to_int16 (dataLength st + sum_list (map (\<lambda>j. h j + l j) [i ..< i + n])),
     dataHigh := to_int16 (dataHigh st + sum_list (map h [i ..< i + n]))\<rparr>"

lemma set_lengths_eq:
  assumes "\<And>j. i \<le> j \<Longrightarrow> j < i + n \<Longrightarrow> get_SDCBits v (4 + j * 24) 12 = Some (h j) \<and> get_SDCBits v (16 + j * 24) 12 = Some (l j)"
    "to_int16 (dataLength st) = dataLength st" "to_int16 (dataHigh st) = dataHigh st" "i + n \<le> length (streams st)"
  shows "set_lengths v i n st = Some (with_lengths (\<lambda>j. int (h j)) (\<lambda>j. int (l j)) i n st)"
  using assms
proof (induction n arbitrary: i st)
  case 0
  have m: "map (\<lambda>j. if i \<le> j \<and> j < i + 0 then f j else streams st ! j) [0 ..< length (streams st)] = streams st" for f
    by (rule nth_equalityI) auto
  show ?case unfolding with_lengths_def m using 0(2,3) by simp
next
  case (Suc n)
  let ?st = "(update_stream i (\<lambda>d. d\<lparr>lengthHigh := int (h i), lengthLow := int (l i), inUse := True\<rparr>) st)
        \<lparr>dataLength := to_int16 (dataLength st + (int (h i) + int (l i))), dataHigh := to_int16 (dataHigh st + int (h i))\<rparr>"
  have "set_lengths v (i + 1) n ?st = Some (with_lengths (\<lambda>j. int (h j)) (\<lambda>j. int (l j)) (i + 1) n ?st)"
    by (rule Suc.IH)
      (use Suc.prems to_int16_add [of "dataLength st + (int (h i) + int (l i))" 0] to_int16_add [of "dataHigh st + int (h i)" 0]
        in \<open>auto simp: update_stream_def\<close>)
  moreover have "with_lengths (\<lambda>j. int (h j)) (\<lambda>j. int (l j)) (i + 1) n ?st = with_lengths (\<lambda>j. int (h j)) (\<lambda>j. int (l j)) i (Suc n) st"
  proof -
    have u: "[i ..< i + Suc n] = i # [i + 1 ..< i + 1 + n]" by (simp add: upt_conv_Cons del: upt_Suc)
    have s: "map (\<lambda>j. if i + 1 \<le> j \<and> j < i + 1 + n
       then (streams ?st ! j)\<lparr>lengthHigh := int (h j), lengthLow := int (l j), inUse := True\<rparr> else streams ?st ! j) [0 ..< length (streams ?st)]
     = map (\<lambda>j. if i \<le> j \<and> j < i + Suc n
       then (streams st ! j)\<lparr>lengthHigh := int (h j), lengthLow := int (l j), inUse := True\<rparr> else streams st ! j) [0 ..< length (streams st)]"
      using Suc.prems(4) by (auto simp: update_stream_def nth_list_update intro!: map_cong)
    show ?thesis unfolding with_lengths_def u s by (simp add: update_stream_def add.assoc)
  qed
  moreover have "get_SDCBits v (4 + i * 24) 12 = Some (h i) \<and> get_SDCBits v (16 + i * 24) 12 = Some (l i)"
    by (rule Suc.prems(1)) simp_all
  ultimately show ?case by simp
qed

text \<open>The body of a multiplex description.\<close>

definition multiplex_bits :: "nat \<Rightarrow> nat \<Rightarrow> (nat \<times> nat) list \<Rightarrow> u8 list" where
  "multiplex_bits a b ls = field_bits 2 a @ field_bits 2 b @ concat (map (\<lambda>(h, l). field_bits 12 h @ field_bits 12 l) ls)"

lemma multiplex_bits_facts:
  "bits (multiplex_bits a b ls)" "length (multiplex_bits a b ls) = 4 + 24 * length ls"
  by (induction ls) (auto simp: multiplex_bits_def)

lemma lengths_read:
  "list_all (\<lambda>(h, l). h < 4096 \<and> l < 4096) ls \<Longrightarrow> j < length ls \<Longrightarrow>
    bitfield (concat (map (\<lambda>(h, l). field_bits 12 h @ field_bits 12 l) ls) @ w) (j * 24) 12 = fst (ls ! j) \<and>
    bitfield (concat (map (\<lambda>(h, l). field_bits 12 h @ field_bits 12 l) ls) @ w) (12 + j * 24) 12 = snd (ls ! j)"
proof (induction ls arbitrary: j)
  case (Cons x ls)
  then show ?case
    by (cases x; cases j) (simp_all add: bitfield_later bitfield_here)
qed simp

lemma multiplex_description_layout:
  assumes "a < 4" "b < 4" "list_all (\<lambda>(h, l). h < 4096 \<and> l < 4096) ls" "length ls \<le> 4" "bits w"
    "length (streams (theState s)) = 4" "to_int16 (dataHigh (theState s)) = dataHigh (theState s)"
  shows "multiplex_description (multiplex_bits a b ls @ w) (3 * length ls) s =
    Some (s\<lparr>theState := with_lengths (\<lambda>j. int (fst (ls ! j))) (\<lambda>j. int (snd (ls ! j))) 0 (length ls)
      ((theState s)\<lparr>numofStreams := length ls, protLevelA := a, protLevelB := b, dataLength := 0\<rparr>)\<rparr>)"
proof -
  let ?v = "multiplex_bits a b ls @ w"
  have v: "bits ?v" "4 + 24 * length ls \<le> length ?v" using multiplex_bits_facts assms(5) by simp_all
  have ab: "get_SDCBits ?v 0 2 = Some a" "get_SDCBits ?v 2 2 = Some b"
    using v assms(1,2) by (simp_all add: get_SDCBits_eq) (simp_all add: multiplex_bits_def bitfield_here bitfield_later)
  have hl: "get_SDCBits ?v (4 + j * 24) 12 = Some (fst (ls ! j)) \<and> get_SDCBits ?v (16 + j * 24) 12 = Some (snd (ls ! j))"
    if "j < length ls" for j
  proof -
    have r: "4 + j * 24 + 12 \<le> length ?v" "16 + j * 24 + 12 \<le> length ?v" using v(2) that by simp_all
    have "bitfield ?v (4 + j * 24) 12 = fst (ls ! j) \<and> bitfield ?v (16 + j * 24) 12 = snd (ls ! j)"
      using lengths_read [OF assms(3) that, of w] by (simp add: multiplex_bits_def bitfield_later)
    then show ?thesis using get_SDCBits_eq [OF v(1), of 12] r by simp
  qed
  have "to_int16 0 = 0" by (simp add: to_int16_def)
  then have "set_lengths ?v 0 (length ls) ((theState s)\<lparr>numofStreams := length ls, protLevelA := a, protLevelB := b, dataLength := 0\<rparr>)
    = Some (with_lengths (\<lambda>j. int (fst (ls ! j))) (\<lambda>j. int (snd (ls ! j))) 0 (length ls)
      ((theState s)\<lparr>numofStreams := length ls, protLevelA := a, protLevelB := b, dataLength := 0\<rparr>))"
    using assms(4,6,7) by (intro set_lengths_eq) (auto simp: hl)
  then show ?thesis using assms(4) by (simp add: multiplex_description_def ab)
qed

section \<open>Invariant\<close>

text \<open>What the multiplex handlers rely on: lengths of 12 bits, identifications and levels of 2 bits.\<close>

definition ranges_ok :: "stateDescriptor \<Rightarrow> bool" where
  "ranges_ok st \<longleftrightarrow> state_ok st \<and> protLevelA st < 4 \<and> protLevelB st < 4
     \<and> list_all (\<lambda>d. 0 \<le> lengthHigh d \<and> lengthHigh d < 4096 \<and> 0 \<le> lengthLow d \<and> lengthLow d < 4096
         \<and> shortId d < 4 \<and> streamId d < 4 \<and> audioCoding d < 4) (streams st)"

lemma bits_and_1: "bits (map (\<lambda>x. x AND 1) v)"
  by (auto simp: bits_def is_bit_def and_one_eq mod_2_eq_odd)

lemma get_SDCBits_less: "get_SDCBits v o' nr = Some x \<Longrightarrow> x < 2 ^ nr"
  using bitfield_less [OF bits_and_1, of v o' nr]
  by (auto simp: get_SDCBits_def split: if_splits)

text \<open>An update of one stream that keeps its fields in range.\<close>

lemma ranges_update_stream:
  assumes "ranges_ok st"
    "\<And>d. 0 \<le> lengthHigh d \<and> lengthHigh d < 4096 \<and> 0 \<le> lengthLow d \<and> lengthLow d < 4096 \<and> shortId d < 4 \<and> streamId d < 4 \<and> audioCoding d < 4
      \<Longrightarrow> 0 \<le> lengthHigh (f d) \<and> lengthHigh (f d) < 4096 \<and> 0 \<le> lengthLow (f d) \<and> lengthLow (f d) < 4096
        \<and> shortId (f d) < 4 \<and> streamId (f d) < 4 \<and> audioCoding (f d) < 4"
  shows "ranges_ok (update_stream k f st)"
proof (cases "k < length (streams st)")
  case True
  then have "streams st ! k \<in> set (streams st)" by simp
  then show ?thesis
    using assms True set_update_subset_insert [of "streams st" k "f (streams st ! k)"]
    by (auto simp: ranges_ok_def state_ok_def update_stream_def list_all_iff)
next
  case False
  then show ?thesis using assms(1) by (simp add: update_stream_def list_update_beyond)
qed

lemma ranges_other_fields [simp]:
  "ranges_ok (st\<lparr>dataLength := a, dataHigh := b\<rparr>) = ranges_ok st"
  "ranges_ok (st\<lparr>set_flag := c\<rparr>) = ranges_ok st"
  "n \<le> 4 \<Longrightarrow> p < 4 \<Longrightarrow> q < 4 \<Longrightarrow> ranges_ok st \<Longrightarrow> ranges_ok (st\<lparr>numofStreams := n, protLevelA := p, protLevelB := q, dataLength := a\<rparr>)"
  by (simp_all add: ranges_ok_def state_ok_def)

lemma ranges_set_lengths:
  "set_lengths v i n st = Some st' \<Longrightarrow> ranges_ok st \<Longrightarrow> ranges_ok st'"
proof (induction v i n st rule: set_lengths.induct)
  case (2 v i n st)
  from 2(2) obtain h l where g: "get_SDCBits v (4 + i * 24) 12 = Some h" "get_SDCBits v (16 + i * 24) 12 = Some l"
    "set_lengths v (i + 1) n ((update_stream i (\<lambda>d. d\<lparr>lengthHigh := int h, lengthLow := int l, inUse := True\<rparr>) st)
        \<lparr>dataLength := to_int16 (dataLength st + (int h + int l)), dataHigh := to_int16 (dataHigh st + int h)\<rparr>) = Some st'"
    by (auto split: bind_splits)
  have "h < 4096" "l < 4096" using get_SDCBits_less [OF g(1)] get_SDCBits_less [OF g(2)] by simp_all
  then have "ranges_ok (update_stream i (\<lambda>d. d\<lparr>lengthHigh := int h, lengthLow := int l, inUse := True\<rparr>) st)"
    using 2(3) by (intro ranges_update_stream) auto
  then show ?case using 2(1) [OF g(1,2,3)] by simp
qed simp

lemma on_state_simps [simp]: "theState (on_state f s) = f (theState s)"
  by (simp add: on_state_def)

lemma ranges_multiplex: "multiplex_description v L s = Some s' \<Longrightarrow> ranges_ok (theState s) \<Longrightarrow> ranges_ok (theState s')"
  by (auto simp: multiplex_description_def split: if_splits bind_splits
      dest!: get_SDCBits_less ranges_set_lengths)

text \<open>The entities below change one stream, several times.\<close>

definition stream_keeps :: "(stream_desc \<Rightarrow> stream_desc) \<Rightarrow> bool" where
  "stream_keeps f \<longleftrightarrow> (\<forall>d. 0 \<le> lengthHigh d \<and> lengthHigh d < 4096 \<and> 0 \<le> lengthLow d \<and> lengthLow d < 4096
      \<and> shortId d < 4 \<and> streamId d < 4 \<and> audioCoding d < 4
    \<longrightarrow> 0 \<le> lengthHigh (f d) \<and> lengthHigh (f d) < 4096 \<and> 0 \<le> lengthLow (f d) \<and> lengthLow (f d) < 4096
      \<and> shortId (f d) < 4 \<and> streamId (f d) < 4 \<and> audioCoding (f d) < 4)"

lemma ranges_on_state: "stream_keeps f \<Longrightarrow> ranges_ok (theState s) \<Longrightarrow> ranges_ok (theState (on_state (update_stream k f) s))"
  unfolding stream_keeps_def on_state_simps by (intro ranges_update_stream) auto

lemma ranges_label:
  assumes "label_entity v L s = Some s'" "ranges_ok (theState s)"
  shows "ranges_ok (theState s')"
proof -
  have k: "stream_keeps (serviceName_update (\<lambda>_. name))" for name by (simp add: stream_keeps_def)
  have e: "theState (t\<lparr>emitted := es\<rparr>) = theState t" for t :: sdc_state and es by simp
  obtain sid rfu label where "Some (if L > 1 then
       (case filter (\<lambda>i. inUse (streams (theState s) ! i) \<and> shortId (streams (theState s) ! i) = sid)
               [0 ..< numofStreams (theState s)] of
          [] \<Rightarrow> s
        | i # _ \<Rightarrow>
          if serviceName (streams (theState s) ! i) \<noteq> [] then s
          else (on_state (update_stream i (serviceName_update
                 (\<lambda>_. map (\<lambda>b. char_of b) (takeWhile (\<lambda>b. b \<noteq> 0) label)))) s)
               \<lparr>emitted := emitted s @ [Channel_name sid (label @ [0])]\<rparr>)
       else s) = Some s'"
    using assms(1) unfolding label_entity_def bind_eq_Some_conv by blast
  then show ?thesis
    using assms(2) ranges_on_state [OF k assms(2)] by (auto simp only: option.inject e split: if_splits list.splits)
qed

lemma ranges_application:
  assumes "application_entity v s = Some s'" "ranges_ok (theState s)"
  shows "ranges_ok (theState s')"
proof -
  obtain index sid packet where g: "get_SDCBits v 2 2 = Some index" "get_SDCBits v 0 2 = Some sid" "get_SDCBits v 4 1 = Some packet"
    using assms(1) by (auto simp: application_entity_def bind_eq_Some_conv)
  let ?f = "\<lambda>d. d\<lparr>soort := DATA_STREAM, shortId := sid, streamId := index, packetModeInd := packet\<rparr>"
  have "stream_keeps ?f"
    using get_SDCBits_less [OF g(1)] get_SDCBits_less [OF g(2)] by (simp add: stream_keeps_def)
  from ranges_on_state [OF this assms(2)] have s1: "ranges_ok (theState (on_state (update_stream index ?f) s))" .
  have keeps: "stream_keeps (\<lambda>d. d\<lparr>rfa := r, enhancementFlag := e, domainId := dom\<rparr>)"
    "stream_keeps (\<lambda>d. d\<lparr>dataUnitIndicator := u, packetId := q, enhancementFlag := e, domainId := dom, packetLength := l\<rparr>)"
    "stream_keeps (\<lambda>d. d\<lparr>applicationId := a\<rparr>)" "stream_keeps (\<lambda>d. d\<lparr>startofData := b\<rparr>)" for r e dom u q l a b
    by (simp_all add: stream_keeps_def)
  show ?thesis
    using assms(1) g s1
    by (auto simp: application_entity_def Let_def bind_eq_Some_conv simp del: on_state_simps
        split: if_splits intro!: ranges_on_state keeps)
qed

lemma ranges_audio:
  assumes "audio_entity v L s = Some s'" "ranges_ok (theState s)"
  shows "ranges_ok (theState s')"
proof -
  obtain index sid coding where g: "get_SDCBits v 2 2 = Some index" "get_SDCBits v 0 2 = Some sid" "get_SDCBits v 4 2 = Some coding"
    using assms(1) by (auto simp: audio_entity_def bind_eq_Some_conv)
  have l: "index < 4" "sid < 4" "coding < 4"
    using get_SDCBits_less [OF g(1)] get_SDCBits_less [OF g(2)] get_SDCBits_less [OF g(3)] by simp_all
  have k: "stream_keeps (\<lambda>d. d\<lparr>soort := AUDIO_STREAM, shortId := sid, streamId := index,
       audioCoding := c, SBR_flag := sbr, audioMode := mode, audioSamplingRate := rate, textFlag := tf,
       enhancementFlag := enh, coderField := coder, rfa := r\<rparr>)" if "c < 4" for c sbr mode rate tf enh coder r
    using l that by (simp add: stream_keeps_def)
  have keeps: "stream_keeps (\<lambda>d. d\<lparr>xHE_AAC := bs\<rparr>)" for bs by (simp add: stream_keeps_def)
  show ?thesis
    using assms g l
    by (auto simp: audio_entity_def Let_def bind_eq_Some_conv simp del: on_state_simps
        split: if_splits intro!: ranges_on_state keeps k)
qed

lemma ranges_fec: "fec_entity v s = Some s' \<Longrightarrow> ranges_ok (theState s) \<Longrightarrow> ranges_ok (theState s')"
  by (auto simp: fec_entity_def split: bind_splits intro!: ranges_update_stream)

lemma ranges_others:
  "time_entity v L s = Some s' \<Longrightarrow> theState s' = theState s" "language_entity v s = Some s' \<Longrightarrow> theState s' = theState s"
  by (auto simp: time_entity_def language_entity_def split: bind_splits if_splits)

lemma ranges_set_SDCData: "set_SDCData v t f L s = Some s' \<Longrightarrow> ranges_ok (theState s) \<Longrightarrow> ranges_ok (theState s')"
  using ranges_multiplex [of v L s s'] ranges_label [of v L s s'] ranges_application [of v s s'] ranges_audio [of v L s s']
    ranges_fec [of v s s'] ranges_others(1) [of v L s s'] ranges_others(2) [of v s s']
  by (auto simp: set_SDCData_def split: if_splits)

lemma ranges_sdc_loop: "sdc_loop v limit i s = Some s' \<Longrightarrow> ranges_ok (theState s) \<Longrightarrow> ranges_ok (theState s')"
proof (induction v limit i s rule: sdc_loop.induct)
  case (1 v limit i s)
  show ?case
  proof (cases "i < limit")
    case True
    then obtain L f t where g: "get_SDCBits v i 7 = Some L" "get_SDCBits v (i + 7) 1 = Some f" "get_SDCBits v (i + 8) 4 = Some t"
      using 1(2) by (subst (asm) sdc_loop.simps) (auto simp: bind_eq_Some_conv)
    show ?thesis
    proof (cases "t = 0 \<and> L = 0")
      case True
      then show ?thesis using 1(2,3) g \<open>i < limit\<close> by (subst (asm) sdc_loop.simps) simp
    next
      case False
      obtain s1 where s1: "(if i + 12 + L < limit then set_SDCData (drop (i + 12) v) t f L s else Some s) = Some s1"
        "sdc_loop v limit (i + 12 + (L * 8 + 4)) s1 = Some s'"
        using 1(2) g \<open>i < limit\<close> False by (subst (asm) sdc_loop.simps) (auto simp: bind_eq_Some_conv simp del: add.assoc)
      have "ranges_ok (theState s1)"
        using s1(1) 1(3) ranges_set_SDCData by (auto split: if_splits)
      then show ?thesis using 1(1) [OF \<open>i < limit\<close> g False s1] by simp
    qed
  next
    case False
    then show ?thesis using 1(2,3) by (subst (asm) sdc_loop.simps) simp
  qed
qed

lemma ranges_interpretSDC: "interpretSDC v sz s = Some s' \<Longrightarrow> ranges_ok (theState s) \<Longrightarrow> ranges_ok (theState s')"
  by (auto simp: interpretSDC_def split: bind_splits dest!: ranges_sdc_loop)

section \<open>Properties\<close>

text \<open>The block of a sequence of entities.\<close>

definition sdc_message :: "nat \<Rightarrow> sdc_entity list \<Rightarrow> nat \<Rightarrow> u8 list" where
  "sdc_message afs es z = field_bits 4 afs @ concat (map entity_bits es) @ replicate (8 * z) 0"

text \<open>A signal carries a block.\<close>

definition sdc_carries :: "sdc_processor \<Rightarrow> u8 list \<Rightarrow> 'f::linordered_field theSignal list \<Rightarrow> bool" where
  "sdc_carries p b v = (let x = disperse (length b) b in if sdc_qam16 p
     then clean rTableQAM16 (idx16 (reencode (stream_0 p) (take (outLength (stream_0 p)) x))
            (reencode (the (stream_1 p)) (drop (outLength (stream_0 p)) x))) v (length (sdc_table p))
     else clean rTableQAM4 (\<lambda>j. unat (reencode (stream_0 p) x ! j)) v (length (sdc_table p)))"

lemma interpretSDC_entities:
  assumes "list_all entity_ok es" "afs < 16" "z \<noteq> 1" "bits w"
    "len = 4 + length (concat (map entity_bits es)) + 8 * z + 16"
  shows "interpretSDC (replicate 4 0 @ field_bits 4 afs @ concat (map entity_bits es) @ replicate (8 * z) 0 @ w) len s = do {
    s \<leftarrow> entities_effect es (replicate (8 * z) 0 @ w) (s\<lparr>sdcCorrect := True\<rparr>);
    Some (s\<lparr>theState := (theState s)\<lparr>set_flag := sdcCorrect s\<rparr>\<rparr>) }"
proof -
  have "\<exists>q. length (concat (map entity_bits es)) = 8 * q"
  proof (intro exI)
    show "length (concat (map entity_bits es)) = 8 * sum_list (map (\<lambda>e. 2 + body_bytes e) es)"
      using length_entities [OF assms(1)] by (simp add: algebra_simps sum_list_const_mult [symmetric])
  qed
  then obtain q where q: "length (concat (map entity_bits es)) = 8 * q" by blast
  have lim: "(len - 16 - 4) div 8 * 8 + 8 = 8 + 8 * q + 8 * z" using assms(5) q by simp
  have z: "8 + 8 * q = 8 + 8 * q + 8 * z \<or> 8 + 8 * q < 8 + 8 * q + 8 * z \<and> 12 \<le> length (replicate (8 * z) 0 @ w)
      \<and> take 12 (replicate (8 * z) 0 @ w) = replicate 12 0"
    using assms(3) by (cases "z = 0") (auto simp: min_def)
  have "sdc_loop ((replicate 4 0 @ field_bits 4 afs) @ concat (map entity_bits es) @ replicate (8 * z) 0 @ w) (8 + 8 * q + 8 * z) 8 s'
    = entities_effect es (replicate (8 * z) 0 @ w) s'" for s'
    by (rule sdc_loop_entities [OF assms(1)]) (use assms(4) z q in \<open>simp_all add: onebit is_bit_def\<close>)
  then show ?thesis unfolding interpretSDC_def lim by simp
qed

text \<open>The bits of a block that the cells carry are checked, and a good block is interpreted.\<close>

lemma processSDC_decodes:
  fixes imax :: "'f::linordered_field"
  assumes "new_sdcProcessor table st = Some p" "15 \<le> length table" "length table \<le> 2 ^ 12" "bits b" "0 < imax"
    "length b = (if sdc_qam16 p then outLength (stream_0 p) + outLength (the (stream_1 p)) else outLength (stream_0 p))"
    "sdc_carries p b (sdc_vector M sp table outbank)"
  shows "processSDC imax M sp p outbank s = do {
     (ok, s) \<leftarrow> check_and_interpret (lengthofSDC p) b s;
     Some (if sdc_qam16 p then (if ok then set_flag (theState s) else False) else ok, s) }"
proof -
  note c = new_sdcProcessor_cases [OF assms(1-3)]
  show ?thesis
  proof (cases "sdc_qam16 p")
    case True
    then show ?thesis
      using processSDC_QAM16_decodes [OF assms(1-3) True assms(4) _ assms(5)] assms(6,7) c(1)
      by (simp add: processSDC_def sdc_carries_def Let_def)
  next
    case False
    then show ?thesis
      using processSDC_QAM4_decodes [OF assms(1-3) False assms(4) _ assms(5)] assms(6,7) c(1)
      by (simp add: processSDC_def sdc_carries_def Let_def split_def)
  qed
qed

lemma good_block_interpreted:
  assumes "list_all entity_ok es" "afs < 16" "z \<noteq> 1" "bits pad" "len = 4 + length (concat (map entity_bits es)) + 8 * z + 16"
  shows "bits (sdc_block (sdc_message afs es z) pad)"
    "check_and_interpret len (sdc_block (sdc_message afs es z) pad) s = do {
       s \<leftarrow> entities_effect es (replicate (8 * z) 0 @ map (\<lambda>x. x XOR 1) (crc_bits sdc_crc
          (replicate 4 0 @ sdc_message afs es z)) @ pad) (s\<lparr>sdcCorrect := True\<rparr>);
       Some (True, s\<lparr>theState := (theState s)\<lparr>set_flag := sdcCorrect s\<rparr>\<rparr>) }"
proof -
  let ?u = "sdc_message afs es z"
  let ?c = "crc_bits sdc_crc (replicate 4 0 @ ?u)"
  have be: "bits (concat (map entity_bits es))" using assms(1)
    by (induction es) (simp_all add: entity_ok_def entity_bits_def)
  have u: "bits ?u" "len = length ?u + 16" using be assms(5) by (simp_all add: sdc_message_def onebit is_bit_def)
  show "bits (sdc_block ?u pad)" using sdc_block_facts(1) [OF u(1) assms(4)] by simp
  have w: "bits (map (\<lambda>x. x XOR 1) ?c @ pad)"
    using crc_bits_facts(1) [OF sdc_crc_ok, of "replicate 4 0 @ ?u"] assms(4) by (simp add: onebit is_bit_def)
  show "check_and_interpret len (sdc_block ?u pad) s = do {
     s \<leftarrow> entities_effect es (replicate (8 * z) 0 @ map (\<lambda>x. x XOR 1) ?c @ pad) (s\<lparr>sdcCorrect := True\<rparr>);
     Some (True, s\<lparr>theState := (theState s)\<lparr>set_flag := sdcCorrect s\<rparr>\<rparr>) }"
    using check_and_interpret_block [OF u(1) assms(4) u(2), of s]
      interpretSDC_entities [OF assms(1-3) w assms(5), of s] by (simp add: sdc_message_def Option.bind_assoc)
qed

text \<open>
  C1. The service description channel round trip, for both of its modes. A block made of any entities,
  padded with zeros and the CRC, dispersed, coded, interleaved and put on the cells of the channel, is
  accepted, and the entities are interpreted one after the other, each exactly once. The table may have up to 4096
  cells (the longest one of the system has 607), for which the 16-bit counters of the stream handlers are enough.
\<close>

theorem SDC_roundtrip:
  fixes imax :: "'f::linordered_field"
  assumes "new_sdcProcessor table st = Some p" "15 \<le> length table" "length table \<le> 2 ^ 12"
    "list_all entity_ok es" "afs < 16" "z \<noteq> 1" "bits pad" "0 < imax"
    "lengthofSDC p = 4 + length (concat (map entity_bits es)) + 8 * z + 16"
    "length (sdc_block (sdc_message afs es z) pad)
      = (if sdc_qam16 p then outLength (stream_0 p) + outLength (the (stream_1 p)) else outLength (stream_0 p))"
    "sdc_carries p (sdc_block (sdc_message afs es z) pad) (sdc_vector M sp table outbank)"
  shows "processSDC imax M sp p outbank s = do {
     s \<leftarrow> entities_effect es (replicate (8 * z) 0 @ map (\<lambda>x. x XOR 1) (crc_bits sdc_crc
        (replicate 4 0 @ sdc_message afs es z)) @ pad) (s\<lparr>sdcCorrect := True\<rparr>);
     Some (if sdc_qam16 p then sdcCorrect s else True, s\<lparr>theState := (theState s)\<lparr>set_flag := sdcCorrect s\<rparr>\<rparr>) }"
proof -
  note g = good_block_interpreted [OF assms(4-7,9)]
  show ?thesis
    by (simp add: processSDC_decodes [OF assms(1-3) g(1) assms(8,10,11)] g(2) Option.bind_assoc split_def cong: if_cong)
qed

text \<open>The example: 322 cells of the first symbol, and a multiplex of one stream.\<close>

definition example_table :: "(int \<times> int) list" where
  "example_table = map (\<lambda>i. (0, int i + Kmin 2 3)) [0 ..< 322]"

lemma example_vector:
  assumes "length cells = 322"
  shows "sdc_vector 2 3 example_table [cells] = cells"
proof -
  have "map (\<lambda>(symbol, carrier). elementValue [cells] symbol (carrier - Kmin 2 3)) example_table = map Some cells"
    using assms by (intro nth_equalityI) (simp_all add: example_table_def elementValue_def)
  note e = this
  have t: "takeWhile (\<lambda>c. c \<noteq> None) (map Some cells) = map Some cells" by (simp add: takeWhile_eq_all_conv)
  have "length (map Some cells) = length example_table" using assms by (simp add: example_table_def)
  then show ?thesis unfolding sdc_vector_def e Let_def t by (simp add: comp_def)
qed

definition example_entities :: "sdc_entity list" where
  "example_entities = [\<lparr>versionF = 0, dataT = 0, body = multiplex_bits 0 0 [(0, 100)]\<rparr>]"

definition example_sdc_state :: sdc_state where
  "example_sdc_state = \<lparr>sdcCorrect = True, theState = blank_state\<lparr>Mode := 2, Spectrum := 3, sdcMode := 1\<rparr>, emitted = []\<rparr>"

lemma example_processor:
  obtains s0 where "new_sdcProcessor example_table (theState example_sdc_state)
      = Some \<lparr>sdc_table = example_table, sdc_qam16 = False, stream_0 = s0, stream_1 = None, lengthofSDC = 316\<rparr>"
    "outLength s0 = 316"
proof -
  have n: "length example_table = 322" by (simp add: example_table_def)
  obtain Y where Y: "mapper (int (2 * 322)) 21 = Some Y"
    by (rule mapper_cell_permutation [of 21 "2 * 322"]) simp_all
  obtain s0 where s0: "new_SDC_streamer 1 2 Y 322 = Some s0"
    by (simp add: new_SDC_streamer_def getResiduTable_some viterbi_fits_def)
  have "outLength s0 = 316" using s0 by (auto simp: new_SDC_streamer_def getResiduTable_some split: if_splits)
  then show ?thesis
    using that [of s0] Y s0 by (simp add: new_sdcProcessor_def example_sdc_state_def n getLengthofSDC_def table_56_def blank_state_def)
qed

lemma example_block:
  "list_all entity_ok example_entities" "length (concat (map entity_bits example_entities)) = 40"
  "length (sdc_block (sdc_message 0 example_entities 32) []) = 316" "length example_table = 322"
proof -
  show e: "list_all entity_ok example_entities" "length (concat (map entity_bits example_entities)) = 40"
    by (simp_all add: example_entities_def entity_ok_def entity_bits_def body_bytes_def multiplex_bits_facts)
  show "length (sdc_block (sdc_message 0 example_entities 32) []) = 316"
    by (simp add: sdc_block_facts sdc_message_def e)
  show "length example_table = 322" by (simp add: example_table_def)
qed

lemma example_carries:
  "outLength s0 = 316 \<Longrightarrow> b = sdc_block (sdc_message 0 example_entities 32) [] \<Longrightarrow>
   sdc_carries \<lparr>sdc_table = example_table, sdc_qam16 = False, stream_0 = s0, stream_1 = None, lengthofSDC = 316\<rparr> b
     (sdc_vector 2 3 example_table [clean_signal rTableQAM4 (\<lambda>j. unat (reencode s0 (disperse (length b) b) ! j)) 322])"
  by (simp add: example_vector sdc_carries_def clean_clean_signal example_block Let_def)

theorem SDC_roundtrip_witness:
  "\<exists>p. new_sdcProcessor example_table (theState example_sdc_state) = Some p \<and>
    (let b = sdc_block (sdc_message 0 example_entities 32) [];
         cells = clean_signal rTableQAM4 (\<lambda>j. unat (reencode (stream_0 p) (disperse (length b) b) ! j)) 322
     in processSDC (1 :: rat) 2 3 p [cells] example_sdc_state = do {
       s \<leftarrow> entities_effect example_entities (replicate (8 * 32) 0 @ map (\<lambda>x. x XOR 1) (crc_bits sdc_crc
          (replicate 4 0 @ sdc_message 0 example_entities 32)) @ []) (example_sdc_state\<lparr>sdcCorrect := True\<rparr>);
       Some (if sdc_qam16 p then sdcCorrect s else True, s\<lparr>theState := (theState s)\<lparr>set_flag := sdcCorrect s\<rparr>\<rparr>) })"
proof -
  obtain s0 where p: "new_sdcProcessor example_table (theState example_sdc_state)
      = Some \<lparr>sdc_table = example_table, sdc_qam16 = False, stream_0 = s0, stream_1 = None, lengthofSDC = 316\<rparr>" "outLength s0 = 316"
    by (rule example_processor)
  show ?thesis
    unfolding Let_def
    by (intro exI conjI, rule p, rule SDC_roundtrip [OF p(1)])
      (use p(2) example_carries [OF p(2) refl] in \<open>simp_all add: example_block\<close>)
qed

text \<open>
  A multiplex description of at most four streams, whatever follows it, sets the protection levels
  and the two lengths of each of its streams and of no other one, and their sum as the length of the
  data; the total of the higher protected lengths is added to the old value, which is not reset.
\<close>

theorem SDC_multiplex_description:
  assumes "a < 4" "b < 4" "list_all (\<lambda>(h, l). h < 4096 \<and> l < 4096) ls" "length ls \<le> 4" "bits w"
    "length (streams (theState s)) = 4" "to_int16 (dataHigh (theState s)) = dataHigh (theState s)"
  shows "\<exists>s'. set_SDCData (multiplex_bits a b ls @ w) 0 0 (3 * length ls) s = Some s'
    \<and> numofStreams (theState s') = length ls \<and> protLevelA (theState s') = a \<and> protLevelB (theState s') = b
    \<and> map (\<lambda>d. (lengthHigh d, lengthLow d, inUse d)) (take (length ls) (streams (theState s')))
        = map (\<lambda>(h, l). (int h, int l, True)) ls
    \<and> drop (length ls) (streams (theState s')) = drop (length ls) (streams (theState s))
    \<and> dataLength (theState s') = sum_list (map (\<lambda>(h, l). int h + int l) ls)
    \<and> dataHigh (theState s') = to_int16 (dataHigh (theState s) + sum_list (map (\<lambda>(h, l). int h) ls))"
proof -
  let ?w = "with_lengths (\<lambda>j. int (fst (ls ! j))) (\<lambda>j. int (snd (ls ! j))) 0 (length ls)
      ((theState s)\<lparr>numofStreams := length ls, protLevelA := a, protLevelB := b, dataLength := 0\<rparr>)"
  have "set_SDCData (multiplex_bits a b ls @ w) 0 0 (3 * length ls) s = Some (s\<lparr>theState := ?w\<rparr>)"
    using multiplex_description_layout [OF assms] by (simp add: set_SDCData_def)
  moreover have sums: "sum_list (map (\<lambda>j. int (fst (ls ! j)) + int (snd (ls ! j))) [0 ..< length ls]) = sum_list (map (\<lambda>(h, l). int h + int l) ls)"
    "sum_list (map (\<lambda>j. int (fst (ls ! j))) [0 ..< length ls]) = sum_list (map (\<lambda>(h, l). int h) ls)"
    by (intro arg_cong [where f = sum_list] nth_equalityI; simp add: split_def)+
  moreover have "dataLength ?w = sum_list (map (\<lambda>(h, l). int h + int l) ls)"
  proof -
    have "0 \<le> sum_list (map (\<lambda>(h, l). int h + int l) ls)
        \<and> sum_list (map (\<lambda>(h, l). int h + int l) ls) \<le> 8190 * int (length ls)"
      using assms(3) by (induction ls) auto
    then have "0 \<le> sum_list (map (\<lambda>(h, l). int h + int l) ls)" "sum_list (map (\<lambda>(h, l). int h + int l) ls) < 2 ^ 15"
      using assms(4) by simp_all
    then show ?thesis by (simp add: with_lengths_def sums to_int16_nonneg)
  qed
  moreover have "map (\<lambda>d. (lengthHigh d, lengthLow d, inUse d)) (take (length ls) (streams ?w))
        = map (\<lambda>(h, l). (int h, int l, True)) ls"
    using assms(4,6) by (intro nth_equalityI) (simp_all add: with_lengths_def split_def min_def)
  moreover have "drop (length ls) (streams ?w) = drop (length ls) (streams (theState s))"
    using assms(4,6) by (intro nth_equalityI) (simp_all add: with_lengths_def)
  ultimately show ?thesis by (intro exI [of _ "s\<lparr>theState := ?w\<rparr>"]) (simp add: with_lengths_def)
qed

theorem SDC_multiplex_description_witness:
  "\<exists>s'. set_SDCData (multiplex_bits 1 2 [(10 :: nat, 20 :: nat), (0, 300)] @ [1]) 0 0 (3 * length [(10 :: nat, 20 :: nat), (0, 300)]) example_sdc_state = Some s'
    \<and> numofStreams (theState s') = length [(10 :: nat, 20 :: nat), (0, 300)] \<and> protLevelA (theState s') = 1 \<and> protLevelB (theState s') = 2
    \<and> map (\<lambda>d. (lengthHigh d, lengthLow d, inUse d)) (take (length [(10 :: nat, 20 :: nat), (0, 300)]) (streams (theState s')))
        = map (\<lambda>(h, l). (int h, int l, True)) [(10 :: nat, 20 :: nat), (0, 300)]
    \<and> drop (length [(10 :: nat, 20 :: nat), (0, 300)]) (streams (theState s')) = drop (length [(10 :: nat, 20 :: nat), (0, 300)]) (streams (theState example_sdc_state))
    \<and> dataLength (theState s') = sum_list (map (\<lambda>(h, l). int h + int l) [(10 :: nat, 20 :: nat), (0, 300)])
    \<and> dataHigh (theState s') = to_int16 (dataHigh (theState example_sdc_state) + sum_list (map (\<lambda>(h, l). int h) [(10 :: nat, 20 :: nat), (0, 300)]))"
  by (rule SDC_multiplex_description) (simp_all add: example_sdc_state_def blank_state_def onebit is_bit_def to_int16_def)

text \<open>
  C22. Interpretation of any block at all, with any entities, keeps the state in the ranges the decoders
  of the multiplex rely on: four streams, lengths of 12 bits, protection levels and identifications of
  2 bits, one audio channel.
\<close>

theorem SDC_keeps_ranges:
  assumes "interpretSDC v sz s = Some s'" "ranges_ok (theState s)"
  shows "ranges_ok (theState s')"
  using assms by (rule ranges_interpretSDC)

theorem SDC_keeps_ranges_witness:
  "\<exists>s'. interpretSDC (replicate 40 0) 36 example_sdc_state = Some s' \<and> ranges_ok (theState s')"
proof -
  have "interpretSDC (replicate 4 0 @ field_bits 4 0 @ concat (map entity_bits []) @ replicate (8 * 2) 0 @ replicate 16 0) 36 example_sdc_state
    = Some (example_sdc_state\<lparr>theState := (theState example_sdc_state)\<lparr>set_flag := True\<rparr>\<rparr>)"
    by (subst interpretSDC_entities) (simp_all add: onebit is_bit_def example_sdc_state_def)
  moreover have "replicate 4 0 @ field_bits 4 0 @ concat (map entity_bits []) @ replicate (8 * 2) 0 @ replicate 16 0 = (replicate 40 0 :: u8 list)"
    by (simp only: field_bits_0 list.map concat.simps append_Nil replicate_add [symmetric]) simp
  ultimately obtain s' where s: "interpretSDC (replicate 40 0) 36 example_sdc_state = Some s'" by metis
  have "ranges_ok (theState example_sdc_state)"
    by (simp add: example_sdc_state_def blank_state_def ranges_ok_def state_ok_def zero_stream_def list_all_iff)
  from SDC_keeps_ranges [OF s this] s show ?thesis by blast
qed

section \<open>Bounds of the bodies\<close>

lemma get_bytes_read:
  "bits v \<Longrightarrow> pos + 8 * n \<le> length v \<Longrightarrow> get_bytes v pos n = Some (map (\<lambda>i. bitfield v (pos + 8 * i) 8) [0 ..< n])"
proof (induction n arbitrary: pos)
  case (Suc n)
  have "map (\<lambda>i. bitfield v (pos + 8 * i) 8) [0 ..< Suc n] = bitfield v pos 8 # map (\<lambda>i. bitfield v (pos + 8 + 8 * i) 8) [0 ..< n]"
    by (simp add: upt_conv_Cons map_Suc_upt [symmetric] comp_def add.assoc del: upt_Suc)
  then show ?case using Suc by (simp add: get_SDCBits_eq)
qed simp

lemma get_bytes_beyond: "length v < pos + 8 * n \<Longrightarrow> 0 < n \<Longrightarrow> get_bytes v pos n = None"
proof (induction n arbitrary: pos)
  case (Suc n)
  show ?case
  proof (cases "n = 0")
    case True
    then show ?thesis using Suc.prems by (simp add: get_SDCBits_def)
  next
    case False
    then have "get_bytes v (pos + 8) n = None" using Suc by simp
    then show ?thesis by (simp add: Option.bind_eq_None_conv)
  qed
qed simp

text \<open>The body of an audio description with the bytes for an xHE-AAC decoder.\<close>

definition audio_bits :: "nat \<Rightarrow> nat \<Rightarrow> nat \<Rightarrow> nat \<Rightarrow> nat list \<Rightarrow> u8 list" where
  "audio_bits sid index coding rest bs = field_bits 2 sid @ field_bits 2 index @ field_bits 2 coding
     @ field_bits 14 rest @ concat (map (field_bits 8) bs)"

lemma audio_bits_facts:
  "bits (audio_bits sid index coding rest bs)" "length (audio_bits sid index coding rest bs) = 20 + 8 * length bs"
  by (induction bs) (simp_all add: audio_bits_def)

lemma bytes_read:
  "list_all (\<lambda>b. b < 256) bs \<Longrightarrow> i < length bs \<Longrightarrow> bitfield (concat (map (field_bits 8) bs) @ w) (8 * i) 8 = bs ! i"
proof (induction bs arbitrary: i)
  case (Cons b bs)
  then show ?case by (cases i) (simp_all add: bitfield_later bitfield_here)
qed simp

text \<open>
  The description of an xHE-AAC stream with \<open>n\<close> bytes for its decoder, which has \<open>n + 2\<close> whole
  bytes, is read with one byte too many: the first byte of what follows the description is taken as
  decoder data as well.
\<close>

theorem SDC_audio_one_byte_more:
  assumes "sid < 4" "index < 4" "list_all (\<lambda>b. b < 256) bs" "bits w" "8 \<le> length w" "index < length (streams (theState s))"
  shows "\<exists>s'. set_SDCData (audio_bits sid index 3 rest bs @ w) 9 0 (length bs + 2) s = Some s'
    \<and> xHE_AAC (streams (theState s') ! index) = bs @ [bitfield w 0 8]"
proof -
  let ?v = "audio_bits sid index 3 rest bs @ w"
  have v: "bits ?v" "28 + 8 * length bs \<le> length ?v" using audio_bits_facts assms(4,5) by simp_all
  have f: "bitfield ?v 0 2 = sid" "bitfield ?v 2 2 = index" "bitfield ?v 4 2 = 3"
    using assms(1,2) by (simp_all add: audio_bits_def bitfield_here bitfield_later)
  have n: "nat ((int index + 16 + 8 * int (length bs + 2) - 20) sdiv 8) = Suc (length bs)"
  proof -
    have "int index + 16 + 8 * int (length bs + 2) - 20 = int (index + 8 * length bs + 12)" by simp
    moreover have "(index + 8 * length bs + 12) div 8 = Suc (length bs)" using assms(2) by simp
    ultimately show ?thesis by (simp add: signed_divide_int_def flip: zdiv_int)
  qed
  have "get_bytes ?v 20 (Suc (length bs)) = Some (map (\<lambda>i. bitfield ?v (20 + 8 * i) 8) [0 ..< Suc (length bs)])"
    by (rule get_bytes_read) (use v in simp_all)
  also have "map (\<lambda>i. bitfield ?v (20 + 8 * i) 8) [0 ..< Suc (length bs)] = bs @ [bitfield w 0 8]"
  proof (rule nth_equalityI)
    fix i assume "i < length (map (\<lambda>i. bitfield ?v (20 + 8 * i) 8) [0 ..< Suc (length bs)])"
    then consider "i < length bs" | "i = length bs" by fastforce
    then show "map (\<lambda>i. bitfield ?v (20 + 8 * i) 8) [0 ..< Suc (length bs)] ! i = (bs @ [bitfield w 0 8]) ! i"
    proof cases
      case 1
      then have "bitfield ?v (20 + 8 * i) 8 = bs ! i"
        using bytes_read [OF assms(3) 1, of w] by (simp add: audio_bits_def bitfield_later)
      then show ?thesis using 1 by (simp add: nth_append del: upt_Suc)
    next
      case 2
      then have "bitfield ?v (20 + 8 * i) 8 = bitfield w 0 8"
        using audio_bits_facts(2) [of sid index 3 rest bs] by (simp add: bitfield_append)
      then show ?thesis using 2 by (simp add: nth_append del: upt_Suc)
    qed
  qed simp
  finally have "get_bytes ?v 20 (Suc (length bs)) = Some (bs @ [bitfield w 0 8])" .
  then show ?thesis
    using v assms(6) n unfolding set_SDCData_def audio_entity_def
    by (simp add: get_SDCBits_eq f Let_def del: get_bytes.simps)
qed

theorem SDC_audio_one_byte_more_witness:
  "\<exists>s'. set_SDCData (audio_bits 0 1 3 0 [17, 34] @ [1, 0, 0, 0, 0, 0, 0, 1]) 9 0 (length [17, 34 :: nat] + 2) example_sdc_state = Some s'
    \<and> xHE_AAC (streams (theState s') ! 1) = [17, 34] @ [bitfield [1, 0, 0, 0, 0, 0, 0, 1] 0 8]"
  by (rule SDC_audio_one_byte_more) (simp_all add: example_sdc_state_def blank_state_def onebit is_bit_def)

text \<open>
  C34. The check of an entity's length against the data field compares bytes with bits: there is a
  block of 13 data bytes with a valid CRC whose label of 60 bytes passes the check and is read past
  the end of the block.
\<close>

theorem SDC_label_beyond_block:
  "\<exists>u. bits u \<and> length u = 4 + 8 * 13 \<and> fst (doCRC sdc_crc (replicate 4 0 @ sdc_block u []) (4 + (length u + 16)))
    \<and> check_and_interpret (length u + 16) (sdc_block u []) s = None"
proof -
  let ?u = "field_bits 4 0 @ field_bits 7 60 @ field_bits 1 0 @ field_bits 4 1 @ replicate 92 0"
  let ?c = "crc_bits sdc_crc (replicate 4 0 @ ?u)"
  have u: "bits ?u" "length ?u = 4 + 8 * 13" by (simp_all add: onebit is_bit_def)
  note c = crc_bits_facts [OF sdc_crc_ok, of "replicate 4 0 @ ?u"]
  have lc: "length ?c = 16" using c(2) by (simp add: sdc_crc_def)
  define v where "v = replicate 4 0 @ ?u @ map (\<lambda>x. x XOR 1) ?c @ []"
  have v: "bits v" "length v = 128" using c(1) lc by (simp_all add: v_def onebit is_bit_def)
  have "bitfield v 8 7 = 60" "bitfield v 15 1 = 0" "bitfield v 16 4 = 1"
    by (simp_all add: v_def bitfield_append bitfield_here bitfield_later)
  then have h: "get_SDCBits v 8 7 = Some 60" "get_SDCBits v 15 1 = Some 0" "get_SDCBits v 16 4 = Some 1"
    using v by (simp_all add: get_SDCBits_eq)
  have "get_bytes (drop 20 v) 4 60 = None"
    by (rule get_bytes_beyond) (use v(2) in simp_all)
  then have l: "label_entity (drop 20 v) 60 s' = None" for s'
    unfolding label_entity_def by (auto simp: bind_eq_None_conv)
  have len: "length ?u + 16 = 124" by simp
  have "sdc_loop v 112 8 s' = None" for s'
    by (subst sdc_loop.simps) (simp add: h [simplified] l set_SDCData_def)
  then have "interpretSDC v (length ?u + 16) s = None" unfolding interpretSDC_def len by simp
  then have "check_and_interpret (length ?u + 16) (sdc_block ?u []) s = None"
    by (subst check_and_interpret_block [OF u(1) bits_Nil refl]) (simp only: v_def [symmetric] bind.bind_lzero)
  moreover have "fst (doCRC sdc_crc (replicate 4 0 @ sdc_block ?u []) (4 + (length ?u + 16)))"
  proof -
    have "4 + (length ?u + 16) = length (replicate 4 0 @ ?u) + crc_size sdc_crc" by (simp add: sdc_crc_def)
    then show ?thesis
      using doCRC_accepts_crc_bits [OF sdc_crc_ok, of "replicate 4 0 @ ?u"] u(1)
      by (simp add: sdc_block_def onebit is_bit_def)
  qed
  ultimately show ?thesis using u by blast
qed

end
