(* ===== verification/DrmReference.thy ===== *)
theory DrmReference
  imports Complex_Main DrmFac "HOL-Library.Monad_Syntax" "HOL-Library.Multiset"
begin

text \<open>
  The reference cells of the OFDM frame (\<open>equalizer/referenceframe.cpp\<close>: time, frequency and pilot cells
  and the values sent in them) and the places of the other cells of a frame (\<open>drm-decoder.cpp\<close>: service
  description cells and data cells). The lemmas count the cells of every row of a frame and compare the
  counts with the sizes the decoder assumes.
\<close>

section \<open>Tables of reference cells: carrier and phase\<close>

definition timeCellsforModeA :: "(int \<times> int) list" where
  "timeCellsforModeA =
    [(17, 973), (18, 205), (19, 717), (21, 264), (28, 357), (29, 357), (32, 952), (33, 440),
     (39, 856), (40, 88), (41, 88), (53, 68), (54, 836), (55, 836), (56, 836), (60, 1008),
     (61, 1008), (63, 752), (71, 215), (72, 215), (73, 727), (- 1, - 1)]"

definition timeCellsforModeB :: "(int \<times> int) list" where
  "timeCellsforModeB =
    [(14, 304), (16, 331), (18, 108), (20, 620), (24, 192), (26, 704), (32, 44), (36, 432),
     (42, 588), (44, 844), (48, 651), (49, 651), (50, 651), (54, 460), (56, 460), (62, 944),
     (64, 555), (66, 940), (68, 428), (- 1, - 1)]"

definition timeCellsforModeC :: "(int \<times> int) list" where
  "timeCellsforModeC =
    [(8, 722), (10, 466), (11, 214), (12, 214), (14, 479), (16, 516), (18, 260), (22, 577),
     (24, 662), (28, 3), (30, 771), (32, 392), (33, 392), (36, 37), (38, 37), (42, 474),
     (44, 242), (45, 242), (46, 754), (- 1, - 1)]"

definition timeCellsforModeD :: "(int \<times> int) list" where
  "timeCellsforModeD =
    [(5, 636), (6, 124), (7, 788), (8, 788), (9, 200), (11, 688), (12, 152), (14, 920),
     (15, 920), (17, 644), (18, 388), (20, 652), (21, 1014), (23, 176), (24, 176), (26, 752),
     (27, 496), (28, 332), (29, 432), (30, 964), (32, 452), (- 1, - 1)]"

definition freqCellsforModeA :: "(int \<times> int) list" where
  "freqCellsforModeA =
    [(18, 205), (54, 836), (72, 215), (- 1, - 1)]"

definition freqCellsforModeB :: "(int \<times> int) list" where
  "freqCellsforModeB =
    [(16, 331), (48, 651), (64, 555), (- 1, - 1)]"

definition freqCellsforModeC :: "(int \<times> int) list" where
  "freqCellsforModeC =
    [(11, 214), (33, 392), (44, 242), (- 1, - 1)]"

definition freqCellsforModeD :: "(int \<times> int) list" where
  "freqCellsforModeD =
    [(7, 788), (21, 1014), (28, 332), (- 1, - 1)]"

text \<open>The entries before the one with carrier \<open>- 1\<close>, which ends the loops over a table.\<close>

definition cell_entries :: "(int \<times> int) list \<Rightarrow> (int \<times> int) list" where
  "cell_entries tab = takeWhile (\<lambda>(carrier, phase). carrier \<noteq> - 1) tab"

definition tableforMode :: "nat \<Rightarrow> (int \<times> int) list" where
  "tableforMode mode = (if mode = 2 then timeCellsforModeB else if mode = 3 then timeCellsforModeC
     else if mode = 4 then timeCellsforModeD else timeCellsforModeA)"

definition freq_table :: "nat \<Rightarrow> (int \<times> int) list" where
  "freq_table mode = (if mode = 2 then freqCellsforModeB else if mode = 3 then freqCellsforModeC
     else if mode = 4 then freqCellsforModeD else freqCellsforModeA)"

definition isTimeCell :: "nat \<Rightarrow> int \<Rightarrow> int \<Rightarrow> bool" where
  "isTimeCell mode symbol carrier =
     (if symbol \<noteq> 0 then False
      else list_ex (\<lambda>(index, phase). index = carrier) (cell_entries (tableforMode mode)))"

definition isFreqCell :: "nat \<Rightarrow> int \<Rightarrow> int \<Rightarrow> bool" where
  "isFreqCell mode symbol carrier =
     list_ex (\<lambda>(index, phase). index = carrier) (cell_entries (freq_table mode))"

definition isPilotCell :: "nat \<Rightarrow> int \<Rightarrow> int \<Rightarrow> bool" where
  "isPilotCell mode symbol carrier =
     (if carrier = 0 then False
      else if mode = 2 then c_rem \<bar>carrier - 1 - 2 * c_rem symbol 3\<bar> 6 = 0
      else if mode = 3 then c_rem \<bar>carrier - 1 - 2 * c_rem symbol 2\<bar> 4 = 0
      else if mode = 4 then c_rem \<bar>carrier - 1 - c_rem symbol 3\<bar> 3 = 0
      else c_rem \<bar>carrier - 2 - 4 * c_rem symbol 5\<bar> 20 = 0)"

definition isBoostCell :: "nat \<Rightarrow> nat \<Rightarrow> int \<Rightarrow> int \<Rightarrow> bool" where
  "isBoostCell mode spectrum symbol carrier =
     (if mode = 1 then
        (if spectrum = 1 then carrier \<in> {2, 110, 6, 114}
         else if spectrum = 2 then carrier \<in> {- 102, 98, - 98, 102}
         else if spectrum = 3 then carrier \<in> {- 114, 110, - 110, 114}
         else carrier \<in> {2, 98, 6, 102})
      else if mode = 2 then
        (if spectrum = 0 then carrier \<in> {1, 89, 3, 91}
         else if spectrum = 1 then carrier \<in> {1, 101, 3, 103}
         else if spectrum = 2 then carrier \<in> {- 91, 89, - 89, 91}
         else carrier \<in> {- 103, 101, - 101, 103})
      else if mode = 3 then
        (if symbol mod 2 = 0 then carrier \<in> {- 69, 67} else carrier \<in> {- 67, 69})
      else if mode = 4 then carrier \<in> {- 44, - 43, 43, 44}
      else False)"

section \<open>Values of the reference cells\<close>

text \<open>A read of a table at an index; an index outside the table has no value.\<close>

definition entry :: "int list \<Rightarrow> int \<Rightarrow> int option" where
  "entry tab i = (if 0 \<le> i \<and> i < int (length tab) then Some (tab ! nat i) else None)"

definition Q_1024 :: "nat \<Rightarrow> int" where
  "Q_1024 mode = (if mode = 2 then 12 else if mode = 3 then 12 else if mode = 4 then 14 else 36)"

definition W_1024_A :: "int \<Rightarrow> int \<Rightarrow> int option" where
  "W_1024_A n m = entry
    [228, 341, 455,
     455, 569, 683,
     683, 796, 910,
     910, 0, 114,
     114, 228, 341] (3 * n + m)"

definition W_1024_B :: "int \<Rightarrow> int \<Rightarrow> int option" where
  "W_1024_B n m = entry
    [512, 0, 512, 0, 512,
     0, 512, 0, 512, 0,
     512, 0, 512, 0, 512] (5 * n + m)"

definition W_1024_C :: "int \<Rightarrow> int \<Rightarrow> int option" where
  "W_1024_C n m = entry
    [465, 372, 279, 186, 93, 0, 931, 838, 745, 652,
     931, 838, 745, 652, 559, 465, 372, 279, 186, 93] (10 * n + m)"

definition W_1024_D :: "int \<Rightarrow> int \<Rightarrow> int option" where
  "W_1024_D n m = entry
    [366, 439, 512, 585, 658, 731, 805, 676,
     731, 805, 979, 951, 0, 73, 146, 219,
     73, 146, 219, 293, 366, 439, 512, 585] (8 * n + m)"

definition Z_256_A :: "int \<Rightarrow> int \<Rightarrow> int option" where
  "Z_256_A n m = entry
    [0, 81, 248,
     18, 106, 106,
     122, 116, 31,
     129, 129, 39,
     33, 32, 111] (3 * n + m)"

definition Z_256_B :: "int \<Rightarrow> int \<Rightarrow> int option" where
  "Z_256_B n m = entry
    [0, 57, 164, 64, 12,
     168, 255, 161, 106, 118,
     25, 232, 132, 233, 38] (5 * n + m)"

definition Z_256_C :: "int \<Rightarrow> int \<Rightarrow> int option" where
  "Z_256_C n m = entry
    [0, 76, 29, 76, 9, 190, 161, 248, 33, 108,
     179, 178, 83, 253, 127, 105, 101, 198, 250, 145] (10 * n + m)"

definition Z_256_D :: "int \<Rightarrow> int \<Rightarrow> int option" where
  "Z_256_D n m = entry
    [0, 240, 17, 60, 220, 38, 151, 101,
     110, 7, 78, 82, 175, 150, 106, 25,
     165, 7, 252, 124, 253, 177, 197, 142] (8 * n + m)"

definition W_1024 :: "nat \<Rightarrow> int \<Rightarrow> int \<Rightarrow> int option" where
  "W_1024 mode n m = (if mode = 2 then W_1024_B n m else if mode = 3 then W_1024_C n m
     else if mode = 4 then W_1024_D n m else W_1024_A n m)"

definition Z_256 :: "nat \<Rightarrow> int \<Rightarrow> int \<Rightarrow> int option" where
  "Z_256 mode n m = (if mode = 2 then Z_256_B n m else if mode = 3 then Z_256_C n m
     else if mode = 4 then Z_256_D n m else Z_256_A n m)"

text \<open>
  A reference value is kept exact: the square of its amplitude (2, or 4 for a boosted cell; 0 is the value
  \<open>0\<close> of a cell that is no reference cell) and its phase in units of 1/1024 of a turn. \<open>valueFor\<close> gives the
  complex number, over the reals.
\<close>

type_synonym ref_value = "nat \<times> int"

definition valueFor :: "ref_value \<Rightarrow> complex" where
  "valueFor v = Complex (sqrt (fst v) * cos (2 * pi * snd v / 1024)) (sqrt (fst v) * sin (2 * pi * snd v / 1024))"

definition table_value :: "(int \<times> int) list \<Rightarrow> int \<Rightarrow> ref_value" where
  "table_value tab carrier = (case map_of (cell_entries tab) carrier of Some phase \<Rightarrow> (2, phase) | None \<Rightarrow> (0, 0))"

definition getTimeRef :: "nat \<Rightarrow> int \<Rightarrow> int \<Rightarrow> ref_value" where
  "getTimeRef mode symbol carrier = (if symbol \<noteq> 0 then (0, 0) else table_value (tableforMode mode) carrier)"

definition getFreqRef :: "nat \<Rightarrow> int \<Rightarrow> int \<Rightarrow> ref_value" where
  "getFreqRef mode symbol carrier = table_value (freq_table mode) carrier"

definition getPilotValue :: "nat \<Rightarrow> nat \<Rightarrow> int \<Rightarrow> int \<Rightarrow> ref_value option" where
  "getPilotValue mode spectrum symbol carrier =
    (let x = (if mode = 1 then 4 else if mode = 2 then 2 else if mode = 3 then 2 else 1);
         y = (if mode = 1 then 5 else if mode = 2 then 3 else if mode = 3 then 2 else 3);
         k0 = (if mode = 1 then 2 else 1);
         n = c_rem symbol y;
         m = c_div symbol y;
         p = c_div (carrier - k0 - n * x) (x * y)
     in case (Z_256 mode n m, W_1024 mode n m) of
          (Some z, Some w) \<Rightarrow>
            let phase = c_rem (4 * z + p * w + p * p * (1 + symbol) * Q_1024 mode) 1024
            in Some (if isBoostCell mode spectrum symbol carrier then 4 else 2, phase)
        | _ \<Rightarrow> None)"

section \<open>Places of the cells of a frame\<close>

definition isFACcell :: "nat \<Rightarrow> int \<Rightarrow> int \<Rightarrow> bool" where
  "isFACcell mode symbol carrier =
     (if carrier < 0 then False
      else list_ex (\<lambda>c. c = (symbol, carrier))
             (takeWhile (\<lambda>(sym', car). sym' \<le> symbol) (fac_entries mode)))"

definition isSDCcell :: "nat \<Rightarrow> int \<Rightarrow> int \<Rightarrow> bool" where
  "isSDCcell mode symbol carrier =
     (if carrier = 0 then False
      else if mode = 1 \<and> (carrier = - 1 \<or> carrier = 1) then False
      else if symbol > 2 then False
      else if isTimeCell mode symbol carrier then False
      else if isFreqCell mode symbol carrier then False
      else if isPilotCell mode symbol carrier then False
      else if isFACcell mode symbol carrier then False
      else True)"

definition isDatacell :: "nat \<Rightarrow> int \<Rightarrow> int \<Rightarrow> nat \<Rightarrow> bool" where
  "isDatacell mode symbol carrier blockno =
     (if carrier = 0 then False
      else if mode = 1 \<and> (carrier = - 1 \<or> carrier = 1) then False
      else if blockno = 0 \<and> (symbol = 0 \<or> symbol = 1) then False
      else if blockno = 0 \<and> (mode = 3 \<or> mode = 4) \<and> symbol = 2 then False
      else if isFreqCell mode symbol carrier then False
      else if isPilotCell mode symbol carrier then False
      else if isTimeCell mode symbol carrier then False
      else if isFACcell mode symbol carrier then False
      else True)"

text \<open>The size of the table of service description cells; a spectrum beyond 5 is out of the arrays.\<close>

definition sdcCells :: "nat \<Rightarrow> nat \<Rightarrow> int option" where
  "sdcCells mode spectrum =
     (if mode = 1 then entry [167, 190, 359, 405, 754, 846] (int spectrum)
      else if mode = 3 then Some 288
      else if mode = 4 then Some 152
      else entry [130, 150, 282, 322, 588, 1500] (int spectrum))"

text \<open>
  The table is written from its start, one cell after the other; a write beyond its end has no result.
\<close>

fun sdc_row :: "nat \<Rightarrow> int \<Rightarrow> int list \<Rightarrow> (int \<times> int) list \<times> nat \<Rightarrow> ((int \<times> int) list \<times> nat) option" where
  "sdc_row mode symbol [] st = Some st"
| "sdc_row mode symbol (carrier # cs) (tab, cnt) =
     (if isSDCcell mode symbol carrier then
        (if cnt < length tab then sdc_row mode symbol cs (tab[cnt := (symbol, carrier)], Suc cnt) else None)
      else sdc_row mode symbol cs (tab, cnt))"

definition carriers :: "nat \<Rightarrow> nat \<Rightarrow> int list" where
  "carriers mode spectrum = [Kmin mode spectrum .. Kmax mode spectrum]"

definition set_sdcCells :: "nat \<Rightarrow> nat \<Rightarrow> (int \<times> int) list \<Rightarrow> ((int \<times> int) list \<times> nat) option" where
  "set_sdcCells mode spectrum sdcTable =
     do { st \<leftarrow> sdc_row mode 0 (carriers mode spectrum) (sdcTable, 0);
          st \<leftarrow> sdc_row mode 1 (carriers mode spectrum) st;
          if mode = 3 \<or> mode = 4 then sdc_row mode 2 (carriers mode spectrum) st else Some st }"

text \<open>The data cells of a frame, in the order in which a frame is added to the superframe.\<close>

definition frame_cells :: "nat \<Rightarrow> nat \<Rightarrow> nat \<Rightarrow> (int \<times> int) list" where
  "frame_cells mode spectrum blockno =
     concat (map (\<lambda>symbol. map (Pair symbol)
       (filter (\<lambda>carrier. isDatacell mode symbol carrier blockno) (carriers mode spectrum)))
       [0 .. symbolsperFrame mode - 1])"

section \<open>Counting the cells of a row\<close>

text \<open>The pilots of a row are an arithmetic progression; the other occupied cells are few.\<close>

definition pilot_step :: "nat \<Rightarrow> int" where
  "pilot_step mode = (if mode = 2 then 6 else if mode = 3 then 4 else if mode = 4 then 3 else 20)"

definition pilot_start :: "nat \<Rightarrow> int \<Rightarrow> int" where
  "pilot_start mode symbol = (if mode = 2 then 1 + 2 * (symbol mod 3) else if mode = 3 then 1 + 2 * (symbol mod 2)
     else if mode = 4 then 1 + symbol mod 3 else 2 + 4 * (symbol mod 5))"

definition on_pilot :: "nat \<Rightarrow> int \<Rightarrow> int \<Rightarrow> bool" where
  "on_pilot mode symbol carrier = ((carrier - pilot_start mode symbol) mod pilot_step mode = 0)"

definition occupied :: "nat \<Rightarrow> int \<Rightarrow> int list" where
  "occupied mode symbol = remdups ([0] @ (if mode = 1 then [- 1, 1] else []) @ map fst (cell_entries (freq_table mode))
     @ (if symbol = 0 then map fst (cell_entries (tableforMode mode)) else [])
     @ map snd (filter (\<lambda>c. fst c = symbol) (fac_entries mode)))"

definition free_cell :: "nat \<Rightarrow> int \<Rightarrow> int \<Rightarrow> bool" where
  "free_cell mode symbol carrier = (\<not> on_pilot mode symbol carrier \<and> carrier \<notin> set (occupied mode symbol))"

definition row_count :: "nat \<Rightarrow> int \<Rightarrow> int \<Rightarrow> int \<Rightarrow> int" where
  "row_count mode symbol a b =
     b + 1 - a
     - ((b - pilot_start mode symbol) div pilot_step mode - (a - 1 - pilot_start mode symbol) div pilot_step mode)
     - int (length (filter (\<lambda>c. a \<le> c \<and> c \<le> b \<and> \<not> on_pilot mode symbol c) (occupied mode symbol)))"

lemma abs_mod_0: "0 < q \<Longrightarrow> \<bar>x\<bar> mod q = 0 \<longleftrightarrow> x mod q = (0 :: int)"
  by (simp add: mod_eq_0_iff_dvd)

lemma isPilotCell_iff:
  "0 \<le> symbol \<Longrightarrow> isPilotCell mode symbol carrier \<longleftrightarrow> carrier \<noteq> 0 \<and> on_pilot mode symbol carrier"
  by (simp add: isPilotCell_def on_pilot_def pilot_step_def pilot_start_def c_rem_nonneg abs_mod_0 algebra_simps
      split del: if_split split: if_split)

lemma div_pred:
  assumes "0 < (q :: int)"
  shows "(x - 1) div q = x div q - (if x mod q = 0 then 1 else 0)"
proof (cases "x mod q = 0")
  case True
  then have "x - 1 = q * (x div q - 1) + (q - 1)" by (auto simp: algebra_simps elim: dvdE)
  then show ?thesis using True assms int_div_pos_eq [of "x - 1" q "x div q - 1" "q - 1"] by simp
next
  case False
  then have "0 < x mod q" using assms pos_mod_sign [of q x] by linarith
  moreover have "x - 1 = q * (x div q) + (x mod q - 1)" by simp
  ultimately show ?thesis
    using False assms less_imp_le [OF pos_mod_bound [of q x]] pos_mod_bound [of q x] int_div_pos_eq [of "x - 1" q "x div q" "x mod q - 1"] by simp
qed

lemma length_filter_progression:
  assumes "0 < (q :: int)" "a \<le> b + 1"
  shows "int (length (filter (\<lambda>c. (c - r) mod q = 0) [a .. b])) = (b - r) div q - (a - 1 - r) div q"
  using assms(2)
proof (induction "nat (b + 1 - a)" arbitrary: b)
  case 0
  then have "b = a - 1" by simp
  then show ?case by simp
next
  case (Suc n)
  then have ab: "a \<le> b" by simp
  have step: "(b - r) div q = (b - 1 - r) div q + (if (b - r) mod q = 0 then 1 else 0)"
    using div_pred [OF assms(1), of "b - r"] by (simp add: algebra_simps)
  have "int (length (filter (\<lambda>c. (c - r) mod q = 0) [a .. b - 1])) = (b - 1 - r) div q - (a - 1 - r) div q"
    using Suc by simp
  moreover have "[a .. b] = [a .. b - 1] @ [b]" using ab by (rule upto_rec2)
  ultimately show ?case using step by simp
qed

lemma length_filter_free:
  assumes "distinct xs" "distinct E"
  shows "int (length (filter (\<lambda>c. \<not> P c \<and> c \<notin> set E) xs)) =
    int (length xs) - int (length (filter P xs)) - int (length (filter (\<lambda>c. c \<in> set xs \<and> \<not> P c) E))"
proof -
  let ?A = "{c \<in> set xs. \<not> P c \<and> c \<notin> set E}" let ?B = "{c \<in> set xs. P c}" let ?C = "{c \<in> set E. c \<in> set xs \<and> \<not> P c}"
  have "set xs = ?A \<union> (?B \<union> ?C)" by auto
  then have "card (set xs) = card (?A \<union> (?B \<union> ?C))" by simp
  also have "\<dots> = card ?A + card (?B \<union> ?C)" by (rule card_Un_disjoint) auto
  also have "card (?B \<union> ?C) = card ?B + card ?C" by (rule card_Un_disjoint) auto
  finally have "card (set xs) = card ?A + (card ?B + card ?C)" .
  then show ?thesis
    using assms by (simp add: distinct_card [symmetric] distinct_filter Int_def conj_commute)
qed

lemma length_filter_free_cell:
  assumes "a \<le> b + 1"
  shows "int (length (filter (free_cell mode symbol) [a .. b])) = row_count mode symbol a b"
proof -
  have "0 < pilot_step mode" by (simp add: pilot_step_def)
  then have "int (length (filter (on_pilot mode symbol) [a .. b]))
      = (b - pilot_start mode symbol) div pilot_step mode - (a - 1 - pilot_start mode symbol) div pilot_step mode"
    using length_filter_progression [OF _ assms] by (simp add: on_pilot_def [abs_def])
  moreover have "free_cell mode symbol = (\<lambda>c. \<not> on_pilot mode symbol c \<and> c \<notin> set (occupied mode symbol))"
    by (simp add: free_cell_def [abs_def])
  moreover have "filter (\<lambda>c. c \<in> set [a .. b] \<and> \<not> on_pilot mode symbol c) (occupied mode symbol)
      = filter (\<lambda>c. a \<le> c \<and> c \<le> b \<and> \<not> on_pilot mode symbol c) (occupied mode symbol)"
    by (rule filter_cong) auto
  ultimately show ?thesis
    using length_filter_free [of "[a .. b]" "occupied mode symbol" "on_pilot mode symbol"] assms
    by (simp add: row_count_def occupied_def)
qed

lemma takeWhile_sorted:
  "sorted (map f xs) \<Longrightarrow> takeWhile (\<lambda>x. f x \<le> k) xs = filter (\<lambda>x. f x \<le> k) xs" for f :: "'a \<Rightarrow> int"
proof (induction xs)
  case (Cons x xs)
  show ?case
  proof (cases "f x \<le> k")
    case False
    then have "\<forall>y\<in>set (x # xs). \<not> f y \<le> k" using Cons.prems by auto
    then show ?thesis using False by (simp add: filter_empty_conv)
  qed (use Cons in simp)
qed simp

lemma fac_entries_sorted:
  "sorted (map fst (fac_entries mode)) \<and> list_all (\<lambda>c. 0 \<le> snd c) (fac_entries mode)"
proof -
  have "list_all (\<lambda>mode. sorted (map fst (fac_entries mode)) \<and> list_all (\<lambda>c. 0 \<le> snd c) (fac_entries mode)) [1, 2, 3, 4]"
    by code_simp
  moreover define M where "M = (if mode \<in> {2, 3, 4} then mode else 1)"
  have "fac_entries mode = fac_entries M" by (auto simp: M_def fac_entries_def getFacTableforMode_def)
  moreover have "M \<in> set [1, 2, 3, 4]" by (auto simp: M_def)
  ultimately show ?thesis unfolding list_all_iff by metis
qed

lemma isFACcell_iff:
  "isFACcell mode symbol carrier \<longleftrightarrow> (symbol, carrier) \<in> set (fac_entries mode)"
proof -
  have "takeWhile (\<lambda>(sym', car). sym' \<le> symbol) (fac_entries mode) = filter (\<lambda>c. fst c \<le> symbol) (fac_entries mode)"
    using takeWhile_sorted [of fst "fac_entries mode" symbol] fac_entries_sorted [of mode]
    by (simp add: split_def)
  then show ?thesis using fac_entries_sorted [of mode] by (auto simp: isFACcell_def list_ex_iff list_all_iff)
qed

lemma isTimeCell_iff:
  "isTimeCell mode symbol carrier \<longleftrightarrow> symbol = 0 \<and> carrier \<in> fst ` set (cell_entries (tableforMode mode))"
  by (force simp: isTimeCell_def list_ex_iff)

lemma isFreqCell_iff:
  "isFreqCell mode symbol carrier \<longleftrightarrow> carrier \<in> fst ` set (cell_entries (freq_table mode))"
  by (force simp: isFreqCell_def list_ex_iff)

lemma free_cell_iff:
  assumes "0 \<le> symbol"
  shows "free_cell mode symbol carrier \<longleftrightarrow>
    carrier \<noteq> 0 \<and> \<not> (mode = 1 \<and> (carrier = - 1 \<or> carrier = 1)) \<and> \<not> isTimeCell mode symbol carrier
    \<and> \<not> isFreqCell mode symbol carrier \<and> \<not> isPilotCell mode symbol carrier \<and> \<not> isFACcell mode symbol carrier"
  by (auto simp: free_cell_def occupied_def isPilotCell_iff [OF assms] isFACcell_iff isTimeCell_iff isFreqCell_iff
      image_iff)

lemma isSDCcell_iff: "0 \<le> symbol \<Longrightarrow> isSDCcell mode symbol carrier \<longleftrightarrow> symbol \<le> 2 \<and> free_cell mode symbol carrier"
  by (auto simp: isSDCcell_def free_cell_iff)

lemma isDatacell_iff:
  "0 \<le> symbol \<Longrightarrow> isDatacell mode symbol carrier blockno \<longleftrightarrow>
     free_cell mode symbol carrier \<and> (blockno = 0 \<longrightarrow> (if mode = 3 \<or> mode = 4 then 2 else 1) < symbol)"
  by (auto simp: isDatacell_def free_cell_iff)

section \<open>The table of service description cells\<close>

definition sdc_list :: "nat \<Rightarrow> nat \<Rightarrow> int \<Rightarrow> (int \<times> int) list" where
  "sdc_list mode spectrum symbol = map (Pair symbol) (filter (isSDCcell mode symbol) (carriers mode spectrum))"

lemma sdc_row_blit:
  "sdc_row mode symbol cs (tab, cnt) =
    (let new = map (Pair symbol) (filter (isSDCcell mode symbol) cs)
     in if cnt + length new \<le> length tab then Some (blit cnt new tab, cnt + length new) else None)"
  if "cnt \<le> length tab"
  using that
proof (induction cs arbitrary: tab cnt)
  case Nil
  then show ?case by (simp add: blit_def)
next
  case (Cons c cs)
  show ?case
  proof (cases "isSDCcell mode symbol c \<and> cnt < length tab")
    case True
    have "blit (Suc cnt) new (tab[cnt := (symbol, c)]) = blit cnt ((symbol, c) # new) tab"
      for new :: "(int \<times> int) list"
      using True by (simp add: blit_def take_Suc_conv_app_nth take_update_swap list_update_append)
    then show ?thesis using True Cons.IH [of "Suc cnt" "tab[cnt := (symbol, c)]"]
      by (auto simp: Let_def)
  next
    case False
    then show ?thesis using Cons.IH [OF Cons.prems] Cons.prems by (auto simp: Let_def)
  qed
qed

definition sdc_rows :: "nat \<Rightarrow> int list" where
  "sdc_rows mode = (if mode = 3 \<or> mode = 4 then [0, 1, 2] else [0, 1])"

definition sdc_cells :: "nat \<Rightarrow> nat \<Rightarrow> (int \<times> int) list" where
  "sdc_cells mode spectrum = concat (map (sdc_list mode spectrum) (sdc_rows mode))"

lemma blit_twice:
  "k + length xs + length ys \<le> length tab \<Longrightarrow> blit (k + length xs) ys (blit k xs tab) = blit k (xs @ ys) tab"
  by (simp add: blit_def ac_simps)

lemma set_sdcCells_eq:
  "set_sdcCells mode spectrum tab =
    (if length (sdc_cells mode spectrum) \<le> length tab
     then Some (blit 0 (sdc_cells mode spectrum) tab, length (sdc_cells mode spectrum)) else None)"
proof -
  have two: "do { st \<leftarrow> sdc_row mode 0 (carriers mode spectrum) (tab, 0);
      sdc_row mode 1 (carriers mode spectrum) st } =
    (let new = sdc_list mode spectrum 0 @ sdc_list mode spectrum 1
     in if length new \<le> length tab then Some (blit 0 new tab, length new) else None)"
    using blit_twice [of 0 "sdc_list mode spectrum 0" "sdc_list mode spectrum 1" tab]
    by (auto simp: sdc_row_blit Let_def sdc_list_def)
  show ?thesis
  proof (cases "mode = 3 \<or> mode = 4")
    case True
    then show ?thesis
      using two blit_twice [of 0 "sdc_list mode spectrum 0 @ sdc_list mode spectrum 1" "sdc_list mode spectrum 2" tab]
      by (auto simp: set_sdcCells_def sdc_cells_def sdc_rows_def Let_def sdc_row_blit sdc_list_def
          bind_assoc [symmetric] split: if_splits)
  next
    case False
    then show ?thesis using two by (simp add: set_sdcCells_def sdc_cells_def sdc_rows_def Let_def)
  qed
qed

lemma filter_congI: "(\<And>x. x \<in> set xs \<Longrightarrow> P x = Q x) \<Longrightarrow> filter P xs = filter Q xs"
  by (rule filter_cong) auto

lemma length_sdc_list:
  assumes "symbol \<in> set (sdc_rows mode)" "Kmin mode spectrum \<le> Kmax mode spectrum + 1"
  shows "int (length (sdc_list mode spectrum symbol)) = row_count mode symbol (Kmin mode spectrum) (Kmax mode spectrum)"
proof -
  have "0 \<le> symbol \<and> symbol \<le> 2" using assms(1) by (auto simp: sdc_rows_def split: if_splits)
  then have "filter (isSDCcell mode symbol) (carriers mode spectrum) = filter (free_cell mode symbol) (carriers mode spectrum)"
    by (intro filter_congI) (simp add: isSDCcell_iff)
  then show ?thesis using length_filter_free_cell [OF assms(2)] by (simp add: sdc_list_def carriers_def)
qed

lemma row_order: "Kmin mode spectrum \<le> Kmax mode spectrum + 1"
  by (auto simp: Kmin_def Kmax_def)

definition sdc_total :: "nat \<Rightarrow> nat \<Rightarrow> int" where
  "sdc_total mode spectrum =
    sum_list (map (\<lambda>symbol. row_count mode symbol (Kmin mode spectrum) (Kmax mode spectrum)) (sdc_rows mode))"

lemma length_sdc_cells: "int (length (sdc_cells mode spectrum)) = sdc_total mode spectrum"
proof -
  have "int (length (concat (map (sdc_list mode spectrum) rows))) =
      sum_list (map (\<lambda>symbol. row_count mode symbol (Kmin mode spectrum) (Kmax mode spectrum)) rows)"
    if "set rows \<subseteq> set (sdc_rows mode)" for rows
    using that by (induction rows) (auto simp: length_sdc_list [OF _ row_order])
  then show ?thesis by (simp add: sdc_cells_def sdc_total_def)
qed

lemma sdc_totals_1: "map (sdc_total 1) [0, 1, 2, 3, 4, 5] = [167, 190, 359, 405, 754, 846]"
  by code_simp

lemma sdc_totals_2: "map (sdc_total 2) [0, 1, 2, 3, 4] = [130, 150, 282, 322, 588]"
  by code_simp

lemma sdc_totals_3: "map (sdc_total 3) [0, 1, 2, 3, 4, 5] = [607, 607, 607, 288, 607, 607]"
  by code_simp

lemma sdc_totals_4: "map (sdc_total 4) [0, 1, 2, 3, 4, 5] = [332, 332, 332, 334, 150, 332]"
  by code_simp

lemmas sdc_totals = sdc_totals_1 sdc_totals_2 sdc_totals_3 sdc_totals_4

lemma distinct_carriers: "distinct (carriers mode spectrum)"
  by (simp add: carriers_def)

lemma distinct_rows_of:
  assumes "distinct rows" "distinct cs"
  shows "distinct (concat (map (\<lambda>symbol. map (Pair symbol) (filter (P symbol) cs)) rows))"
  using assms by (induction rows) (auto simp: distinct_map inj_on_def)

lemma distinct_sdc_cells: "distinct (sdc_cells mode spectrum)"
proof -
  have "distinct (sdc_rows mode)" by (simp add: sdc_rows_def)
  from distinct_rows_of [OF this distinct_carriers, of "isSDCcell mode"] show ?thesis
    by (simp only: sdc_cells_def sdc_list_def [abs_def])
qed

lemma set_sdc_cells:
  "(symbol, carrier) \<in> set (sdc_cells mode spectrum) \<longleftrightarrow>
    symbol \<in> set (sdc_rows mode) \<and> carrier \<in> set (carriers mode spectrum) \<and> isSDCcell mode symbol carrier"
  by (auto simp: sdc_cells_def sdc_list_def)

text \<open>The combinations of mode and spectrum for which the table of the decoder is right.\<close>

definition sdc_supported :: "nat \<Rightarrow> nat \<Rightarrow> bool" where
  "sdc_supported mode spectrum =
    (mode = 1 \<and> spectrum \<le> 5 \<or> mode = 2 \<and> spectrum \<le> 4 \<or> mode = 3 \<and> spectrum = 3)"

lemma sdcCells_total:
  "list_all (\<lambda>spectrum. sdcCells 1 spectrum = Some (sdc_total 1 spectrum)) [0, 1, 2, 3, 4, 5]"
  "list_all (\<lambda>spectrum. sdcCells 2 spectrum = Some (sdc_total 2 spectrum)) [0, 1, 2, 3, 4]"
  "sdcCells 3 3 = Some (sdc_total 3 3)"
  using sdc_totals by (simp_all add: sdcCells_def entry_def)

lemma sdcCells_exact:
  assumes "sdc_supported mode spectrum"
  shows "sdcCells mode spectrum = Some (int (length (sdc_cells mode spectrum)))"
proof -
  consider "mode = 1" "spectrum \<in> set [0, 1, 2, 3, 4, 5]" | "mode = 2" "spectrum \<in> set [0, 1, 2, 3, 4]"
    | "mode = 3" "spectrum = 3"
    using assms by (fastforce simp: sdc_supported_def)
  then show ?thesis
    unfolding length_sdc_cells using sdcCells_total unfolding list_all_iff by cases blast+
qed

text \<open>
  C17. For every supported mode and spectrum the table of service description cells, created with the size
  that \<open>sdcCells\<close> gives, is filled exactly, without a write beyond its end: it then holds every cell of the
  first two symbols (three in mode C) that is neither an unused carrier nor a time, frequency, pilot or fast
  access cell, each of them once, whatever the table held before.
\<close>

theorem sdc_cells_fill_table:
  assumes "sdc_supported mode spectrum" "sdcCells mode spectrum = Some (int (length sdcTable))"
  shows "\<exists>cells. set_sdcCells mode spectrum sdcTable = Some (cells, length sdcTable)
    \<and> length cells = length sdcTable \<and> distinct cells
    \<and> (\<forall>symbol carrier. (symbol, carrier) \<in> set cells \<longleftrightarrow>
         0 \<le> symbol \<and> symbol \<le> (if mode = 3 then 2 else 1)
         \<and> Kmin mode spectrum \<le> carrier \<and> carrier \<le> Kmax mode spectrum \<and> isSDCcell mode symbol carrier)"
proof -
  have "length sdcTable = length (sdc_cells mode spectrum)"
    using assms sdcCells_exact by simp
  then have "set_sdcCells mode spectrum sdcTable = Some (sdc_cells mode spectrum, length sdcTable)"
    by (simp add: set_sdcCells_eq blit_def)
  moreover have "symbol \<in> set (sdc_rows mode) \<longleftrightarrow> 0 \<le> symbol \<and> symbol \<le> (if mode = 3 then 2 else 1)" for symbol
    using assms(1) by (auto simp: sdc_rows_def sdc_supported_def)
  ultimately show ?thesis
    using \<open>length sdcTable = _\<close>
    by (auto simp: distinct_sdc_cells set_sdc_cells carriers_def)
qed

theorem sdc_cells_fill_table_witness:
  "\<exists>cells. set_sdcCells 2 3 (replicate 322 (0, 0)) = Some (cells, 322)
    \<and> length cells = 322 \<and> distinct cells
    \<and> (\<forall>symbol carrier. (symbol, carrier) \<in> set cells \<longleftrightarrow>
         0 \<le> symbol \<and> symbol \<le> 1 \<and> Kmin 2 3 \<le> carrier \<and> carrier \<le> Kmax 2 3 \<and> isSDCcell 2 symbol carrier)"
  using sdc_cells_fill_table [of 2 3 "replicate 322 (0, 0)"] by (simp add: sdc_supported_def sdcCells_def entry_def)

text \<open>
  C36. The table of service description cells is too small for all spectra of mode C but 3 and for all spectra of mode D
  but 4: filling it writes beyond its end. For the two spectra the standard has for these modes, 3 and 5, this is mode C
  with spectrum 5 and mode D with both. In mode D with spectrum 3 this is the upper carrier limit, which tests the spectrum for
  4 where the lower limit tests it for 3, so that the rows reach up to carrier 135 and not to 44.
\<close>

theorem sdc_table_overflow:
  assumes "mode = 3 \<or> mode = 4" "spectrum \<le> 5" "sdcCells mode spectrum = Some (int (length sdcTable))"
  shows "set_sdcCells mode spectrum sdcTable = None \<longleftrightarrow> (mode, spectrum) \<notin> {(3, 3), (4, 4)}"
proof -
  have "spectrum \<in> {0, 1, 2, 3, 4, 5}" using assms(2) by auto
  then have "int (length sdcTable) < int (length (sdc_cells mode spectrum)) \<longleftrightarrow> (mode, spectrum) \<notin> {(3, 3), (4, 4)}"
    using assms(1,3) sdc_totals(3,4) unfolding length_sdc_cells by (auto simp: sdcCells_def)
  then show ?thesis by (simp add: set_sdcCells_eq flip: not_less)
qed

theorem sdc_table_overflow_witness: "set_sdcCells 4 3 (replicate 152 (0, 0)) = None"
  using sdc_table_overflow [of 4 3 "replicate 152 (0, 0)"] by (simp add: sdcCells_def)

section \<open>The data cells of a superframe\<close>

definition first_data_row :: "nat \<Rightarrow> nat \<Rightarrow> int" where
  "first_data_row mode blockno = (if blockno \<noteq> 0 then 0 else if mode = 3 \<or> mode = 4 then 3 else 2)"

definition data_total :: "nat \<Rightarrow> nat \<Rightarrow> int" where
  "data_total mode spectrum = sum_list (map (\<lambda>symbol. row_count mode symbol (Kmin mode spectrum) (Kmax mode spectrum))
     [0 .. symbolsperFrame mode - 1])"

lemma frame_cells_perm:
  "mset (frame_cells mode spectrum 0) + mset (sdc_cells mode spectrum) = mset (frame_cells mode spectrum (Suc b))"
proof -
  let ?cs = "carriers mode spectrum" and ?R = "\<lambda>P symbol. map (Pair symbol) (filter P (carriers mode spectrum))"
  define k where "k = first_data_row mode 0"
  have k: "0 < k" "k \<le> symbolsperFrame mode" "[0 .. k - 1] = sdc_rows mode"
    by (simp_all add: k_def first_data_row_def symbolsperFrame_def sdc_rows_def upto.simps)
  then have rows: "[0 .. symbolsperFrame mode - 1] = sdc_rows mode @ [k .. symbolsperFrame mode - 1]"
    using upto_split2 [of 0 "k - 1" "symbolsperFrame mode - 1"] by simp
  have low: "filter (\<lambda>c. isDatacell mode symbol c 0) ?cs = []" "filter (\<lambda>c. isDatacell mode symbol c (Suc b)) ?cs = filter (isSDCcell mode symbol) ?cs"
    if "symbol \<in> set (sdc_rows mode)" for symbol
    using that by (auto simp: sdc_rows_def isDatacell_iff isSDCcell_iff filter_empty_conv split: if_splits intro!: filter_congI)
  have high: "filter (\<lambda>c. isDatacell mode symbol c 0) ?cs = filter (\<lambda>c. isDatacell mode symbol c (Suc b)) ?cs"
    if "symbol \<in> set [k .. symbolsperFrame mode - 1]" for symbol
    using that k(1) by (intro filter_congI) (auto simp: isDatacell_iff k_def first_data_row_def split: if_splits)
  have "frame_cells mode spectrum 0 = concat (map (\<lambda>symbol. ?R (\<lambda>c. isDatacell mode symbol c 0) symbol) [k .. symbolsperFrame mode - 1])"
    using low(1) by (simp add: frame_cells_def rows)
  also have "\<dots> = concat (map (\<lambda>symbol. ?R (\<lambda>c. isDatacell mode symbol c (Suc b)) symbol) [k .. symbolsperFrame mode - 1])"
    using high by (intro arg_cong [where f = concat] map_cong) auto
  moreover have "sdc_cells mode spectrum = concat (map (\<lambda>symbol. ?R (\<lambda>c. isDatacell mode symbol c (Suc b)) symbol) (sdc_rows mode))"
    unfolding sdc_cells_def sdc_list_def using low(2) by (intro arg_cong [where f = concat] map_cong) auto
  ultimately show ?thesis by (simp add: frame_cells_def rows)
qed

lemma length_frame_cells: "int (length (frame_cells mode spectrum (Suc b))) = data_total mode spectrum"
proof -
  let ?row = "\<lambda>symbol. map (Pair symbol) (filter (\<lambda>c. isDatacell mode symbol c (Suc b)) (carriers mode spectrum))"
  have row: "int (length (?row symbol)) = row_count mode symbol (Kmin mode spectrum) (Kmax mode spectrum)"
    if "0 \<le> symbol" for symbol
  proof -
    have "filter (\<lambda>c. isDatacell mode symbol c (Suc b)) (carriers mode spectrum)
        = filter (free_cell mode symbol) (carriers mode spectrum)"
      using that by (intro filter_congI) (simp add: isDatacell_iff)
    then show ?thesis using length_filter_free_cell [OF row_order] by (simp add: carriers_def)
  qed
  have "int (length (concat (map ?row rows))) =
      sum_list (map (\<lambda>symbol. row_count mode symbol (Kmin mode spectrum) (Kmax mode spectrum)) rows)"
    if "\<forall>r\<in>set rows. 0 \<le> r" for rows
    using that by (induction rows) (auto simp: row [simplified])
  then show ?thesis by (simp add: frame_cells_def data_total_def)
qed

lemma length_first_frame:
  "int (length (frame_cells mode spectrum 0)) = data_total mode spectrum - sdc_total mode spectrum"
  using arg_cong [OF frame_cells_perm [of mode spectrum 0], of size]
  by (simp flip: length_sdc_cells length_frame_cells [of mode spectrum 0] add: size_mset [symmetric] del: size_mset)

definition data_supported :: "nat \<Rightarrow> nat \<Rightarrow> bool" where
  "data_supported mode spectrum =
    (mode = 1 \<and> spectrum \<le> 4 \<or> mode = 2 \<and> spectrum \<le> 4 \<or> mode = 3 \<and> spectrum = 3)"

lemma data_totals_1: "map (data_total 1) [0, 1, 2, 3, 4] = [1315, 1486, 2752, 3094, 5716]"
  by code_simp

lemma data_totals_2: "map (data_total 2) [0, 1, 2, 3, 4] = [1010, 1160, 2145, 2445, 4445]"
  by code_simp

lemma data_totals_3: "data_total 3 3 = 1940"
  by code_simp

lemma mscCells_total:
  "list_all (\<lambda>spectrum. mscCells 1 spectrum = 3 * data_total 1 spectrum - sdc_total 1 spectrum) [0, 1, 2, 3, 4]"
  "list_all (\<lambda>spectrum. mscCells 2 spectrum = 3 * data_total 2 spectrum - sdc_total 2 spectrum) [0, 1, 2, 3, 4]"
  "mscCells 3 3 = 3 * data_total 3 3 - sdc_total 3 3"
  using sdc_totals data_totals_1 data_totals_2 data_totals_3 by (simp_all add: mscCells_def)

text \<open>
  C16. The number of data cells that the fast access channel assumes for a superframe, of which a third is
  the length of the multiplex, is the number of cells that the three frames of a superframe add, for
  every supported mode and spectrum; the first frame adds the cells of a later one less the service
  description cells, and no cell of a frame is added twice.
\<close>

theorem superframe_data_cells:
  assumes "data_supported mode spectrum"
  shows "mscCells mode spectrum = int (length (frame_cells mode spectrum 0)) + int (length (frame_cells mode spectrum 1))
      + int (length (frame_cells mode spectrum 2))
    \<and> mset (frame_cells mode spectrum 0) + mset (fst (the (set_sdcCells mode spectrum
         (replicate (nat (the (sdcCells mode spectrum))) (0, 0))))) = mset (frame_cells mode spectrum 1)
    \<and> distinct (frame_cells mode spectrum 0) \<and> distinct (frame_cells mode spectrum 1)"
proof -
  consider "mode = 1" "spectrum \<in> set [0, 1, 2, 3, 4]" | "mode = 2" "spectrum \<in> set [0, 1, 2, 3, 4]"
    | "mode = 3" "spectrum = 3"
    using assms by (fastforce simp: data_supported_def)
  then have "mscCells mode spectrum = 3 * data_total mode spectrum - sdc_total mode spectrum"
    using mscCells_total unfolding list_all_iff by cases blast+
  moreover have "distinct (frame_cells mode spectrum b)" for b
    unfolding frame_cells_def by (rule distinct_rows_of) (simp_all add: distinct_carriers)
  moreover have "sdc_supported mode spectrum" using assms by (auto simp: data_supported_def sdc_supported_def)
  then have "fst (the (set_sdcCells mode spectrum (replicate (nat (the (sdcCells mode spectrum))) (0, 0)))) = sdc_cells mode spectrum"
    by (simp add: set_sdcCells_eq sdcCells_exact blit_def)
  ultimately show ?thesis
    using length_first_frame [of mode spectrum] length_frame_cells [of mode spectrum 0]
      length_frame_cells [of mode spectrum 1] frame_cells_perm [of mode spectrum 0] by (simp add: numeral_2_eq_2)
qed

theorem superframe_data_cells_witness:
  "mscCells 2 3 = int (length (frame_cells 2 3 0)) + int (length (frame_cells 2 3 1)) + int (length (frame_cells 2 3 2))
    \<and> mset (frame_cells 2 3 0) + mset (fst (the (set_sdcCells 2 3 (replicate (nat (the (sdcCells 2 3))) (0, 0)))))
       = mset (frame_cells 2 3 1)
    \<and> distinct (frame_cells 2 3 0) \<and> distinct (frame_cells 2 3 1)"
  by (rule superframe_data_cells) (simp add: data_supported_def)

section \<open>The values of reference cells\<close>

lemma valueFor_power: "(cmod (valueFor v))\<^sup>2 = real (fst v)"
proof -
  define x where "x = 2 * pi * snd v / 1024"
  have "real (fst v) * (cos x)\<^sup>2 + real (fst v) * (sin x)\<^sup>2 = real (fst v) * ((cos x)\<^sup>2 + (sin x)\<^sup>2)"
    by (simp only: distrib_left)
  then have "real (fst v) * (cos x)\<^sup>2 + real (fst v) * (sin x)\<^sup>2 = real (fst v)" by simp
  then show ?thesis unfolding valueFor_def x_def [symmetric] by (simp add: cmod_power2 power_mult_distrib)
qed

lemma pilot_tables_defined:
  "list_all (\<lambda>(mode, y). list_all (\<lambda>symbol. Z_256 mode (c_rem symbol y) (c_div symbol y) \<noteq> None
      \<and> W_1024 mode (c_rem symbol y) (c_div symbol y) \<noteq> None) [0 .. symbolsperFrame mode - 1])
    [(1, 5), (2, 3), (3, 2), (4, 3)]"
  by code_simp

lemma getPilotValue_defined:
  assumes "1 \<le> mode" "mode \<le> 4" "0 \<le> symbol" "symbol < symbolsperFrame mode"
  shows "\<exists>phase. getPilotValue mode spectrum symbol carrier
    = Some (if isBoostCell mode spectrum symbol carrier then 4 else 2, phase)"
proof -
  define y where "y = (if mode = 1 then 5 else if mode = 2 then 3 else if mode = 3 then 2 else 3 :: int)"
  have "(mode, y) \<in> set [(1, 5), (2, 3), (3, 2), (4, 3)]" using assms(1,2) by (auto simp: y_def)
  moreover have "symbol \<in> set [0 .. symbolsperFrame mode - 1]" using assms(3,4) by simp
  ultimately have "Z_256 mode (c_rem symbol y) (c_div symbol y) \<noteq> None \<and> W_1024 mode (c_rem symbol y) (c_div symbol y) \<noteq> None"
    using pilot_tables_defined unfolding list_all_iff by blast
  then obtain z w where "Z_256 mode (c_rem symbol y) (c_div symbol y) = Some z"
      "W_1024 mode (c_rem symbol y) (c_div symbol y) = Some w" by auto
  then show ?thesis unfolding getPilotValue_def Let_def y_def [symmetric] by simp
qed

lemma freq_in_time_table:
  "list_all (\<lambda>mode. list_all (\<lambda>(carrier, phase). map_of (cell_entries (tableforMode mode)) carrier = Some phase
      \<and> map_of (cell_entries (freq_table mode)) carrier = Some phase)
    (cell_entries (freq_table mode))) [1, 2, 3, 4]"
  by code_simp

lemma getFreqRef_time:
  assumes "1 \<le> mode" "mode \<le> 4" "isFreqCell mode symbol carrier"
  shows "isTimeCell mode 0 carrier \<and> getFreqRef mode symbol carrier = getTimeRef mode 0 carrier
    \<and> fst (getTimeRef mode 0 carrier) = 2"
proof -
  obtain phase where p: "(carrier, phase) \<in> set (cell_entries (freq_table mode))"
    using assms(3) by (auto simp: isFreqCell_iff)
  moreover have "mode \<in> set [1, 2, 3, 4]" using assms(1,2) by auto
  ultimately have m: "map_of (cell_entries (tableforMode mode)) carrier = Some phase"
    "map_of (cell_entries (freq_table mode)) carrier = Some phase"
    using freq_in_time_table unfolding list_all_iff by fast+
  then show ?thesis
    by (auto simp: isTimeCell_iff getFreqRef_def getTimeRef_def table_value_def dest: map_of_SomeD intro: rev_image_eqI)
qed

text \<open>
  C35. In every symbol of a frame of the modes A to D the tables give a pilot value for every carrier, of
  power 4 at the boosted cells and of power 2 at the others, and a frequency reference is the time
  reference that the first symbol carries there, with power 2.
\<close>

theorem reference_values:
  assumes "1 \<le> mode" "mode \<le> 4" "0 \<le> symbol" "symbol < symbolsperFrame mode"
  shows "(\<exists>v. getPilotValue mode spectrum symbol carrier = Some v
      \<and> (cmod (valueFor v))\<^sup>2 = (if isBoostCell mode spectrum symbol carrier then 4 else 2))
    \<and> (isFreqCell mode symbol carrier \<longrightarrow> isTimeCell mode 0 carrier
         \<and> getFreqRef mode symbol carrier = getTimeRef mode 0 carrier
         \<and> (cmod (valueFor (getFreqRef mode symbol carrier)))\<^sup>2 = 2)"
  using getPilotValue_defined [OF assms, of spectrum carrier] getFreqRef_time [OF assms(1,2), of symbol carrier]
  by (auto simp: valueFor_power)

theorem reference_values_witness:
  "(\<exists>v. getPilotValue 2 3 4 16 = Some v \<and> (cmod (valueFor v))\<^sup>2 = 2)
    \<and> isTimeCell 2 0 16 \<and> getFreqRef 2 4 16 = getTimeRef 2 0 16 \<and> (cmod (valueFor (getFreqRef 2 4 16)))\<^sup>2 = 2"
proof -
  have p: "1 \<le> (2 :: nat)" "2 \<le> (4 :: nat)" "0 \<le> (4 :: int)" "4 < symbolsperFrame 2"
    and b: "\<not> isBoostCell 2 3 4 16" and f: "isFreqCell 2 4 16"
    by (simp_all add: symbolsperFrame_def isBoostCell_def isFreqCell_def cell_entries_def freq_table_def freqCellsforModeB_def)
  show ?thesis using reference_values [OF p, of 3 16] unfolding if_not_P [OF b] using f by blast
qed

end
