(* ===== verification/ByteCrc.thy ===== *)
theory ByteCrc
  imports DrmSdc
begin

text \<open>
  The two CRC routines that work on bytes: \<open>crc16_bytewise\<close> of the text messages
  (\<open>data/message-processor.cpp\<close>) and \<open>check_crc_bytes\<close> of the xHE-AAC decoder
  (\<open>data/xheaac-processor.cpp\<close>). Both are shown to be the bitwise check \<open>doCRC\<close> with the polynomial of the
  service description channel.
\<close>

section \<open>Bytes as bits\<close>

definition byte_bits :: "u8 \<Rightarrow> u8 list" where
  "byte_bits x = map (\<lambda>j. of_bool (bit x (7 - j))) [0 ..< 8]"

definition bytes_bits :: "u8 list \<Rightarrow> u8 list" where
  "bytes_bits xs = concat (map byte_bits xs)"

lemma byte_bits_8: "byte_bits x = [of_bool (bit x 7), of_bool (bit x 6), of_bool (bit x 5), of_bool (bit x 4),
    of_bool (bit x 3), of_bool (bit x 2), of_bool (bit x 1), of_bool (bit x 0)]"
  by (simp add: byte_bits_def upt_rec)

lemma length_byte_bits [length_simps, simp]: "length (byte_bits x) = 8"
  by (simp add: byte_bits_def)

lemma bits_byte_bits [onebit, simp]: "bits (byte_bits x)"
  by (simp add: byte_bits_8 is_bit_def)

lemma bytes_bits_simps [simp]:
  "bytes_bits [] = []" "bytes_bits (x # xs) = byte_bits x @ bytes_bits xs"
  "bytes_bits (xs @ ys) = bytes_bits xs @ bytes_bits ys"
  by (simp_all add: bytes_bits_def)

lemma length_bytes_bits [length_simps, simp]: "length (bytes_bits xs) = 8 * length xs"
  by (induction xs) simp_all

lemma bits_bytes_bits [onebit, simp]: "bits (bytes_bits xs)"
  by (induction xs) (simp_all add: onebit)

section \<open>The routine of the text messages\<close>

text \<open>One bit: the test of the top bit of the register reads a single bit of a 32-bit word.\<close>

definition crc16_bit :: "32 word \<Rightarrow> 32 word \<Rightarrow> 32 word \<Rightarrow> 32 word" where
  "crc16_bit flip b d =
     (let y = ((drop_bit 15 b + d) XOR flip) AND 1
      in if y = 1 then push_bit 1 b XOR 0x1021 else push_bit 1 b)"

definition crc16_byte :: "32 word \<Rightarrow> 32 word \<Rightarrow> u8 \<Rightarrow> 32 word" where
  "crc16_byte flip b x = foldl (\<lambda>b j. crc16_bit flip b (ucast (drop_bit j x) AND 1)) b [7, 6, 5, 4, 3, 2, 1, 0]"

text \<open>A length below 2 or beyond the array would read outside it and has no result.\<close>

definition crc16_bytewise :: "u8 list \<Rightarrow> nat \<Rightarrow> 32 word option" where
  "crc16_bytewise v N =
     (if N < 2 \<or> length v < N then None
      else let b = foldl (crc16_byte 0) 0xFFFF (take (N - 2) v);
               b = foldl (crc16_byte 1) b (take 2 (drop (N - 2) v))
           in Some (b AND 0xFFFF))"

section \<open>The routine of the xHE-AAC decoder\<close>

definition crc_shift :: "32 word \<times> 32 word \<Rightarrow> 32 word \<times> 32 word" where
  "crc_shift = (\<lambda>(data, accumulator).
     (push_bit 1 data AND 0xFFFF,
      if (data XOR accumulator) AND 0x8000 \<noteq> 0 then (push_bit 1 accumulator XOR 0x1021) AND 0xFFFF
      else push_bit 1 accumulator AND 0xFFFF))"

definition crc_add_byte :: "32 word \<Rightarrow> u8 \<Rightarrow> 32 word" where
  "crc_add_byte accumulator x = snd ((crc_shift ^^ 8) (push_bit 8 (ucast x), accumulator))"

definition check_crc_bytes :: "u8 list \<Rightarrow> nat \<Rightarrow> bool option" where
  "check_crc_bytes msg len =
     (if length msg < len + 2 then None
      else let accumulator = foldl crc_add_byte 0xFFFF (take len msg);
               crc = NOT (push_bit 8 (ucast (msg ! len)) OR ucast (msg ! (len + 1))) AND 0xFFFF
           in Some ((crc XOR accumulator) = 0))"

section \<open>Registers as lists of bits\<close>

definition ccitt :: "u16 list" where
  "ccitt = [0, 0, 0, 1, 0, 0, 0, 0, 0, 0, 1, 0, 0, 0, 0]"

definition word_reg :: "32 word \<Rightarrow> u8 list" where
  "word_reg b = map (\<lambda>j. of_bool (bit b (15 - j))) [0 ..< 16]"

lemma length_word_reg [length_simps, simp]: "length (word_reg b) = 16"
  by (simp add: word_reg_def)

lemma word_reg_16: "word_reg b = [of_bool (bit b 15), of_bool (bit b 14), of_bool (bit b 13), of_bool (bit b 12),
    of_bool (bit b 11), of_bool (bit b 10), of_bool (bit b 9), of_bool (bit b 8), of_bool (bit b 7), of_bool (bit b 6),
    of_bool (bit b 5), of_bool (bit b 4), of_bool (bit b 3), of_bool (bit b 2), of_bool (bit b 1), of_bool (bit b 0)]"
  by (simp add: word_reg_def upt_rec)

lemma and_1_iff: "(w AND 1 = (1 :: 'a::len word)) \<longleftrightarrow> bit w 0"
  by (simp add: and_one_eq odd_iff_mod_2_eq_one bit_0)

lemma bit_genpoly: "bit (0x1021 :: 32 word) j \<longleftrightarrow> j = 12 \<or> j = 5 \<or> j = 0"
proof -
  have "(0x1021 :: 32 word) = push_bit 12 1 OR (push_bit 5 1 OR 1)" by code_simp
  then have "bit (0x1021 :: 32 word) j \<longleftrightarrow> bit (push_bit 12 1 OR (push_bit 5 1 OR 1) :: 32 word) j" by (rule arg_cong)
  also have "\<dots> \<longleftrightarrow> j = 12 \<or> j = 5 \<or> j = 0"
    unfolding bit_or_iff bit_push_bit_iff bit_1_iff by auto
  finally show ?thesis .
qed

lemma bit_shift_genpoly:
  "j < 32 \<Longrightarrow> bit (push_bit 1 b XOR 0x1021 :: 32 word) j \<longleftrightarrow> (1 \<le> j \<and> bit b (j - 1)) \<noteq> (j = 12 \<or> j = 5 \<or> j = 0)"
  unfolding bit_xor_iff bit_push_bit_iff bit_genpoly by simp

lemma bit_shift: "j < 32 \<Longrightarrow> bit (push_bit 1 b :: 32 word) j \<longleftrightarrow> 1 \<le> j \<and> bit b (j - 1)"
  unfolding bit_push_bit_iff by simp

lemma word_reg_shifted:
  assumes "\<And>j. j < 32 \<Longrightarrow> bit w j \<longleftrightarrow> (1 \<le> j \<and> bit b (j - 1)) \<noteq> (f \<and> (j = 12 \<or> j = 5 \<or> j = 0))"
  shows "word_reg w = [of_bool (bit b 14), of_bool (bit b 13), of_bool (bit b 12), of_bool (bit b 11 \<noteq> f), of_bool (bit b 10),
    of_bool (bit b 9), of_bool (bit b 8), of_bool (bit b 7), of_bool (bit b 6), of_bool (bit b 5),
    of_bool (bit b 4 \<noteq> f), of_bool (bit b 3), of_bool (bit b 2), of_bool (bit b 1), of_bool (bit b 0), of_bool f]"
  unfolding word_reg_16 by (simp add: assms)

lemma crc_step_ccitt:
  assumes "fb = (bit b 15 \<noteq> x)"
  shows "crc_step ccitt (word_reg b) (of_bool x) =
   [of_bool (bit b 14), of_bool (bit b 13), of_bool (bit b 12), of_bool (bit b 11 \<noteq> fb), of_bool (bit b 10),
    of_bool (bit b 9), of_bool (bit b 8), of_bool (bit b 7), of_bool (bit b 6), of_bool (bit b 5),
    of_bool (bit b 4 \<noteq> fb), of_bool (bit b 3), of_bool (bit b 2), of_bool (bit b 1), of_bool (bit b 0), of_bool fb]"
proof -
  have hd: "hd (word_reg b) XOR of_bool x = (1 :: u8) \<longleftrightarrow> fb"
    by (cases "bit b 15"; cases x) (simp_all add: word_reg_16 assms)
  show ?thesis
  proof (cases fb)
    case True
    then have "crc_step ccitt (word_reg b) (of_bool x) = map (\<lambda>j. ucast (ccitt ! j) XOR word_reg b ! Suc j) [0 ..< 15] @ [1]"
      using hd by (simp add: crc_step_def ucast_xor_byte)
    also have "[0 ..< 15] = [0, 1, 2, 3, 4, 5, 6, 7, 8, 9, 10, 11, 12, 13, 14 :: nat]" by (simp add: upt_rec)
    finally show ?thesis unfolding word_reg_16 ccitt_def using True
      by (cases "bit b 11"; cases "bit b 4") simp_all
  next
    case False
    then show ?thesis using hd by (simp add: crc_step_def word_reg_16)
  qed
qed

lemma crc16_bit_reg:
  "word_reg (crc16_bit (of_bool i) b (of_bool x)) = crc_step ccitt (word_reg b) (of_bool (x \<noteq> i))"
proof -
  define f where "f = (bit b 15 \<noteq> (x \<noteq> i))"
  have "bit (drop_bit 15 b + of_bool x) 0 \<longleftrightarrow> (bit b 15 \<noteq> x)"
    by (cases x) (simp_all add: bit_0 even_drop_bit_iff_not_bit)
  then have y: "bit ((drop_bit 15 b + of_bool x) XOR of_bool i) 0 \<longleftrightarrow> f"
    by (cases i) (auto simp: bit_xor_iff f_def)
  have eq: "crc16_bit (of_bool i) b (of_bool x) = (if f then push_bit 1 b XOR 0x1021 else push_bit 1 b)"
    unfolding crc16_bit_def Let_def and_1_iff y ..
  have "bit (crc16_bit (of_bool i) b (of_bool x)) j
      \<longleftrightarrow> (1 \<le> j \<and> bit b (j - 1)) \<noteq> (f \<and> (j = 12 \<or> j = 5 \<or> j = 0))" if "j < 32" for j
    using that bit_shift_genpoly [OF that, of b] bit_shift [OF that, of b] unfolding eq by (cases f) (simp_all only: if_True if_False simp_thms)
  from word_reg_shifted [OF this] crc_step_ccitt [OF f_def] show ?thesis by simp
qed

lemma word_reg_0: "word_reg b = replicate 16 0 \<longleftrightarrow> b AND 0xFFFF = 0"
proof -
  have "word_reg b = replicate 16 0 \<longleftrightarrow> (\<forall>j < 16. \<not> bit b (15 - j))"
    by (simp add: word_reg_def list_eq_iff_nth_eq)
  also have "\<dots> \<longleftrightarrow> (\<forall>j < 16. \<not> bit b j)"
  proof (intro iffI allI impI)
    fix j :: nat
    assume a: "\<forall>j < 16. \<not> bit b (15 - j)" and "j < 16"
    then show "\<not> bit b j" using a [rule_format, of "15 - j"] by simp
  qed simp
  also have "\<dots> \<longleftrightarrow> take_bit 16 b = 0"
    by (auto simp: bit_eq_iff bit_take_bit_iff)
  also have "take_bit 16 b = b AND 0xFFFF"
    by (simp add: take_bit_eq_mask mask_numeral)
  finally show ?thesis .
qed

text \<open>The bits of a byte, highest first, are the bits the byte routines use.\<close>

lemma byte_bit: "(ucast (drop_bit j x) AND 1 :: 32 word) = of_bool (bit (x :: u8) j)"
  by (rule bit_word_eqI) (auto simp: bit_simps)

lemma crc16_byte_reg:
  "word_reg (crc16_byte (of_bool i) b x) = crc_run ccitt (word_reg b) (map (\<lambda>y. y XOR of_bool i) (byte_bits x))"
proof -
  have flip: "of_bool p XOR of_bool i = (of_bool (p \<noteq> i) :: u8)" for p by (cases p; cases i) simp_all
  show ?thesis
    by (simp add: crc16_byte_def byte_bit byte_bits_8 crc16_bit_reg flip)
qed

lemma crc16_bytes_reg:
  "word_reg (foldl (crc16_byte (of_bool i)) b xs) = crc_run ccitt (word_reg b) (map (\<lambda>y. y XOR of_bool i) (bytes_bits xs))"
  by (induction xs arbitrary: b) (simp_all add: crc16_byte_reg crc_run_append)

lemma word_reg_ones: "word_reg 0xFFFF = replicate 16 1"
  by (simp add: word_reg_16 numeral_eq_Suc)

lemma crc_ok_sdc: "crc_ok sdc_crc" "crc_polynome sdc_crc = ccitt" "crc_size sdc_crc = 16"
  by (simp_all add: crc_ok_def sdc_crc_def bit_poly_def ccitt_def)

lemma crc16_bytewise_iff:
  assumes "length chk = 2"
  shows "crc16_bytewise (m @ chk) (length m + 2) = Some 0
    \<longleftrightarrow> fst (doCRC sdc_crc (bytes_bits (m @ chk)) (8 * (length m + 2)))"
proof -
  define b where "b = foldl (crc16_byte 1) (foldl (crc16_byte 0) 0xFFFF m) chk"
  have "word_reg b = crc_register sdc_crc (bytes_bits m @ map (\<lambda>y. y XOR 1) (bytes_bits chk))"
    using crc16_bytes_reg [of True "foldl (crc16_byte 0) 0xFFFF m" chk] crc16_bytes_reg [of False "0xFFFF" m]
    by (simp add: b_def crc_register_def crc_ok_sdc crc_run_append word_reg_ones)
  then have "fst (doCRC sdc_crc (bytes_bits m @ bytes_bits chk) (length (bytes_bits m) + crc_size sdc_crc))
      \<longleftrightarrow> word_reg b = replicate 16 0"
    using doCRC_register [OF crc_ok_sdc(1), of "bytes_bits chk" "bytes_bits m"] assms by (simp add: crc_ok_sdc(3))
  then show ?thesis
    using assms by (simp add: crc16_bytewise_def Let_def b_def [symmetric] word_reg_0 crc_ok_sdc(3) add.commute)
qed

text \<open>The other routine keeps the register in 16 bits and shifts the byte beside it.\<close>

lemma bit_top: "w AND 0x8000 \<noteq> 0 \<longleftrightarrow> bit (w :: 32 word) 15"
proof -
  define p :: "32 word" where "p = push_bit 15 1"
  have p: "bit p n \<longleftrightarrow> n = 15" for n unfolding p_def bit_push_bit_iff bit_1_iff by auto
  have "(0x8000 :: 32 word) = p" unfolding p_def by code_simp
  then have *: "w AND 0x8000 = w AND p" by (rule arg_cong)
  show ?thesis
  proof
    assume "w AND 0x8000 \<noteq> 0"
    then obtain n where "bit (w AND p) n" unfolding * using bit_eq_iff [of "w AND p" 0] by auto
    then show "bit w 15" by (auto simp: bit_and_iff p)
  next
    assume "bit w 15"
    then have "bit (w AND p) 15" by (simp add: bit_and_iff p)
    then show "w AND 0x8000 \<noteq> 0" unfolding * by auto
  qed
qed

lemma word_reg_mask: "word_reg (w AND 0xFFFF) = word_reg w"
proof -
  have "(0xFFFF :: 32 word) = mask 16" by (simp add: mask_numeral)
  then have "w AND 0xFFFF = take_bit 16 w" by (simp add: take_bit_eq_mask)
  then show ?thesis by (auto simp: word_reg_def bit_take_bit_iff)
qed

lemma crc_shift_reg:
  "word_reg (snd (crc_shift (data, acc))) = crc_step ccitt (word_reg acc) (of_bool (bit data 15))"
proof -
  define f where "f = (bit acc 15 \<noteq> bit data 15)"
  have eq: "snd (crc_shift (data, acc)) = (if f then push_bit 1 acc XOR 0x1021 else push_bit 1 acc) AND 0xFFFF"
    unfolding crc_shift_def bit_top f_def by (auto simp: bit_xor_iff)
  have "bit (if f then push_bit 1 acc XOR 0x1021 else push_bit 1 acc) j
      \<longleftrightarrow> (1 \<le> j \<and> bit acc (j - 1)) \<noteq> (f \<and> (j = 12 \<or> j = 5 \<or> j = 0))" if "j < 32" for j
    using bit_shift_genpoly [OF that, of acc] bit_shift [OF that, of acc]
    by (cases f) (simp_all only: if_True if_False simp_thms)
  from word_reg_shifted [OF this] crc_step_ccitt [OF f_def] show ?thesis
    by (simp add: eq word_reg_mask)
qed

lemma crc_shift_data: "j < 16 \<Longrightarrow> bit (fst (crc_shift (data, acc))) j \<longleftrightarrow> 1 \<le> j \<and> bit data (j - 1)"
proof -
  assume j: "j < 16"
  have "(0xFFFF :: 32 word) = mask 16" by (simp add: mask_numeral)
  then have "fst (crc_shift (data, acc)) = take_bit 16 (push_bit 1 data)"
    by (simp add: crc_shift_def take_bit_eq_mask)
  then show ?thesis using j bit_shift [of j data] by (simp add: bit_take_bit_iff)
qed

lemma crc_shifts_reg:
  "n \<le> 16 \<Longrightarrow> word_reg (snd ((crc_shift ^^ n) (data, acc))) =
     crc_run ccitt (word_reg acc) (map (\<lambda>j. of_bool (bit data (15 - j))) [0 ..< n])
   \<and> (\<forall>j < 16. bit (fst ((crc_shift ^^ n) (data, acc))) j \<longleftrightarrow> n \<le> j \<and> bit data (j - n))"
proof (induction n)
  case (Suc n)
  obtain d a where da: "(crc_shift ^^ n) (data, acc) = (d, a)" by (cases "(crc_shift ^^ n) (data, acc)") auto
  have IH: "word_reg a = crc_run ccitt (word_reg acc) (map (\<lambda>j. of_bool (bit data (15 - j))) [0 ..< n])"
    "\<And>j. j < 16 \<Longrightarrow> bit d j \<longleftrightarrow> n \<le> j \<and> bit data (j - n)"
    using Suc da by simp_all
  have s: "(crc_shift ^^ Suc n) (data, acc) = crc_shift (d, a)" using da by simp
  have "bit d 15 = bit data (15 - n)" using IH(2) [of 15] Suc.prems by simp
  then have "word_reg (snd (crc_shift (d, a))) = crc_run ccitt (word_reg acc) (map (\<lambda>j. of_bool (bit data (15 - j))) [0 ..< Suc n])"
    by (simp add: crc_shift_reg crc_run_append IH(1))
  moreover have "bit (fst (crc_shift (d, a))) j \<longleftrightarrow> Suc n \<le> j \<and> bit data (j - Suc n)" if "j < 16" for j
    using crc_shift_data [OF that, of d a] IH(2) [of "j - 1"] that by (cases j) auto
  ultimately show ?case unfolding s by simp
qed simp

lemma crc_add_byte_reg: "word_reg (crc_add_byte acc x) = crc_run ccitt (word_reg acc) (byte_bits x)"
proof -
  have "map (\<lambda>j. of_bool (bit (push_bit 8 (ucast x) :: 32 word) (15 - j))) [0 ..< 8] = byte_bits x"
    unfolding byte_bits_def by (rule map_cong) (auto simp: bit_push_bit_iff bit_ucast_iff)
  then show ?thesis using crc_shifts_reg [of 8 "push_bit 8 (ucast x)" acc] by (simp add: crc_add_byte_def)
qed

lemma crc_add_bytes_reg: "word_reg (foldl crc_add_byte acc xs) = crc_run ccitt (word_reg acc) (bytes_bits xs)"
  by (induction xs arbitrary: acc) (simp_all add: crc_add_byte_reg crc_run_append)

lemma word_reg_eq: "word_reg a = word_reg b \<longleftrightarrow> (a XOR b) AND 0xFFFF = 0"
proof -
  have "word_reg (a XOR b) = replicate 16 0 \<longleftrightarrow> word_reg a = word_reg b"
    by (auto simp: word_reg_def list_eq_iff_nth_eq bit_xor_iff)
  then show ?thesis by (simp add: word_reg_0)
qed

lemma crc_add_bytes_16: "foldl crc_add_byte 0xFFFF xs AND 0xFFFF = foldl crc_add_byte 0xFFFF xs"
proof (cases xs rule: rev_cases)
  case (snoc ys y)
  obtain d a where "(crc_shift ^^ 7) (push_bit 8 (ucast y), foldl crc_add_byte 0xFFFF ys) = (d, a)" by fastforce
  then have "foldl crc_add_byte 0xFFFF xs = snd (crc_shift (d, a))"
    by (simp add: snoc crc_add_byte_def eval_nat_numeral)
  then show ?thesis by (simp add: crc_shift_def)
qed simp

lemma check_crc_bytes_iff:
  "check_crc_bytes (m @ [c0, c1]) (length m) = Some True
    \<longleftrightarrow> fst (doCRC sdc_crc (bytes_bits (m @ [c0, c1])) (8 * (length m + 2)))"
proof -
  define acc where "acc = foldl crc_add_byte 0xFFFF m"
  define w where "w = NOT (push_bit 8 (ucast c0) OR ucast c1 :: 32 word) AND 0xFFFF"
  have acc: "word_reg acc = crc_register sdc_crc (bytes_bits m)"
    by (simp add: acc_def crc_add_bytes_reg word_reg_ones crc_register_def crc_ok_sdc)
  have w: "word_reg w = map (\<lambda>y. y XOR 1) (bytes_bits [c0, c1])"
  proof -
    have bw: "bit w j \<longleftrightarrow> \<not> (if j < 8 then bit c1 j else bit c0 (j - 8))" if "j < 16" for j
    proof -
      have "(0xFFFF :: 32 word) = mask 16" by (simp add: mask_numeral)
      then have "w = take_bit 16 (NOT (push_bit 8 (ucast c0) OR ucast c1))" by (simp add: w_def take_bit_eq_mask)
      then have "bit w j \<longleftrightarrow> \<not> (bit (push_bit 8 (ucast c0) :: 32 word) j \<or> bit (ucast c1 :: 32 word) j)"
        using that by (simp only: bit_take_bit_iff bit_not_iff bit_or_iff) simp
      then show ?thesis using that
        by (auto simp: bit_push_bit_iff bit_ucast_iff dest: bit_imp_le_length)
    qed
    have flip: "(of_bool p XOR 1 :: u8) = of_bool (\<not> p)" for p by (cases p) simp_all
    show ?thesis unfolding word_reg_16 bytes_bits_simps byte_bits_8 by (simp add: bw flip)
  qed
  have "(w XOR acc) AND 0xFFFF = w XOR acc"
  proof -
    have "w AND 0xFFFF = w" by (simp add: w_def and.assoc)
    moreover have "(w XOR acc) AND k = (w AND k) XOR (acc AND k)" for k
      by (rule bit_word_eqI) (auto simp: bit_xor_iff bit_and_iff)
    ultimately show ?thesis using crc_add_bytes_16 [of m] by (simp add: acc_def [symmetric])
  qed
  moreover have "check_crc_bytes (m @ [c0, c1]) (length m) = Some ((w XOR acc) = 0)"
  proof -
    have "(m @ [c0, c1]) ! length m = c0" "(m @ [c0, c1]) ! (length m + 1) = c1" "take (length m) (m @ [c0, c1]) = m"
      by (simp_all add: nth_append)
    then show ?thesis unfolding check_crc_bytes_def Let_def w_def acc_def by (simp del: bit.disj_conj_distrib de_Morgan_disj bit.de_Morgan_disj)
  qed
  ultimately have "check_crc_bytes (m @ [c0, c1]) (length m) = Some True \<longleftrightarrow> word_reg w = word_reg acc"
    by (simp add: word_reg_eq)
  also have "\<dots> \<longleftrightarrow> bytes_bits [c0, c1] = crc_bits sdc_crc (bytes_bits m)"
    unfolding w acc crc_bits_def by (metis map_xor_1_involution)
  also have "\<dots> \<longleftrightarrow> fst (doCRC sdc_crc (bytes_bits m @ bytes_bits [c0, c1]) (length (bytes_bits m) + crc_size sdc_crc))"
    using doCRC_register [OF crc_ok_sdc(1), of "bytes_bits [c0, c1]" "bytes_bits m"]
      crc_run_inverted_iff [OF crc_ok_sdc(1), of "bytes_bits [c0, c1]" "bytes_bits m"] by (simp add: crc_ok_sdc(3))
  finally show ?thesis by (simp add: crc_ok_sdc(3) add.commute)
qed

section \<open>Bytes after the check field\<close>

text \<open>
  The register is linear: the sum of two runs is the run on the sums. An accepted block followed by zeros is
  therefore not accepted again: the sum with the run that accepted it depends only on the inversions.
\<close>

lemma crc_step_xor:
  assumes "length a = length b" "a \<noteq> []" "bits a" "bits b" "is_bit x" "is_bit y"
  shows "crc_step p (map2 (XOR) a b) (x XOR y) = map2 (XOR) (crc_step p a x) (crc_step p b y)"
proof (rule nth_equalityI)
  define u v where "u = hd a XOR x" and "v = hd b XOR y"
  have b: "b \<noteq> []" and ab: "map2 (XOR) a b \<noteq> []" using assms(1,2) by (cases a; cases b; auto)+
  have hd: "hd (map2 (XOR) a b) XOR (x XOR y) = u XOR v"
    using assms(1,2) by (cases a; cases b) (auto simp: ac_simps u_def v_def)
  have f: "is_bit u" "is_bit v"
    using assms b by (cases a; cases b; auto simp: onebit u_def v_def)+
  show len: "length (crc_step p (map2 (XOR) a b) (x XOR y)) = length (map2 (XOR) (crc_step p a x) (crc_step p b y))"
    using assms(1,2) ab b by simp
  fix j assume "j < length (crc_step p (map2 (XOR) a b) (x XOR y))"
  then have j: "j < length a" using assms(1) ab by simp
  have zip: "map2 (XOR) (crc_step p a x) (crc_step p b y) ! j = crc_step p a x ! j XOR crc_step p b y ! j"
    using j assms(1,2) b by simp
  show "crc_step p (map2 (XOR) a b) (x XOR y) ! j = map2 (XOR) (crc_step p a x) (crc_step p b y) ! j"
  proof (cases "j < length a - 1")
    case True
    have "crc_step p (map2 (XOR) a b) (x XOR y) ! j
        = (if u XOR v = 1 then ucast (p ! j) XOR (a ! Suc j XOR b ! Suc j) else a ! Suc j XOR b ! Suc j)"
      using nth_crc_step [of j "map2 (XOR) a b" p "x XOR y"] True assms(1) by (simp add: hd)
    moreover have "crc_step p a x ! j = (if u = 1 then ucast (p ! j) XOR a ! Suc j else a ! Suc j)"
      "crc_step p b y ! j = (if v = 1 then ucast (p ! j) XOR b ! Suc j else b ! Suc j)"
      using nth_crc_step [of j a p x] nth_crc_step [of j b p y] True assms(1) by (simp_all add: u_def v_def)
    ultimately show ?thesis unfolding zip using f
      by (elim is_bitE) (simp_all add: xor.assoc xor.left_commute [of "ucast (p ! j)"])
  next
    case False
    then have "j = length a - 1" using j by simp
    then have "crc_step p c z ! j = (if hd c XOR z = 1 then 1 else 0)" if "length c = length a" "c \<noteq> []" for c z
      using that last_crc_step [of c p z] by (simp add: last_conv_nth crc_step_neq_Nil)
    then have "crc_step p (map2 (XOR) a b) (x XOR y) ! j = (if u XOR v = 1 then 1 else 0)"
      "crc_step p a x ! j = (if u = 1 then 1 else 0)" "crc_step p b y ! j = (if v = 1 then 1 else 0)"
      using assms(1,2) b ab hd by (simp_all add: u_def v_def)
    then show ?thesis unfolding zip using f by (elim is_bitE) simp_all
  qed
qed

lemma crc_run_xor:
  assumes "length a = length b" "a \<noteq> []" "bits a" "bits b" "length xs = length ys" "bits xs" "bits ys" "bit_poly p" "length p = length a - 1"
  shows "crc_run p (map2 (XOR) a b) (map2 (XOR) xs ys) = map2 (XOR) (crc_run p a xs) (crc_run p b ys)"
  using assms(5,1-4,6,7,9)
proof (induction xs ys arbitrary: a b rule: list_induct2)
  case (Cons x xs y ys)
  have "length (crc_step p a x) = length (crc_step p b y)" using Cons.prems by (cases b) simp_all
  moreover have "b \<noteq> []" using Cons.prems by auto
  ultimately show ?case
    using Cons.IH [of "crc_step p a x" "crc_step p b y"] Cons.prems crc_step_xor [of a b x y p] bits_crc_step assms(8)
    by (auto simp: onebit)
qed simp

lemma crc_run_zeros: "crc_run p (replicate n 0) (replicate k 0) = replicate n 0" if "0 < n"
  using that
proof (induction k)
  case (Suc k)
  have "crc_step p (replicate n 0) 0 = replicate n 0"
    using Suc.prems by (cases n) (simp_all add: crc_step_def replicate_append_same)
  then show ?case using Suc by simp
qed simp

lemma crc_differs:
  "crc_run ccitt (replicate 16 0) (replicate 8 1 @ replicate 8 0 @ replicate 8 1) \<noteq> replicate 16 0"
  "crc_run ccitt (replicate 16 0) (replicate 8 1 @ replicate 8 1 @ replicate 16 1) \<noteq> replicate 16 0"
  "crc_run ccitt (replicate 16 0) (replicate 8 1 @ replicate 8 1 @ replicate 8 0 @ replicate 16 1) \<noteq> replicate 16 0"
  by code_simp+

lemma xor_self_list: "map2 (XOR) a a = replicate (length a) (0 :: u8)"
  by (induction a) simp_all

lemma xor_flip_list: "map2 (XOR) (map (\<lambda>y. y XOR 1) a) a = replicate (length a) (1 :: u8)"
  by (induction a) (simp_all add: xor.commute [of _ 1] xor.assoc)

lemma xor_flip_list': "map2 (XOR) a (map (\<lambda>y. y XOR 1) a) = replicate (length a) (1 :: u8)"
  by (induction a) simp_all

lemma map2_append: "length a = length c \<Longrightarrow> map2 f (a @ b) (c @ d) = map2 f a c @ map2 f b d"
  by simp

lemma crc_rejects_padding:
  assumes acc: "fst (doCRC sdc_crc (bytes_bits (m @ [c0, c1])) (8 * (length m + 2)))" and k: "k \<in> {1, 2, 3}"
  shows "\<not> fst (doCRC sdc_crc (bytes_bits (m @ [c0, c1] @ replicate k 0)) (8 * (length m + 2 + k)))"
proof
  assume rej: "fst (doCRC sdc_crc (bytes_bits (m @ [c0, c1] @ replicate k 0)) (8 * (length m + 2 + k)))"
  let ?F = "map (\<lambda>y. y XOR (1 :: u8))" and ?z = "byte_bits 0"
  define A where "A = crc_register sdc_crc (bytes_bits m)"
  define w where "w = [c0, c1] @ replicate k 0"
  have A: "length A = 16" "bits A" "A \<noteq> []"
    using crc_register_facts [OF crc_ok_sdc(1), of "bytes_bits m"] by (simp_all add: A_def crc_ok_sdc)
  have p: "bit_poly ccitt" "length ccitt = 15" by (simp_all add: bit_poly_def ccitt_def)
  have z: "?z = replicate 8 0" by (simp add: byte_bits_8 numeral_eq_Suc)
  have 1: "crc_run ccitt A (?F (byte_bits c0) @ ?F (byte_bits c1) @ replicate (8 * k) 0) = replicate 16 0"
    using acc doCRC_register [OF crc_ok_sdc(1), of "bytes_bits [c0, c1]" "bytes_bits m"] crc_run_zeros [of 16 ccitt "8 * k"]
    by (simp add: crc_ok_sdc crc_register_def crc_run_append A_def add.commute)
  have lw: "bytes_bits w = bytes_bits (take k w) @ bytes_bits (drop k w)"
    unfolding bytes_bits_simps(3) [symmetric] by simp
  have "fst (doCRC sdc_crc ((bytes_bits m @ bytes_bits (take k w)) @ bytes_bits (drop k w))
      (length (bytes_bits m @ bytes_bits (take k w)) + 16))"
    using rej k lw by (auto simp: w_def add.commute add.assoc)
  then have 2: "crc_run ccitt A (bytes_bits (take k w) @ ?F (bytes_bits (drop k w))) = replicate 16 0"
    using doCRC_register [OF crc_ok_sdc(1), of "bytes_bits (drop k w)" "bytes_bits m @ bytes_bits (take k w)"]
    by (simp add: crc_ok_sdc crc_register_def crc_run_append A_def w_def)
  have sum: "crc_run ccitt (replicate 16 0) (map2 (XOR) (?F (byte_bits c0) @ ?F (byte_bits c1) @ replicate (8 * k) 0) v) = replicate 16 0"
    if "crc_run ccitt A v = replicate 16 0" "length v = 16 + 8 * k" "bits v" for v
    using crc_run_xor [of A A "?F (byte_bits c0) @ ?F (byte_bits c1) @ replicate (8 * k) 0" v ccitt] that A p 1
    by (simp add: xor_self_list onebit)
  have fz: "?F ?z = replicate 8 1" by (simp add: z)
  note lists = xor_self_list xor_flip_list xor_flip_list' z fz
  have D: "crc_run ccitt (replicate 16 0)
      (map2 (XOR) (?F (byte_bits c0) @ ?F (byte_bits c1) @ replicate (8 * k) 0) (bytes_bits (take k w) @ ?F (bytes_bits (drop k w))))
      = replicate 16 0"
    by (rule sum [OF 2]) (use k in \<open>auto simp: w_def onebit\<close>)
  consider "k = 1" | "k = 2" | "k = 3" using k by auto
  then show False
  proof cases
    case 1
    then show False using D crc_differs(1) by (simp add: w_def map2_append lists numeral_eq_Suc)
  next
    case 2
    then show False using D crc_differs(2) by (simp add: w_def map2_append lists numeral_eq_Suc)
  next
    case 3
    then show False using D crc_differs(3) by (simp add: w_def map2_append lists numeral_eq_Suc)
  qed
qed

text \<open>
  C28. The three CRC routines of the decoder agree: on a block of at least two bytes the byte routine of
  the text messages and the byte routine of the xHE-AAC decoder accept exactly when the bitwise check with
  the polynomial of the service description channel accepts the bits of the block, highest bit first.
\<close>

theorem byte_crcs_agree:
  assumes "2 \<le> length v"
  shows "(crc16_bytewise v (length v) = Some 0) = fst (doCRC sdc_crc (bytes_bits v) (8 * length v))
    \<and> (check_crc_bytes v (length v - 2) = Some True) = fst (doCRC sdc_crc (bytes_bits v) (8 * length v))"
proof -
  define m where "m = take (length v - 2) v"
  obtain c0 c1 where "drop (length v - 2) v = [c0, c1]"
    using assms by (cases "drop (length v - 2) v" rule: remdups_adj.cases)
      (auto dest: arg_cong [where f = length] split: list.splits)
  then have v: "v = m @ [c0, c1]" using append_take_drop_id [of "length v - 2" v] by (simp add: m_def)
  then have l: "length v = length m + 2" by simp
  show ?thesis
    using crc16_bytewise_iff [of "[c0, c1]" m] check_crc_bytes_iff [of m c0 c1] unfolding l by (simp add: v)
qed

theorem byte_crcs_agree_witness:
  "fst (doCRC sdc_crc (bytes_bits [0x31, 0x32, 0xC2, 0x45]) 32) \<and> check_crc_bytes [0x31, 0x32, 0xC2, 0x45] 2 = Some True"
proof -
  define v :: "u8 list" where "v = [0x31, 0x32, 0xC2, 0x45]"
  have "crc16_bytewise [0x31, 0x32, 0xC2, 0x45] 4 = Some 0" by code_simp
  moreover have "length v = 4" by (simp add: v_def)
  ultimately show ?thesis using byte_crcs_agree [of v] unfolding v_def [symmetric] by simp
qed

end
