(* ===== verification/DrmMessage.thy ===== *)
theory DrmMessage
  imports ByteCrc
begin

text \<open>
  The text messages of a DRM audio stream (\<open>data/message-processor.cpp\<close>). Every call gets four bytes, one
  bit per element; a segment starts after four bytes \<open>0xFF\<close> and has a header of two bytes, up to 16
  bytes of text and a CRC.
\<close>

section \<open>The processor\<close>

datatype message_mode = M_IDLE | M_HEADER | M_BODY | M_CRC

record message_processor =
  messageState :: message_mode
  byteCount :: nat
  byteTeller :: nat
  theMessage :: "u8 list"
  myMessage :: "u8 list"
  labels :: "u8 list list"

text \<open>
  \<open>labels\<close> are the texts passed to the main window, oldest first. The constructor sets the state only; the other
  fields have whatever value they had.
\<close>

definition new_messageProcessor :: "message_processor \<Rightarrow> message_processor" where
  "new_messageProcessor garbage = garbage\<lparr>messageState := M_IDLE, myMessage := [], labels := []\<rparr>"

definition setBit :: "u8 list \<Rightarrow> nat \<Rightarrow> u8 \<Rightarrow> u8 list" where
  "setBit v ind x = (if x = 1 then v[ind div 8 := v ! (ind div 8) OR push_bit (7 - ind mod 8) 1] else v)"

definition message_part :: "u8 list \<Rightarrow> nat \<Rightarrow> u8 list" where
  "message_part v pos = foldl (\<lambda>part i. setBit part i (v ! (pos + i))) [0, 0, 0, 0] [0 ..< 4 * 8]"

definition check_CRC :: "u8 list \<Rightarrow> nat \<Rightarrow> bool option" where
  "check_CRC v cnt = map_option (\<lambda>c. c = 0) (crc16_bytewise v cnt)"

definition addSegment :: "u8 list \<Rightarrow> nat \<Rightarrow> message_processor \<Rightarrow> message_processor" where
  "addSegment v cnt p =
     (let firstFlag = drop_bit 6 (v ! 0) AND 1;
          lastFlag = drop_bit 5 (v ! 0) AND 1;
          text0 = (if firstFlag \<noteq> 0 then [] else myMessage p);
          text1 = text0 @ take (cnt - 4) (drop 2 v);
          text2 = (if lastFlag \<noteq> 0 then text1 @ [0x3C, 0x3C, 0x3C] else text1)
      in p\<lparr>myMessage := text2, labels := labels p @ [text2]\<rparr>)"

text \<open>The loop over the bytes of a body; a write beyond the array \<open>theMessage\<close> has no result.\<close>

definition put_byte :: "u8 \<Rightarrow> message_processor \<Rightarrow> message_processor" where
  "put_byte x p = p\<lparr>theMessage := (theMessage p)[byteTeller p := x], byteTeller := byteTeller p + 1\<rparr>"

lemma put_byte_simps [simp]:
  "messageState (put_byte x p) = messageState p" "byteCount (put_byte x p) = byteCount p"
  "byteTeller (put_byte x p) = Suc (byteTeller p)" "length (theMessage (put_byte x p)) = length (theMessage p)"
  "theMessage (put_byte x p) = (theMessage p)[byteTeller p := x]"
  "myMessage (put_byte x p) = myMessage p" "labels (put_byte x p) = labels p"
  by (simp_all add: put_byte_def)

fun message_body :: "u8 list \<Rightarrow> message_processor \<Rightarrow> message_processor option" where
  "message_body [] p = Some p"
| "message_body (x # xs) p =
     (if length (theMessage p) \<le> byteTeller p then None
      else let p = put_byte x p
           in if 2 + byteCount p + 2 \<le> byteTeller p
              then do { ok \<leftarrow> check_CRC (theMessage p) (byteTeller p);
                        message_body xs ((if ok then addSegment (theMessage p) (byteTeller p) p else p)
                          \<lparr>messageState := M_IDLE\<rparr>) }
              else message_body xs p)"

definition message_header :: "u8 list \<Rightarrow> message_processor \<Rightarrow> message_processor option" where
  "message_header part p =
     (let commandFlag = drop_bit 4 (part ! 0) AND 1
      in if length (theMessage p) < 4 then None
         else Some (p\<lparr>byteCount := (if commandFlag = 0 then unat (part ! 0 AND 0xF) + 1 else 16),
                messageState := M_BODY, byteTeller := 4, theMessage := blit 0 part (theMessage p)\<rparr>))"

definition processMessage :: "u8 list \<Rightarrow> int \<Rightarrow> message_processor \<Rightarrow> message_processor option" where
  "processMessage v pos p =
     (if pos < 0 \<or> int (length v) < pos + 32 then None
      else let part = message_part v (nat pos)
           in case messageState p of
                M_IDLE \<Rightarrow> Some (if list_all (\<lambda>x. x = 0xFF) part then p\<lparr>messageState := M_HEADER\<rparr> else p)
              | M_HEADER \<Rightarrow> message_header part p
              | M_BODY \<Rightarrow> message_body part p
              | M_CRC \<Rightarrow> Some (p\<lparr>messageState := M_IDLE\<rparr>))"

section \<open>Packing the bits\<close>

lemma bit_setBit:
  assumes "ind < 8 * length v" "k < length v" "n < 8"
  shows "bit (setBit v ind x ! k) n \<longleftrightarrow> bit (v ! k) n \<or> (8 * k + (7 - n) = ind \<and> x = 1)"
proof (cases "x = 1 \<and> ind div 8 = k")
  case True
  then have eq: "setBit v ind x ! k = v ! k OR push_bit (7 - ind mod 8) 1" using assms by (simp add: setBit_def)
  have "bit (setBit v ind x ! k) n \<longleftrightarrow> bit (v ! k) n \<or> n = 7 - ind mod 8"
    unfolding eq bit_or_iff bit_push_bit_iff bit_1_iff using assms(3) by auto
  moreover have "n = 7 - ind mod 8 \<longleftrightarrow> 8 * k + (7 - n) = ind"
  proof -
    define r where "r = ind mod 8"
    have "ind = 8 * k + r" "r < 8" using True by (auto simp: r_def)
    then show ?thesis using assms(3) unfolding r_def [symmetric] by auto
  qed
  ultimately show ?thesis using True by simp
next
  case False
  then have "setBit v ind x ! k = v ! k" by (auto simp: setBit_def)
  moreover have "x \<noteq> 1 \<or> 8 * k + (7 - n) \<noteq> ind" using False assms(3) by auto
  ultimately show ?thesis by auto
qed

lemma length_setBit [length_simps, simp]: "length (setBit v ind x) = length v"
  by (simp add: setBit_def)

lemma bits_packed:
  assumes "m \<le> 8 * length z"
  shows "length (foldl (\<lambda>part i. setBit part i (w i)) z [0 ..< m]) = length z
    \<and> (\<forall>k < length z. \<forall>n < 8. bit (foldl (\<lambda>part i. setBit part i (w i)) z [0 ..< m] ! k) n
         \<longleftrightarrow> bit (z ! k) n \<or> (8 * k + (7 - n) < m \<and> w (8 * k + (7 - n)) = 1))"
  using assms by (induction m) (auto simp: bit_setBit less_Suc_eq)

lemma nth_bytes_bits:
  "k < length bs \<Longrightarrow> j < 8 \<Longrightarrow> bytes_bits bs ! (8 * k + j) = of_bool (bit (bs ! k) (7 - j))"
proof (induction bs arbitrary: k)
  case (Cons b bs)
  then show ?case by (cases k) (simp_all add: nth_append byte_bits_def)
qed simp

lemma message_part_bytes:
  assumes "length bs = 4" "take 32 (drop pos v) = bytes_bits bs"
  shows "message_part v pos = bs"
proof (rule nth_equalityI)
  have len: "length (message_part v pos) = 4"
    using bits_packed [of "4 * 8" "[0, 0, 0, 0]" "\<lambda>i. v ! (pos + i)"] by (simp add: message_part_def)
  then show "length (message_part v pos) = length bs" using assms(1) by simp
  fix k assume "k < length (message_part v pos)"
  then have k: "k < 4" using len by simp
  show "message_part v pos ! k = bs ! k"
  proof (rule bit_word_eqI)
    fix n assume "n < LENGTH(8)"
    then have n: "n < 8" by simp
    have i: "8 * k + (7 - n) < 32" using k n by simp
    have lv: "pos + 32 \<le> length v"
      using arg_cong [OF assms(2), of length] assms(1) by (simp split: if_splits)
    have "v ! (pos + (8 * k + (7 - n))) = take 32 (drop pos v) ! (8 * k + (7 - n))" using i lv by simp
    also have "\<dots> = of_bool (bit (bs ! k) n)"
      unfolding assms(2) using nth_bytes_bits [of k bs "7 - n"] k n assms(1) by simp
    finally have "v ! (pos + (8 * k + (7 - n))) = 1 \<longleftrightarrow> bit (bs ! k) n" by simp
    moreover have "bit ([0, 0, 0, 0 :: u8] ! k) n = False" using k by (auto simp: less_Suc_eq numeral_eq_Suc)
    ultimately show "bit (message_part v pos ! k) n = bit (bs ! k) n"
      using bits_packed [of "4 * 8" "[0, 0, 0, 0]" "\<lambda>i. v ! (pos + i)"] k n i by (simp add: message_part_def)
  qed
qed

section \<open>Calls in sequence\<close>

text \<open>The calls for the audio frames that follow each other, each with its own data and position.\<close>

fun message_feed :: "(u8 list \<times> int) list \<Rightarrow> message_processor \<Rightarrow> message_processor option" where
  "message_feed [] p = Some p"
| "message_feed ((v, pos) # vs) p = do { p \<leftarrow> processMessage v pos p; message_feed vs p }"

definition carries_piece :: "u8 list \<times> int \<Rightarrow> u8 list \<Rightarrow> bool" where
  "carries_piece c bs = (0 \<le> snd c \<and> length bs = 4 \<and> take 32 (drop (nat (snd c)) (fst c)) = bytes_bits bs)"

lemma processMessage_piece:
  assumes "carries_piece (v, pos) part"
  shows "processMessage v pos p =
    (case messageState p of
       M_IDLE \<Rightarrow> Some (if list_all (\<lambda>x. x = 0xFF) part then p\<lparr>messageState := M_HEADER\<rparr> else p)
     | M_HEADER \<Rightarrow> message_header part p
     | M_BODY \<Rightarrow> message_body part p
     | M_CRC \<Rightarrow> Some (p\<lparr>messageState := M_IDLE\<rparr>))"
proof -
  have a: "length part = 4" "take 32 (drop (nat pos) v) = bytes_bits part" "0 \<le> pos"
    using assms by (simp_all add: carries_piece_def)
  have "nat pos + 32 \<le> length v"
    using arg_cong [OF a(2), of length] a(1) by (simp split: if_splits)
  then have "\<not> (pos < 0 \<or> int (length v) < pos + 32)" using a(3) by linarith
  then show ?thesis unfolding processMessage_def Let_def message_part_bytes [OF a(1,2)] by (simp only: if_False)
qed

section \<open>No write beyond the buffer\<close>

definition message_ok :: "message_processor \<Rightarrow> bool" where
  "message_ok p = (length (theMessage p) = 24 \<and>
     (messageState p = M_BODY \<longrightarrow> 4 \<le> byteTeller p \<and> byteTeller p < byteCount p + 4 \<and> byteCount p \<le> 16))"

lemma crc16_defined: "2 \<le> n \<Longrightarrow> n \<le> length v \<Longrightarrow> crc16_bytewise v n \<noteq> None"
  by (simp add: crc16_bytewise_def Let_def)

lemma message_body_ok:
  "length (theMessage p) = 24 \<Longrightarrow> byteTeller p + length xs \<le> 24 \<Longrightarrow> byteCount p \<le> 16 \<Longrightarrow>
   (messageState p = M_BODY \<Longrightarrow> byteTeller p < byteCount p + 4) \<Longrightarrow> 4 \<le> byteTeller p \<Longrightarrow>
   \<exists>q. message_body xs p = Some q \<and> message_ok q"
proof (induction xs arbitrary: p)
  case Nil
  then show ?case by (auto simp: message_ok_def)
next
  case (Cons x xs)
  define p1 where "p1 = put_byte x p"
  have p1: "length (theMessage p1) = 24" "byteTeller p1 + length xs \<le> 24" "byteCount p1 \<le> 16" "4 \<le> byteTeller p1"
    using Cons.prems by (simp_all add: p1_def)
  have step: "message_body (x # xs) p = (if 2 + byteCount p1 + 2 \<le> byteTeller p1
      then do { ok \<leftarrow> check_CRC (theMessage p1) (byteTeller p1);
                message_body xs ((if ok then addSegment (theMessage p1) (byteTeller p1) p1 else p1)\<lparr>messageState := M_IDLE\<rparr>) }
      else message_body xs p1)"
    using Cons.prems unfolding message_body.simps Let_def p1_def [symmetric] by simp
  show ?case
  proof (cases "2 + byteCount p1 + 2 \<le> byteTeller p1")
    case True
    obtain c where "crc16_bytewise (theMessage p1) (byteTeller p1) = Some c"
      using crc16_defined [of "byteTeller p1" "theMessage p1"] p1 by auto
    moreover have "\<exists>q. message_body xs ((if ok then addSegment (theMessage p1) (byteTeller p1) p1 else p1)\<lparr>messageState := M_IDLE\<rparr>) = Some q
        \<and> message_ok q" for ok
      by (rule Cons.IH) (use p1 in \<open>simp_all add: addSegment_def Let_def\<close>)
    ultimately show ?thesis using True by (simp add: step check_CRC_def del: message_body.simps)
  next
    case False
    then show ?thesis using Cons.IH [of p1] p1 by (simp add: step del: message_body.simps)
  qed
qed

lemma message_header_ok:
  assumes "length part = 4" "length (theMessage p) = 24"
  shows "\<exists>q. message_header part p = Some q \<and> message_ok q"
proof -
  have "unat (part ! 0 AND 0xF) \<le> 15"
  proof -
    have "part ! 0 AND 0xF \<le> 0xF" by (rule word_and_le1)
    then show ?thesis by (simp add: word_le_nat_alt)
  qed
  then show ?thesis using assms by (auto simp: message_header_def Let_def message_ok_def)
qed

text \<open>
  C29. Whatever bytes the calls carry, the processor of the text messages returns, never writes beyond its
  buffer of 24 bytes nor reads outside it, and keeps its invariant: in the middle of a body the count
  of received bytes is below the length of the segment, which is at most 20 bytes. The calls only have
  to be given positions inside the data.
\<close>

theorem message_never_overruns:
  assumes "length (theMessage p) = 24" "list_all (\<lambda>(v, pos). 0 \<le> pos \<and> pos + 32 \<le> int (length v)) vs"
  shows "\<exists>q. message_feed vs (new_messageProcessor p) = Some q \<and> message_ok q"
proof -
  have step: "\<exists>q. processMessage v pos p = Some q \<and> message_ok q"
    if ok: "message_ok p" and "0 \<le> pos" "pos + 32 \<le> int (length v)" for p v pos
  proof -
    define part where "part = message_part v (nat pos)"
    have len: "length part = 4"
      using bits_packed [of "4 * 8" "[0, 0, 0, 0]" "\<lambda>i. v ! (nat pos + i)"] by (simp add: part_def message_part_def)
    show ?thesis
      using that len message_header_ok [of part p] message_body_ok [of p part]
      by (cases "messageState p") (auto simp: processMessage_def Let_def part_def [symmetric] message_ok_def)
  qed
  have "\<exists>q. message_feed vs p = Some q \<and> message_ok q" if "message_ok p" for p
    using assms(2) that
  proof (induction vs arbitrary: p)
    case (Cons c vs)
    obtain v pos where c: "c = (v, pos)" by fastforce
    with Cons.prems obtain q where "processMessage v pos p = Some q" "message_ok q"
      using step [of p pos v] by auto
    then show ?case using Cons c by simp
  qed simp
  then show ?thesis using assms(1) by (simp add: message_ok_def new_messageProcessor_def)
qed

theorem message_never_overruns_witness:
  "\<exists>q. message_feed (replicate 9 (replicate 32 1, 0)) (new_messageProcessor
     \<lparr>messageState = M_CRC, byteCount = 99, byteTeller = 77, theMessage = replicate 24 5, myMessage = [], labels = []\<rparr>) = Some q
   \<and> message_ok q"
  by (rule message_never_overruns) (simp_all add: list_all_iff)

section \<open>A segment\<close>

lemma message_body_append:
  "message_body (xs @ ys) p = do { p \<leftarrow> message_body xs p; message_body ys p }"
proof (induction xs arbitrary: p)
  case (Cons x xs)
  show ?case by (simp add: Cons Let_def)
qed simp

definition store :: "u8 list \<Rightarrow> message_processor \<Rightarrow> message_processor" where
  "store xs p = foldl (\<lambda>p x. put_byte x p) p xs"

lemma store_simps [simp]:
  "store [] p = p" "store (x # xs) p = store xs (put_byte x p)"
  by (simp_all add: store_def)

lemma store_facts [simp]:
  "messageState (store xs p) = messageState p" "byteCount (store xs p) = byteCount p"
  "byteTeller (store xs p) = byteTeller p + length xs" "length (theMessage (store xs p)) = length (theMessage p)"
  "myMessage (store xs p) = myMessage p" "labels (store xs p) = labels p"
  by (induction xs arbitrary: p) simp_all

lemma store_message:
  "byteTeller p + length xs \<le> length (theMessage p) \<Longrightarrow>
   take (byteTeller p + length xs) (theMessage (store xs p)) = take (byteTeller p) (theMessage p) @ xs"
proof (induction xs arbitrary: p)
  case (Cons x xs)
  then have "take (byteTeller p + length (x # xs)) (theMessage (store (x # xs) p))
      = take (Suc (byteTeller p)) ((theMessage p)[byteTeller p := x]) @ xs"
    using Cons.IH [of "put_byte x p"] by simp
  then show ?case using Cons.prems by (simp add: take_Suc_conv_app_nth)
qed simp

lemma message_body_store:
  "byteTeller p + length xs < byteCount p + 4 \<Longrightarrow> byteTeller p + length xs \<le> length (theMessage p) \<Longrightarrow>
   message_body xs p = Some (store xs p)"
  by (induction xs arbitrary: p) (simp_all add: Let_def)

lemma crc16_take:
  assumes "2 \<le> n" "n \<le> length v"
  shows "crc16_bytewise v n = crc16_bytewise (take n v) n"
proof -
  have "take 2 (drop (n - 2) (take n v)) = take 2 (drop (n - 2) v)"
    using assms by (simp add: drop_take)
  then show ?thesis using assms by (simp add: crc16_bytewise_def min_def)
qed

definition crc_accepted :: "u8 list \<Rightarrow> bool" where
  "crc_accepted v = fst (doCRC sdc_crc (bytes_bits v) (8 * length v))"

lemma check_CRC_iff:
  assumes "2 \<le> n" "n \<le> length v"
  shows "check_CRC v n = Some (crc_accepted (take n v))"
proof -
  define m chk where "m = take (n - 2) v" and "chk = drop (n - 2) (take n v)"
  have "take n v = m @ chk"
    using append_take_drop_id [of "n - 2" "take n v"] by (simp add: m_def chk_def min_def)
  moreover have "length chk = 2" "n = length m + 2" using assms by (auto simp: m_def chk_def)
  ultimately have split: "take n v = m @ chk" "length chk = 2" "n = length m + 2" .
  obtain c where "crc16_bytewise (take n v) n = Some c" using crc16_defined [of n "take n v"] assms by auto
  moreover have "crc16_bytewise (take n v) n = Some 0 \<longleftrightarrow> crc_accepted (take n v)"
    using crc16_bytewise_iff [OF split(2), of m] split by (simp add: crc_accepted_def)
  ultimately show ?thesis using crc16_take [OF assms] by (auto simp: check_CRC_def)
qed

lemma crc_accepted_padded:
  assumes "crc_accepted seg" "2 \<le> length seg" "0 < k" "k \<le> 3"
  shows "\<not> crc_accepted (seg @ replicate k 0)"
proof -
  define m where "m = take (length seg - 2) seg"
  obtain c0 c1 where "drop (length seg - 2) seg = [c0, c1]"
    using assms(2) by (cases "drop (length seg - 2) seg" rule: remdups_adj.cases)
      (auto dest: arg_cong [where f = length] split: list.splits)
  then have seg: "seg = m @ [c0, c1]" using append_take_drop_id [of "length seg - 2" seg] by (simp add: m_def)
  have "k \<in> {1, 2, 3}" using assms(3,4) by auto
  then show ?thesis using crc_rejects_padding [of m c0 c1 k] assms(1)
    by (simp add: crc_accepted_def seg add.commute add.left_commute)
qed

text \<open>The zeros that fill the last piece are checked too, and are never accepted.\<close>

lemma message_body_padding:
  assumes "crc_accepted seg" "2 \<le> length seg"
  shows "i + k \<le> 3 \<Longrightarrow> byteTeller p = length seg + i \<Longrightarrow> take (byteTeller p) (theMessage p) = seg @ replicate i 0 \<Longrightarrow>
    byteTeller p + k \<le> length (theMessage p) \<Longrightarrow> byteCount p + 4 \<le> byteTeller p \<Longrightarrow> messageState p = M_IDLE \<Longrightarrow>
    \<exists>q. message_body (replicate k 0) p = Some q \<and> messageState q = M_IDLE \<and> myMessage q = myMessage p
      \<and> labels q = labels p \<and> length (theMessage q) = length (theMessage p)"
proof (induction k arbitrary: i p)
  case (Suc k)
  define p1 where "p1 = put_byte 0 p"
  have t: "take (byteTeller p1) (theMessage p1) = seg @ replicate (Suc i) 0"
    using store_message [of p "[0]"] Suc.prems by (simp add: p1_def replicate_append_same [symmetric])
  have "check_CRC (theMessage p1) (byteTeller p1) = Some False"
    using check_CRC_iff [of "byteTeller p1" "theMessage p1"] crc_accepted_padded [OF assms, of "Suc i"] Suc.prems assms(2)
    unfolding t by (simp add: p1_def)
  then have "message_body (replicate (Suc k) 0) p = message_body (replicate k 0) (p1\<lparr>messageState := M_IDLE\<rparr>)"
    using Suc.prems by (simp add: p1_def Let_def)
  moreover have "\<exists>q. message_body (replicate k 0) (p1\<lparr>messageState := M_IDLE\<rparr>) = Some q \<and> messageState q = M_IDLE
      \<and> myMessage q = myMessage (p1\<lparr>messageState := M_IDLE\<rparr>) \<and> labels q = labels (p1\<lparr>messageState := M_IDLE\<rparr>)
      \<and> length (theMessage q) = length (theMessage (p1\<lparr>messageState := M_IDLE\<rparr>))"
    by (rule Suc.IH [of "Suc i"]) (use Suc.prems t in \<open>simp_all add: p1_def\<close>)
  ultimately show ?case by (simp add: p1_def)
qed simp

text \<open>The pieces of a body, one call for each, are one run of the loop as long as the body is not complete.\<close>

lemma feed_body:
  assumes "list_all2 carries_piece vs cs" "cs \<noteq> []" "messageState p = M_BODY"
    "byteTeller p + 4 * (length cs - 1) < byteCount p + 4" "byteTeller p + 4 * length cs \<le> length (theMessage p)"
  shows "message_feed vs p = message_body (concat cs) p"
  using assms
proof (induction vs cs arbitrary: p rule: list_all2_induct)
  case (Cons c vs x cs)
  obtain v pos where c: "c = (v, pos)" by fastforce
  have x: "length x = 4" using Cons.hyps(1) by (simp add: carries_piece_def)
  have first: "message_feed (c # vs) p = do { p \<leftarrow> message_body x p; message_feed vs p }"
    using processMessage_piece [of v pos x p] Cons.hyps(1) Cons.prems(2) by (simp add: c)
  show ?case
  proof (cases "cs = []")
    case True
    then show ?thesis using Cons.hyps(2) first by simp
  next
    case False
    then have m: "message_body x p = Some (store x p)"
      using message_body_store [of p x] x Cons.prems by (cases cs) simp_all
    have "message_feed vs (store x p) = message_body (concat cs) (store x p)"
      by (rule Cons.IH) (use False x Cons.prems in \<open>cases cs; simp\<close>)+
    then show ?thesis by (simp add: first m message_body_append)
  qed
qed simp

lemma addSegment_text:
  assumes "take (n + 4) v = seg" "length seg = n + 4"
  shows "addSegment v (n + 4) p =
    (let txt' = (if bit (seg ! 0) 6 then [] else myMessage p) @ take n (drop 2 seg)
        @ (if bit (seg ! 0) 5 then [0x3C, 0x3C, 0x3C] else [])
     in p\<lparr>myMessage := txt', labels := labels p @ [txt']\<rparr>)"
proof -
  have "v ! 0 = seg ! 0" unfolding assms(1) [symmetric] by simp
  moreover have "take n (drop 2 v) = take n (drop 2 seg)"
    unfolding assms(1) [symmetric] by (simp add: drop_take min_def)
  moreover have "drop_bit k x AND 1 \<noteq> 0 \<longleftrightarrow> bit (x :: u8) k" for k x
    by (simp add: and_one_eq bit_iff_odd_drop_bit odd_iff_mod_2_eq_one)
  ultimately show ?thesis by (simp add: addSegment_def Let_def)
qed

text \<open>
  C18. A text segment, sent as four bytes \<open>0xFF\<close> and then in pieces of four bytes, the last one filled with
  zeros, is received by an idle processor exactly once: for every length from 1 to 16 the text of an accepted
  segment is appended to the message (or starts a new one, when the segment says it is the first) and shown
  with the end mark when it is the last, and the processor is idle again, so that segments can follow each
  other.
\<close>

theorem message_segment:
  assumes idle: "messageState p = M_IDLE" "length (theMessage p) = 24"
    and seg: "length seg = n + 4" "\<not> bit (seg ! 0) 4" "unat (seg ! 0 AND 0xF) + 1 = n"
    and acc: "fst (doCRC sdc_crc (bytes_bits seg) (8 * length seg))"
    and sent: "list_all2 carries_piece vs ([0xFF, 0xFF, 0xFF, 0xFF] # cs)" "concat cs = seg @ replicate pad 0" "pad < 4"
  shows "\<exists>q. message_feed vs p = Some q \<and> messageState q = M_IDLE \<and> length (theMessage q) = 24
    \<and> myMessage q = (if bit (seg ! 0) 6 then [] else myMessage p) @ take n (drop 2 seg)
         @ (if bit (seg ! 0) 5 then [0x3C, 0x3C, 0x3C] else [])
    \<and> labels q = labels p @ [myMessage q]"
proof -
  obtain s v pos vs' part cs' where vs: "vs = s # (v, pos) # vs'" "cs = part # cs'"
    and carried: "carries_piece s [0xFF, 0xFF, 0xFF, 0xFF]" "carries_piece (v, pos) part" "list_all2 carries_piece vs' cs'"
    using sent(1,2) seg(1) by (cases cs) (auto simp: list_all2_Cons2)
  have lens: "length part = 4" "\<forall>c \<in> set cs'. length c = 4"
    using carried by (auto simp: carries_piece_def list_all2_conv_all_nth in_set_conv_nth)
  have n: "1 \<le> n" "n \<le> 16"
  proof -
    have "seg ! 0 AND 0xF \<le> 0xF" by (rule word_and_le1)
    then show "1 \<le> n" "n \<le> 16" using seg(3) by (simp_all add: word_le_nat_alt)
  qed
  have total: "4 + 4 * length cs' = n + 4 + pad"
  proof -
    have "length (concat cs') = 4 * length cs'" using lens(2) by (induction cs') simp_all
    then show ?thesis using arg_cong [OF sent(2), of length] lens(1) seg(1) by (simp add: vs(2))
  qed
  have bound: "n + 4 + pad \<le> 20" using total n(2) sent(3) by presburger
  have part: "part = take 4 seg" "concat cs' = drop 4 seg @ replicate pad 0"
    using sent(2) lens(1) seg(1) n by (simp_all add: vs(2) append_eq_conv_conj)
  obtain q1 where q1: "message_header part p = Some q1" "messageState q1 = M_BODY" "byteTeller q1 = 4" "byteCount q1 = n"
    "take 4 (theMessage q1) = part" "length (theMessage q1) = 24" "myMessage q1 = myMessage p" "labels q1 = labels p"
  proof
    have "drop_bit 4 (part ! 0) AND 1 = 0"
      using seg(2) by (simp add: part(1) and_one_eq bit_iff_odd_drop_bit even_iff_mod_2_eq_zero)
    moreover have "part ! 0 = seg ! 0" by (simp add: part(1))
    ultimately show "message_header part p = Some (p\<lparr>byteCount := n, messageState := M_BODY, byteTeller := 4, theMessage := blit 0 part (theMessage p)\<rparr>)"
      using idle(2) seg(3) by (simp add: message_header_def)
  qed (use lens(1) idle in \<open>simp_all add: blit_def\<close>)
  have feed: "message_feed vs p = message_body (concat cs') q1"
  proof -
    obtain v0 pos0 where s: "s = (v0, pos0)" by fastforce
    have "message_header part (p\<lparr>messageState := M_HEADER\<rparr>) = message_header part p"
      by (simp add: message_header_def Let_def)
    with q1(1) have "processMessage v pos (p\<lparr>messageState := M_HEADER\<rparr>) = Some q1"
      using processMessage_piece [OF carried(2), of "p\<lparr>messageState := M_HEADER\<rparr>"] by simp
    moreover have "processMessage v0 pos0 p = Some (p\<lparr>messageState := M_HEADER\<rparr>)"
      using processMessage_piece [OF carried(1) [unfolded s], of p] idle(1) by simp
    ultimately have "message_feed vs p = message_feed vs' q1" by (simp add: vs(1) s)
    also have "\<dots> = message_body (concat cs') q1"
      using feed_body [OF carried(3), of q1] total n sent(3) bound q1 by (cases "cs' = []") (auto simp: Suc_le_eq)
    finally show ?thesis .
  qed
  define xs x where "xs = take (n - 1) (drop 4 seg)" and "x = last seg"
  have split: "drop 4 seg = xs @ [x]" "length xs + 1 = n"
  proof -
    have "drop 4 seg \<noteq> []" using seg(1) n by simp
    then show "drop 4 seg = xs @ [x]" using append_butlast_last_id [of "drop 4 seg"] seg(1) by (simp add: xs_def x_def butlast_conv_take last_drop)
    show "length xs + 1 = n" using seg(1) n by (simp add: xs_def)
  qed
  define q2 where "q2 = put_byte x (store xs q1)"
  have q2: "take (n + 4) (theMessage q2) = seg" "byteTeller q2 = n + 4" "byteCount q2 = n" "length (theMessage q2) = 24"
    "myMessage q2 = myMessage p" "labels q2 = labels p"
  proof -
    have "store (xs @ [x]) q1 = q2" by (simp add: store_def q2_def)
    have "take (byteTeller q1 + length (xs @ [x])) (theMessage q2) = part @ xs @ [x]"
    proof -
      have "byteTeller q1 + length (xs @ [x]) \<le> length (theMessage q1)" using q1 split(2) n by simp
      from store_message [OF this] show ?thesis by (simp only: \<open>store (xs @ [x]) q1 = q2\<close> q1(3,5))
    qed
    moreover have "byteTeller q1 + length (xs @ [x]) = n + 4" using q1(3) split(2) by simp
    ultimately have "take (n + 4) (theMessage q2) = part @ xs @ [x]" by (simp only:)
    then show "take (n + 4) (theMessage q2) = seg"
      using split part(1) append_take_drop_id [of 4 seg] by (simp add: add.commute [of n])
  qed (use q1 split(2) in \<open>simp_all add: q2_def\<close>)
  have acc': "crc_accepted seg" using acc by (simp add: crc_accepted_def)
  define q3 where "q3 = (addSegment (theMessage q2) (n + 4) q2)\<lparr>messageState := M_IDLE\<rparr>"
  have "message_body (concat cs') q1 = message_body (replicate pad 0) q3"
  proof -
    have "message_body xs q1 = Some (store xs q1)"
      by (rule message_body_store) (use q1 split(2) n in simp_all)
    moreover have "check_CRC (theMessage q2) (n + 4) = Some True"
      using check_CRC_iff [of "n + 4" "theMessage q2"] q2 acc' n by simp
    moreover have "message_body (x # ys) (store xs q1) = do { ok \<leftarrow> check_CRC (theMessage q2) (byteTeller q2);
        message_body ys ((if ok then addSegment (theMessage q2) (byteTeller q2) q2 else q2)\<lparr>messageState := M_IDLE\<rparr>) }" for ys
    proof -
      have "\<not> length (theMessage (store xs q1)) \<le> byteTeller (store xs q1)" "2 + byteCount q2 + 2 \<le> byteTeller q2"
        using q1 q2 split(2) n by simp_all
      then show ?thesis unfolding message_body.simps Let_def q2_def [symmetric] by (simp only: if_False if_True)
    qed
    ultimately show ?thesis by (simp add: part(2) split(1) message_body_append q2(2) q3_def del: message_body.simps)
  qed
  moreover have "\<exists>q. message_body (replicate pad 0) q3 = Some q \<and> messageState q = M_IDLE \<and> myMessage q = myMessage q3
      \<and> labels q = labels q3 \<and> length (theMessage q) = length (theMessage q3)"
    by (rule message_body_padding [OF acc', of 0]) (use q2 sent(3) bound seg(1) in \<open>simp_all add: q3_def addSegment_def Let_def\<close>)
  ultimately show ?thesis
    using feed q2 addSegment_text [OF q2(1) seg(1), of q2] by (auto simp: q3_def Let_def)
qed

lemma carries_self: "length bs = 4 \<Longrightarrow> carries_piece (bytes_bits bs, 0) bs"
  by (simp add: carries_piece_def)

theorem message_segment_witness:
  "\<exists>q. message_feed (map (\<lambda>bs. (bytes_bits bs, 0)) [[0xFF, 0xFF, 0xFF, 0xFF], [0x61, 0, 0x48, 0x69], [0x2D, 0xB3, 0, 0]])
       \<lparr>messageState = M_IDLE, byteCount = 0, byteTeller = 0, theMessage = replicate 24 0, myMessage = [0x3F], labels = []\<rparr> = Some q
     \<and> messageState q = M_IDLE \<and> length (theMessage q) = 24 \<and> myMessage q = [0x48, 0x69, 0x3C, 0x3C, 0x3C]
     \<and> labels q = [myMessage q]"
proof -
  let ?p = "\<lparr>messageState = M_IDLE, byteCount = 0, byteTeller = 0, theMessage = replicate 24 (0 :: u8), myMessage = [0x3F], labels = []\<rparr>"
  let ?seg = "[0x61, 0, 0x48, 0x69, 0x2D, 0xB3] :: u8 list"
  have b: "bit (?seg ! 0) 6" "bit (?seg ! 0) 5" "\<not> bit (?seg ! 0) 4" "unat (?seg ! 0 AND 0xF) + 1 = 2"
    by code_simp+
  have acc: "fst (doCRC sdc_crc (bytes_bits ?seg) (8 * length ?seg))" by code_simp
  have sent: "list_all2 carries_piece (map (\<lambda>bs. (bytes_bits bs, 0)) [[0xFF, 0xFF, 0xFF, 0xFF], [0x61, 0, 0x48, 0x69], [0x2D, 0xB3, 0, 0]])
      ([0xFF, 0xFF, 0xFF, 0xFF] # [[0x61, 0, 0x48, 0x69], [0x2D, 0xB3, 0, 0]])"
    by (simp add: carries_self del: bytes_bits_simps)
  from message_segment [OF _ _ _ b(3,4) acc sent, of ?p 2] b(1,2) show ?thesis by (simp add: numeral_2_eq_2)
qed

end
