(* ===== verification/DrmXheaac.thy ===== *)
theory DrmXheaac
  imports DrmMessage
begin

text \<open>
  The xHE-AAC audio of a DRM stream (\<open>data/xheaac-processor.cpp\<close>): every call gets one audio super frame, a
  header, bytes of audio and a directory of the borders between the access units, whose last part continues
  in the next super frame. The AAC library is a parameter.
\<close>

section \<open>The AAC library\<close>

text \<open>
  A decoded frame: the number of channels, of samples per channel, the rate, and the library's buffer, which
  holds the samples of the channels in turn. \<open>decode_unit\<close> is a fill of the library's input followed by a decoding
  of one frame; its second argument asks the library to recover from an interruption.
\<close>

record pcm =
  numChannels :: nat
  frameSize :: nat
  sampleRate :: int
  localBuffer :: "int list"

record 'h aac_decoder =
  null_handle :: "'h \<Rightarrow> bool"
  configure_raw :: "'h \<Rightarrow> u8 list \<Rightarrow> 'h"
  decode_unit :: "'h \<Rightarrow> bool \<Rightarrow> u8 list \<Rightarrow> 'h \<times> pcm option"

section \<open>Shared with the AAC processor\<close>

definition get_MSCBits :: "u8 list \<Rightarrow> int \<Rightarrow> nat \<Rightarrow> nat option" where
  "get_MSCBits v offset nr =
     (if to_int16 offset < 0 then None else get_SDCBits v (nat (to_int16 offset)) nr)"

definition stream_at :: "stateDescriptor \<Rightarrow> nat \<Rightarrow> stream_desc option" where
  "stream_at st i = (if i < length (streams st) then Some (streams st ! i) else None)"

definition audio_bytes :: "stream_desc \<Rightarrow> u8 list" where
  "audio_bytes s =
     [push_bit 6 (of_nat (audioCoding s)) OR push_bit 5 (of_nat (SBR_flag s)) OR push_bit 3 (of_nat (audioMode s))
        OR of_nat (audioSamplingRate s),
      push_bit 7 (of_nat (textFlag s)) OR push_bit 6 (of_nat (enhancementFlag s)) OR push_bit 1 (of_nat (coderField s))]"

definition getAudioInformation :: "stream_desc \<Rightarrow> u8 list" where
  "getAudioInformation s = audio_bytes s @ map of_nat (xHE_AAC s)"

text \<open>
  A new configuration is passed on when it differs from the current one; without a library handle nothing happens.
\<close>

definition reinit :: "'h aac_decoder \<Rightarrow> u8 list \<Rightarrow> u8 list \<times> 'h \<Rightarrow> u8 list \<times> 'h" where
  "reinit D newConfig = (\<lambda>(currentConfig, handle).
     if null_handle D handle then (currentConfig, handle)
     else if length currentConfig \<noteq> length newConfig then (newConfig, configure_raw D handle newConfig)
     else if list_ex (\<lambda>i. currentConfig ! i \<noteq> newConfig ! i) [0 ..< length newConfig]
          then (newConfig, configure_raw D handle newConfig)
     else (currentConfig, handle))"

text \<open>The copy of \<open>n\<close> samples, left and right from the given places of the library's buffer.\<close>

definition copy_samples :: "(nat \<Rightarrow> nat) \<Rightarrow> (nat \<Rightarrow> nat) \<Rightarrow> nat \<Rightarrow> int list \<Rightarrow> int list \<Rightarrow> int list" where
  "copy_samples l r n local out =
     foldl (\<lambda>b i. b[2 * i := local ! l i, 2 * i + 1 := local ! r i]) out [0 ..< n]"

section \<open>The processor\<close>

record 'h xheaac =
  frameBuffer :: "u8 list"
  borders :: "nat list"
  x_config :: "u8 list"
  x_handle :: 'h
  x_messages :: message_processor
  x_convOK :: bool
  good :: nat
  fout :: nat
  x_outBuffer :: "int list"
  x_faad :: "bool list"
  x_units :: "u8 list list"
  x_written :: "(int list \<times> nat \<times> int) list"

text \<open>
  The last three are what leaves the processor, oldest first: the signals \<open>faadSuccess\<close>, the access units handed
  to the library, and the buffers handed to the rate converter with their length and rate.
\<close>

definition xheaac_signal :: "bool \<Rightarrow> 'h xheaac \<Rightarrow> 'h xheaac" where
  "xheaac_signal b p = p\<lparr>x_faad := x_faad p @ [b]\<rparr>"

definition xheaac_decodeFrame :: "'h aac_decoder \<Rightarrow> u8 list \<Rightarrow> 'h xheaac \<Rightarrow> (nat \<times> int) \<times> 'h xheaac" where
  "xheaac_decodeFrame D audioFrame p =
     (let (h, result) = decode_unit D (x_handle p) (\<not> x_convOK p) audioFrame;
          p = p\<lparr>x_handle := h, x_units := x_units p @ [audioFrame]\<rparr>
      in case result of
           None \<Rightarrow> ((0, 0), xheaac_signal False (p\<lparr>x_convOK := False\<rparr>))
         | Some r \<Rightarrow>
             ((frameSize r, sampleRate r),
              p\<lparr>x_convOK := True, x_outBuffer :=
                 (if numChannels r = 1 then copy_samples (\<lambda>i. i) (\<lambda>i. i) (frameSize r) (localBuffer r) (x_outBuffer p)
                  else if numChannels r = 2 then copy_samples (\<lambda>i. 2 * i) (\<lambda>i. 2 * i + i) (frameSize r) (localBuffer r) (x_outBuffer p)
                  else x_outBuffer p)\<rparr>))"

definition xheaac_playOut :: "'h aac_decoder \<Rightarrow> u8 list \<Rightarrow> 'h xheaac \<Rightarrow> 'h xheaac" where
  "xheaac_playOut D f p =
     (let ((cnt, rate), p) = xheaac_decodeFrame D f p;
          p = (if x_convOK p then p\<lparr>good := good p + 1, x_written := x_written p @ [(x_outBuffer p, cnt, rate)]\<rparr>
               else p\<lparr>fout := fout p + 1\<rparr>)
      in if 10 \<le> good p + fout p
         then (xheaac_signal (fout p < good p) p)\<lparr>good := 0, fout := 0\<rparr> else p)"

section \<open>A super frame\<close>

text \<open>The bytes with the given numbers, counted from the end of the header.\<close>

fun read_units :: "u8 list \<Rightarrow> nat list \<Rightarrow> u8 list option" where
  "read_units v [] = Some []"
| "read_units v (j # js) =
     do { b \<leftarrow> get_MSCBits v (16 + 8 * int j) 8;
          bs \<leftarrow> read_units v js;
          Some (of_nat b # bs) }"

text \<open>The directory: every border repeats the number of borders.\<close>

fun read_borders :: "u8 list \<Rightarrow> int \<Rightarrow> nat \<Rightarrow> nat list \<Rightarrow> 'h xheaac \<Rightarrow> (bool \<times> 'h xheaac) option" where
  "read_borders v len frameBorderCount [] p = Some (True, p)"
| "read_borders v len frameBorderCount (i # is) p =
     do { frameBorderIndex \<leftarrow> get_MSCBits v (8 * len - 16 - 16 * int i) 12;
          frameBorderCountRepeat \<leftarrow> get_MSCBits v (8 * len - 16 - 16 * int i + 12) 4;
          if frameBorderCountRepeat \<noteq> frameBorderCount then Some (False, xheaac_signal False p)
          else read_borders v len frameBorderCount is (p\<lparr>borders := (borders p)[i := frameBorderIndex]\<rparr>) }"

text \<open>The check of a unit that is complete: only its definedness matters, the counts are not used.\<close>

definition unit_checked :: "u8 list \<Rightarrow> bool option" where
  "unit_checked f = (if length f < 2 then None else check_crc_bytes f (length f - 2))"

fun inner_units :: "'h aac_decoder \<Rightarrow> u8 list \<Rightarrow> nat \<Rightarrow> nat list \<Rightarrow> 'h xheaac \<Rightarrow> (nat \<times> 'h xheaac) option" where
  "inner_units D v elementsUsed [] p = Some (elementsUsed, p)"
| "inner_units D v elementsUsed (i # is) p =
     do { f \<leftarrow> read_units v [elementsUsed ..< borders p ! i];
          ok \<leftarrow> unit_checked f;
          inner_units D v (max elementsUsed (borders p ! i)) is (xheaac_playOut D f (p\<lparr>frameBuffer := f\<rparr>)) }"

definition first_unit :: "'h aac_decoder \<Rightarrow> u8 list \<Rightarrow> 'h xheaac \<Rightarrow> (nat option \<times> 'h xheaac) option" where
  "first_unit D v p =
     (if borders p ! 0 = 0xffe then
        (if length (frameBuffer p) < 2 then Some (None, p)
         else Some (Some 0, if 2 < length (frameBuffer p) then xheaac_playOut D (frameBuffer p) p else p))
      else if borders p ! 0 = 0xfff then
        (if length (frameBuffer p) < 1 then Some (None, p)
         else Some (Some 0, if 1 < length (frameBuffer p) then xheaac_playOut D (frameBuffer p) p else p))
      else if borders p ! 0 < 2 then Some (None, p)
      else do { bs \<leftarrow> read_units v [0 ..< borders p ! 0];
                let f = frameBuffer p @ bs;
                ok \<leftarrow> unit_checked f;
                Some (Some (borders p ! 0), xheaac_playOut D f (p\<lparr>frameBuffer := f\<rparr>)) })"

text \<open>After the directory has been read: its checks and the access units. Sizes are unsigned 32-bit numbers.\<close>

definition usac_units :: "'h aac_decoder \<Rightarrow> u8 list \<Rightarrow> int \<Rightarrow> nat \<Rightarrow> 'h xheaac \<Rightarrow> 'h xheaac option" where
  "usac_units D v len frameBorderCount p =
     (let directoryOffset = nat ((len - 2 * int frameBorderCount - 2) mod 2 ^ 32)
      in if list_ex (\<lambda>i. borders p ! (i + 1) \<le> borders p ! i) [0 ..< frameBorderCount - 1]
           \<or> directoryOffset \<le> borders p ! (frameBorderCount - 1)
         then Some (xheaac_signal False p)
         else do { (used, p) \<leftarrow> first_unit D v p;
                   case used of None \<Rightarrow> Some p
                   | Some elementsUsed \<Rightarrow>
                       do { (used, p) \<leftarrow> inner_units D v elementsUsed [1 ..< frameBorderCount] p;
                            f \<leftarrow> read_units v [borders p ! (frameBorderCount - 1) ..< directoryOffset];
                            Some (p\<lparr>frameBuffer := f\<rparr>) } })"

definition usac_crc :: check_crc where
  "usac_crc = \<lparr>crc_size = 8, crc_polynome = [0, 0, 0, 1, 1, 1, 0]\<rparr>"

definition process_usac ::
  "'h aac_decoder \<Rightarrow> stateDescriptor \<Rightarrow> u8 list \<Rightarrow> nat \<Rightarrow> int \<Rightarrow> int \<Rightarrow> int \<Rightarrow> int \<Rightarrow> 'h xheaac \<Rightarrow> 'h xheaac option" where
  "process_usac D st v sid startHigh lenHigh startLow lenLow p =
     do { frameBorderCount \<leftarrow> get_MSCBits v 0 4;
          bitReservoirLevel \<leftarrow> get_MSCBits v 4 4;
          s \<leftarrow> stream_at st sid;
          if length v < 16 then None
          else let (ok, v) = doCRC usac_crc v 16
               in if \<not> ok \<or> frameBorderCount = 0 then Some (xheaac_signal False p)
                  else do { (len, p) \<leftarrow>
                              (if textFlag s \<noteq> 0
                               then do { m \<leftarrow> processMessage v (to_int16 ((startLow + lenLow - 4) * 8)) (x_messages p);
                                         Some (lenHigh + lenLow - 4, p\<lparr>x_messages := m\<rparr>) }
                               else Some (lenHigh + lenLow, p));
                            let p = p\<lparr>borders := take frameBorderCount (borders p @ replicate frameBorderCount 0)\<rparr>;
                            let (config, h) = reinit D (getAudioInformation s) (x_config p, x_handle p);
                            (fine, p) \<leftarrow> read_borders v len frameBorderCount [0 ..< frameBorderCount]
                                          (p\<lparr>x_config := config, x_handle := h\<rparr>);
                            if fine then usac_units D v len frameBorderCount p else Some p } }"

section \<open>Reading bytes and borders\<close>

lemma byte_bits_field: "byte_bits x = field_bits 8 (unat x)"
  by (simp add: byte_bits_def field_bits_def bit_unsigned_iff)

lemma get_MSCBits_eq:
  assumes "bits v" "n \<le> 16" "k + n \<le> length v" "k < 2 ^ 15"
  shows "get_MSCBits v (int k) n = Some (bitfield v k n)"
  using assms get_SDCBits_eq [of v n k] by (simp add: get_MSCBits_def to_int16_nonneg)

lemma get_MSCBits_field:
  assumes "bits v" "0 < n" "n \<le> 16" "x < 2 ^ n" "drop k v = field_bits n x @ post" "k < 2 ^ 15"
  shows "get_MSCBits v (int k) n = Some x"
proof -
  have "k + n \<le> length v" using arg_cong [OF assms(5), of length] assms(2) by simp
  moreover have "bitfield v k n = bitfield (drop k v) 0 n" by (simp add: bitfield_def)
  then have "bitfield v k n = x" unfolding assms(5) using bitfield_here [OF assms(4)] by simp
  ultimately show ?thesis using get_MSCBits_eq assms by simp
qed

lemma drop_bytes_bits: "drop (8 * j) (bytes_bits P @ post) = bytes_bits (drop j P) @ post" if "j \<le> length P"
  using that by (induction P arbitrary: j) (auto simp: Suc_le_eq split: nat.splits, case_tac j, auto)

lemma read_units_take:
  assumes "bits v" "drop 16 v = bytes_bits P @ post" "length P \<le> 4000"
  shows "b \<le> length P \<Longrightarrow> read_units v [a ..< b] = Some (take (b - a) (drop a P))"
proof (induction "b - a" arbitrary: a)
  case (Suc n)
  then have ab: "a < b" "a < length P" by simp_all
  have "drop (16 + 8 * a) v = drop (8 * a) (drop 16 v)" by (simp add: add.commute)
  also have "\<dots> = bytes_bits (drop a P) @ post" unfolding assms(2) by (rule drop_bytes_bits) (use ab in simp)
  finally have "drop (16 + 8 * a) v = field_bits 8 (unat (P ! a)) @ bytes_bits (drop (Suc a) P) @ post"
    using ab by (simp add: Cons_nth_drop_Suc [symmetric] byte_bits_field)
  moreover have "unat (P ! a) < 2 ^ 8" using unsigned_less [where ?'a = nat, of "P ! a"] by simp
  ultimately have "get_MSCBits v (int (16 + 8 * a)) 8 = Some (unat (P ! a))"
    using assms(1,3) ab by (intro get_MSCBits_field) simp_all
  moreover have "[a ..< b] = a # [Suc a ..< b]" using ab by (simp add: upt_conv_Cons)
  moreover have "take (b - a) (drop a P) = P ! a # take (b - Suc a) (drop (Suc a) P)"
    using ab by (simp add: Cons_nth_drop_Suc [symmetric] take_Cons' Suc_diff_Suc)
  ultimately show ?case using Suc.hyps(1) [of "Suc a"] Suc.hyps(2) Suc.prems by simp
qed simp

text \<open>The directory at the end of a super frame, the border of the last unit first.\<close>

definition directory_bits :: "nat list \<Rightarrow> u8 list" where
  "directory_bits bs = concat (map (\<lambda>b. field_bits 12 b @ field_bits 4 (length bs)) (rev bs))"

lemma length_directory_bits [length_simps, simp]: "length (directory_bits bs) = 16 * length bs"
proof -
  have "length (concat (map (\<lambda>b. field_bits 12 b @ field_bits 4 n) xs)) = 16 * length xs" for n xs
    by (induction xs) simp_all
  then show ?thesis by (simp add: directory_bits_def)
qed

lemma bits_directory_bits [onebit]: "bits (directory_bits bs)"
proof -
  have "bits (concat (map (\<lambda>b. field_bits 12 b @ field_bits 4 n) xs))" for n xs
    by (induction xs) (simp_all add: onebit)
  then show ?thesis by (simp add: directory_bits_def)
qed

lemma drop_directory:
  assumes "i < length bs"
  shows "\<exists>post'. drop (16 * (length bs - 1 - i)) (directory_bits bs) @ post
    = field_bits 12 (bs ! i) @ field_bits 4 (length bs) @ post'"
proof -
  have "\<exists>post'. drop (16 * j) (concat (map (\<lambda>b. field_bits 12 b @ field_bits 4 n) xs)) @ post
      = field_bits 12 (xs ! j) @ field_bits 4 n @ post'" if "j < length xs" for j n and xs :: "nat list"
    using that
  proof (induction xs arbitrary: j)
    case (Cons x xs)
    then show ?case by (cases j) auto
  qed simp
  from this [of "length bs - 1 - i" "rev bs" "length bs"] show ?thesis
    using assms by (simp add: directory_bits_def rev_nth)
qed

lemma read_borders_directory:
  assumes "bits v" "drop k v = directory_bits bs @ post" "length bs < 16" "\<forall>b \<in> set bs. b < 4096"
    "len = (int k + 16 * int (length bs)) div 8" "k mod 8 = 0" "k + 16 * length bs \<le> 32000" "length (borders p) = length bs"
  shows "\<exists>q. read_borders v len (length bs) [0 ..< length bs] p = Some (True, q) \<and> q = p\<lparr>borders := bs\<rparr>"
proof -
  have read: "get_MSCBits v (8 * len - 16 - 16 * int i) 12 = Some (bs ! i)
      \<and> get_MSCBits v (8 * len - 16 - 16 * int i + 12) 4 = Some (length bs)" if il: "i < length bs" for i
  proof -
    define pos where "pos = k + 16 * (length bs - 1 - i)"
    have "8 * len = int k + 16 * int (length bs)" using assms(5,6) by auto
    then have pos: "8 * len - 16 - 16 * int i = int pos" "8 * len - 16 - 16 * int i + 12 = int (pos + 12)"
      using il by (simp_all add: pos_def of_nat_diff)
    obtain post' where "drop (16 * (length bs - 1 - i)) (directory_bits bs) @ post
        = field_bits 12 (bs ! i) @ field_bits 4 (length bs) @ post'"
      using drop_directory [OF il] by blast
    moreover have "drop pos v = drop (16 * (length bs - 1 - i)) (drop k v)" by (simp add: pos_def add.commute)
    ultimately have d: "drop pos v = field_bits 12 (bs ! i) @ field_bits 4 (length bs) @ post'"
      unfolding assms(2) using il by simp
    have "drop (pos + 12) v = drop 12 (drop pos v)" by (simp add: add.commute)
    then have d12: "drop (pos + 12) v = field_bits 4 (length bs) @ post'" unfolding d by simp
    have "pos + 16 \<le> 32000" using assms(7) il by (simp add: pos_def)
    then show ?thesis
      unfolding pos using get_MSCBits_field [OF assms(1) _ _ _ d] get_MSCBits_field [OF assms(1) _ _ _ d12] assms(3,4) il
      by simp
  qed
  have "read_borders v len (length bs) [i ..< length bs] p = Some (True, p\<lparr>borders := bs\<rparr>)"
    if "i \<le> length bs" "take i (borders p) = take i bs" "length (borders p) = length bs" for i p
    using that
  proof (induction "length bs - i" arbitrary: i p)
    case 0
    then show ?case by simp
  next
    case (Suc n)
    then have i: "i < length bs" by simp
    then have "[i ..< length bs] = i # [Suc i ..< length bs]" by (simp add: upt_conv_Cons)
    moreover have "read_borders v len (length bs) [Suc i ..< length bs] (p\<lparr>borders := (borders p)[i := bs ! i]\<rparr>)
        = Some (True, (p\<lparr>borders := (borders p)[i := bs ! i]\<rparr>)\<lparr>borders := bs\<rparr>)"
      using Suc i by (intro Suc.hyps(1)) (simp_all add: take_Suc_conv_app_nth)
    ultimately show ?case using read [OF i] by simp
  qed
  from this [of 0 p] show ?thesis using assms(8) by simp
qed

section \<open>The access units of a super frame\<close>

lemma playOut_facts [simp]:
  "x_units (xheaac_playOut D f p) = x_units p @ [f]" "borders (xheaac_playOut D f p) = borders p"
  "frameBuffer (xheaac_playOut D f p) = frameBuffer p" "x_messages (xheaac_playOut D f p) = x_messages p"
  by (simp_all add: xheaac_playOut_def xheaac_decodeFrame_def xheaac_signal_def Let_def split: prod.splits option.splits)

lemma unit_checked_defined: "2 \<le> length f \<Longrightarrow> \<exists>ok. unit_checked f = Some ok"
  by (simp add: unit_checked_def check_crc_bytes_def Let_def)

text \<open>
  A super frame with payload \<open>P\<close> that completes the units \<open>us\<close>, the first of which starts with the bytes
  \<open>buf\<close> kept from the frame before, and keeps the bytes \<open>buf'\<close>: the place of the border after unit \<open>i\<close>.
\<close>

definition unit_end :: "u8 list \<Rightarrow> u8 list list \<Rightarrow> nat \<Rightarrow> nat" where
  "unit_end buf us i = length (concat (take (Suc i) us)) - length buf"

definition unit_borders :: "u8 list \<Rightarrow> u8 list list \<Rightarrow> nat list" where
  "unit_borders buf us = map (unit_end buf us) [0 ..< length us]"

definition units_fit :: "u8 list \<Rightarrow> u8 list \<Rightarrow> u8 list list \<Rightarrow> u8 list \<Rightarrow> bool" where
  "units_fit buf P us buf' =
     (buf @ P = concat us @ buf' \<and> us \<noteq> [] \<and> length us < 16 \<and> length buf + 2 \<le> length (hd us)
      \<and> list_all (\<lambda>u. 2 \<le> length u) us \<and> buf' \<noteq> [] \<and> length P \<le> 3900)"

lemma unit_borders_facts:
  assumes "units_fit buf P us buf'"
  shows "length (unit_borders buf us) = length us"
    and "i < length us \<Longrightarrow> unit_borders buf us ! i = unit_end buf us i"
    and "2 \<le> unit_end buf us 0" "length us - 1 < length us"
    and "i < length us \<Longrightarrow> drop (unit_end buf us i) P = concat (drop (Suc i) us) @ buf'"
    and "Suc i < length us \<Longrightarrow> unit_end buf us (Suc i) = unit_end buf us i + length (us ! Suc i)"
    and "i < length us \<Longrightarrow> unit_end buf us i < length P"
    and "take (unit_end buf us 0) P = drop (length buf) (hd us)" "take (length buf) (hd us) = buf"
proof -
  note fit = assms [unfolded units_fit_def]
  have end_len: "length buf + unit_end buf us i = length (concat (take (Suc i) us))" if "i < length us" for i
  proof -
    have "length (hd us) \<le> length (concat (take (Suc i) us))" using that by (cases us) simp_all
    then show ?thesis using fit by (simp add: unit_end_def)
  qed
  show "length (unit_borders buf us) = length us" by (simp add: unit_borders_def)
  show "i < length us \<Longrightarrow> unit_borders buf us ! i = unit_end buf us i" by (simp add: unit_borders_def)
  show "length us - 1 < length us" using fit by simp
  have hd: "take 1 us = [hd us]" using fit by (cases us) simp_all
  show "2 \<le> unit_end buf us 0" using fit hd unfolding unit_end_def One_nat_def [symmetric] by simp linarith
  show rest: "drop (unit_end buf us i) P = concat (drop (Suc i) us) @ buf'" if i: "i < length us" for i
  proof -
    have "drop (unit_end buf us i) P = drop (length buf + unit_end buf us i) (buf @ P)" by simp
    also have "\<dots> = drop (length (concat (take (Suc i) us))) (concat us @ buf')" using end_len [OF i] fit by simp
    also have "concat us = concat (take (Suc i) us) @ concat (drop (Suc i) us)"
      unfolding concat_append [symmetric] by simp
    finally show ?thesis by simp
  qed
  show "unit_end buf us (Suc i) = unit_end buf us i + length (us ! Suc i)" if i: "Suc i < length us" for i
  proof -
    have "length (concat (take (Suc (Suc i)) us)) = length (concat (take (Suc i) us)) + length (us ! Suc i)"
      using take_Suc_conv_app_nth [of "Suc i" us] i by simp
    then show ?thesis using end_len [of i] end_len [of "Suc i"] i by simp
  qed
  show "i < length us \<Longrightarrow> unit_end buf us i < length P"
    using arg_cong [OF rest [of i], of length] fit by (cases "unit_end buf us i < length P") auto
  have "take (length (hd us)) (buf @ P) = hd us" using fit by (cases us) simp_all
  moreover have "length (hd us) = length buf + unit_end buf us 0" using end_len [of 0] fit hd by simp
  ultimately have "buf @ take (unit_end buf us 0) P = hd us" by simp
  then show "take (unit_end buf us 0) P = drop (length buf) (hd us)" "take (length buf) (hd us) = buf"
    by (metis append_eq_conv_conj)+
qed

lemma inner_units_eq:
  assumes fit: "units_fit buf P us buf'" and v: "bits v" "drop 16 v = bytes_bits P @ post"
  shows "i < length us \<Longrightarrow> borders p = unit_borders buf us \<Longrightarrow>
    \<exists>q. inner_units D v (unit_end buf us i) [Suc i ..< length us] p = Some (unit_end buf us (length us - 1), q)
      \<and> x_units q = x_units p @ drop (Suc i) us \<and> x_messages q = x_messages p \<and> borders q = borders p"
proof (induction "length us - Suc i" arbitrary: i p)
  case 0
  then have "i = length us - 1" by simp
  then show ?case using 0 by simp
next
  case (Suc n)
  note facts = unit_borders_facts [OF fit]
  have i: "Suc i < length us" using Suc.hyps(2) by simp
  then have upt: "[Suc i ..< length us] = Suc i # [Suc (Suc i) ..< length us]" by (simp add: upt_conv_Cons)
  have b: "borders p ! Suc i = unit_end buf us (Suc i)" using facts(2) i Suc.prems by simp
  have P: "length P \<le> 4000" using fit by (simp add: units_fit_def)
  have "drop (unit_end buf us i) P = us ! Suc i @ concat (drop (Suc (Suc i)) us) @ buf'"
    using facts(5) [of i] i by (simp add: Cons_nth_drop_Suc [symmetric])
  then have f: "read_units v [unit_end buf us i ..< unit_end buf us (Suc i)] = Some (us ! Suc i)"
    using read_units_take [OF v P, of "unit_end buf us (Suc i)" "unit_end buf us i"] facts(6) [OF i] less_imp_le [OF facts(7) [OF i]]
    by simp
  have "2 \<le> length (us ! Suc i)" using fit i by (simp add: units_fit_def list_all_length)
  then obtain ok where ok: "unit_checked (us ! Suc i) = Some ok" using unit_checked_defined by blast
  define p1 where "p1 = xheaac_playOut D (us ! Suc i) (p\<lparr>frameBuffer := us ! Suc i\<rparr>)"
  have p1: "borders p1 = unit_borders buf us" "x_units p1 = x_units p @ [us ! Suc i]" "x_messages p1 = x_messages p"
    using Suc.prems by (simp_all add: p1_def)
  obtain q where q: "inner_units D v (unit_end buf us (Suc i)) [Suc (Suc i) ..< length us] p1 = Some (unit_end buf us (length us - 1), q)"
    "x_units q = x_units p1 @ drop (Suc (Suc i)) us" "x_messages q = x_messages p1" "borders q = borders p1"
  proof -
    have "n = length us - Suc (Suc i)" using Suc.hyps(2) by simp
    from Suc.hyps(1) [OF this i p1(1)] show ?thesis using that by blast
  qed
  have "max (unit_end buf us i) (unit_end buf us (Suc i)) = unit_end buf us (Suc i)" using facts(6) i by simp
  then have "inner_units D v (unit_end buf us i) [Suc i ..< length us] p = Some (unit_end buf us (length us - 1), q)"
    using f ok q(1) by (simp add: upt b p1_def [symmetric])
  then show ?case using q p1 i Suc.prems by (simp add: Cons_nth_drop_Suc [symmetric])
qed

lemma usac_units_eq:
  assumes fit: "units_fit buf P us buf'" and v: "bits v" "drop 16 v = bytes_bits P @ post"
    and p: "frameBuffer p = buf" "borders p = unit_borders buf us" and len: "len = int (2 + length P + 2 * length us)"
  shows "\<exists>q. usac_units D v len (length us) p = Some q \<and> x_units q = x_units p @ us \<and> frameBuffer q = buf'
    \<and> x_messages q = x_messages p"
proof -
  note facts = unit_borders_facts [OF fit]
  have us: "us \<noteq> []" "length P \<le> 3900" using fit by (simp_all add: units_fit_def)
  then have last: "length us - 1 < length us" by simp
  have P: "length P \<le> 4000" using us by simp
  have off: "nat ((len - 2 * int (length us) - 2) mod 2 ^ 32) = length P" using us by (simp add: len)
  have b: "borders p ! i = unit_end buf us i" if "i < length us" for i using facts(2) that p(2) by simp
  have ok: "\<not> list_ex (\<lambda>i. borders p ! (i + 1) \<le> borders p ! i) [0 ..< length us - 1]"
  proof -
    have "borders p ! i < borders p ! (i + 1)" if "i < length us - 1" for i
    proof -
      have "2 \<le> length (us ! Suc i)" using fit that by (simp add: units_fit_def list_all_length)
      moreover have "Suc i < length us" using that by simp
      ultimately show ?thesis using facts(6) [of i] b [of i] b [of "Suc i"] by (cases "us ! Suc i") simp_all
    qed
    then show ?thesis by (auto simp: list_ex_iff not_le)
  qed
  have "\<not> length P \<le> borders p ! (length us - 1)" using facts(7) [OF last] b [OF last] by simp
  moreover obtain p1 where p1: "first_unit D v p = Some (Some (unit_end buf us 0), p1)" "x_units p1 = x_units p @ [hd us]"
    "borders p1 = borders p" "x_messages p1 = x_messages p"
  proof -
    have b0: "borders p ! 0 = unit_end buf us 0" "2 \<le> unit_end buf us 0" "unit_end buf us 0 < 4000"
      using b [of 0] facts(3) facts(7) [of 0] us by simp_all
    have r: "read_units v [0 ..< unit_end buf us 0] = Some (drop (length buf) (hd us))"
      using read_units_take [OF v P, of "unit_end buf us 0" 0] facts(7) [of 0] facts(8) us by simp
    have h: "buf @ drop (length buf) (hd us) = hd us" using append_take_drop_id [of "length buf" "hd us"] facts(9) by simp
    have "2 \<le> length (hd us)" using fit us by (cases us) (simp_all add: units_fit_def)
    then obtain c where "unit_checked (hd us) = Some c" using unit_checked_defined by blast
    then have "first_unit D v p = Some (Some (unit_end buf us 0), xheaac_playOut D (hd us) (p\<lparr>frameBuffer := hd us\<rparr>))"
      using b0 r p(1) h by (simp add: first_unit_def Let_def)
    then show ?thesis by (rule that) simp_all
  qed
  moreover obtain q where "inner_units D v (unit_end buf us 0) [Suc 0 ..< length us] p1 = Some (unit_end buf us (length us - 1), q)"
    "x_units q = x_units p1 @ drop (Suc 0) us" "x_messages q = x_messages p1" "borders q = borders p1"
    using inner_units_eq [OF fit v, of 0 p1 D] us p1(3) p(2) by auto
  moreover have "read_units v [unit_end buf us (length us - 1) ..< length P] = Some buf'"
    using read_units_take [OF v P, of "length P" "unit_end buf us (length us - 1)"] facts(5) [OF last] us by simp
  moreover have "hd us # drop (Suc 0) us = us" using us by (cases us) simp_all
  ultimately show ?thesis using ok b [OF last] p1(3) unfolding usac_units_def Let_def off by simp
qed

section \<open>A stream of super frames\<close>

definition usac_header :: "nat \<Rightarrow> nat \<Rightarrow> u8 list" where
  "usac_header level n = (field_bits 4 n @ field_bits 4 level) @ crc_bits usac_crc (field_bits 4 n @ field_bits 4 level)"

definition usac_frame :: "nat \<Rightarrow> u8 list \<Rightarrow> nat list \<Rightarrow> u8 list" where
  "usac_frame level P bs = usac_header level (length bs) @ bytes_bits P @ directory_bits bs"

lemma usac_crc_ok: "crc_ok usac_crc" "crc_size usac_crc = 8"
  by (simp_all add: crc_ok_def usac_crc_def bit_poly_def)

lemma doCRC_prefix: "len \<le> length v \<Longrightarrow> fst (doCRC c v len) = fst (doCRC c (take len v) len)
   \<and> drop len (snd (doCRC c v len)) = drop len v \<and> length (snd (doCRC c v len)) = length v" if "crc_size c \<le> len"
proof -
  assume len: "len \<le> length v"
  define X where "X = take (len - crc_size c) v @ map (\<lambda>x. x XOR 1) (drop (len - crc_size c) (take len v))"
  have X: "length X = len" using len that by (simp add: X_def)
  have "crc_invert (crc_size c) v len = X @ drop len v" "crc_invert (crc_size c) (take len v) len = X"
    using len by (simp_all add: crc_invert_def X_def min_def)
  then show ?thesis using X doCRC_length [OF that len] by (simp add: doCRC_def Let_def)
qed

lemma bits_doCRC: "bits v \<Longrightarrow> bits (snd (doCRC c v len))"
  by (simp add: doCRC_def crc_invert_def Let_def onebit)

lemma usac_header_facts:
  "length (usac_header level n) = 16" "bits (usac_header level n)"
  "fst (doCRC usac_crc (usac_header level n @ post) 16)"
  using crc_bits_facts [OF usac_crc_ok(1), of "field_bits 4 n @ field_bits 4 level"] usac_crc_ok
    doCRC_accepts_crc_bits [OF usac_crc_ok(1), of "field_bits 4 n @ field_bits 4 level"]
    doCRC_prefix [of usac_crc 16 "usac_header level n @ post"]
  by (simp_all add: usac_header_def onebit)

lemma processMessage_ok:
  assumes "message_ok m" "0 \<le> pos" "pos + 32 \<le> int (length v)"
  shows "\<exists>m'. processMessage v pos m = Some m' \<and> message_ok m'"
proof -
  define part where "part = message_part v (nat pos)"
  have len: "length part = 4"
    using bits_packed [of "4 * 8" "[0, 0, 0, 0]" "\<lambda>i. v ! (nat pos + i)"] by (simp add: part_def message_part_def)
  show ?thesis
    using assms len message_header_ok [of part m] message_body_ok [of m part]
    by (cases "messageState m") (auto simp: processMessage_def Let_def part_def [symmetric] message_ok_def)
qed

text \<open>The size of a super frame in bytes; with text there are four more bytes behind the directory.\<close>

definition usac_size :: "stream_desc \<Rightarrow> u8 list \<Rightarrow> nat \<Rightarrow> nat" where
  "usac_size s P n = 2 + length P + 2 * n + (if textFlag s = 0 then 0 else 4)"

lemma process_usac_reads:
  assumes st: "stream_at st sid = Some s" and level: "level < 16"
    and bs: "bs \<noteq> []" "length bs < 16" "\<forall>b \<in> set bs. b < 4096" and P: "length P \<le> 3900"
    and v: "v = usac_frame level P bs @ post" "bits post" "8 * usac_size s P (length bs) \<le> length v"
    and p: "message_ok (x_messages p)"
  shows "\<exists>w p'. process_usac D st v sid 0 0 0 (int (usac_size s P (length bs))) p
      = usac_units D w (int (2 + length P + 2 * length bs)) (length bs) p'
    \<and> bits w \<and> drop 16 w = bytes_bits P @ directory_bits bs @ post
    \<and> borders p' = bs \<and> frameBuffer p' = frameBuffer p \<and> x_units p' = x_units p \<and> x_faad p' = x_faad p
    \<and> message_ok (x_messages p')"
proof -
  define n where "n = length bs"
  have sizes: "0 < n" "n < 16" "length P \<le> 3900" using bs P by (simp_all add: n_def)
  note bsn = n_def [symmetric]
  have bv: "bits v" using usac_header_facts(2) v(2) by (simp add: v(1) usac_frame_def onebit)
  have n: "get_MSCBits v 0 4 = Some n" "get_MSCBits v 4 4 = Some level"
    using get_MSCBits_field [OF bv, of 4 n 0] get_MSCBits_field [OF bv, of 4 level 4] sizes level
    by (simp_all add: v(1) usac_frame_def usac_header_def bsn)
  define w where "w = snd (doCRC usac_crc v 16)"
  have lv: "16 \<le> length v" using usac_header_facts(1) [of level n] by (simp add: v(1) usac_frame_def bsn)
  have ok: "doCRC usac_crc v 16 = (True, w)"
    using usac_header_facts(3) [of level n] unfolding v(1) w_def usac_frame_def bsn by (simp add: prod_eq_iff)
  have w: "bits w" "drop 16 w = bytes_bits P @ directory_bits bs @ post" "length w = length v"
    using doCRC_prefix [of usac_crc 16 v] usac_crc_ok(2) lv bits_doCRC [OF bv] usac_header_facts(1) [of level n]
    by (simp_all add: w_def v(1) usac_frame_def bsn)
  have dir: "drop (16 + 8 * length P) w = directory_bits bs @ post"
  proof -
    have "drop (16 + 8 * length P) w = drop (8 * length P) (drop 16 w)" by (simp add: add.commute)
    then show ?thesis unfolding w(2) by simp
  qed
  define len where "len = int (2 + length P + 2 * n)"
  obtain m where msg: "(if textFlag s \<noteq> 0
      then do { m \<leftarrow> processMessage w (to_int16 ((0 + int (usac_size s P n) - 4) * 8)) (x_messages p);
                Some (0 + int (usac_size s P n) - 4, p\<lparr>x_messages := m\<rparr>) }
      else Some (0 + int (usac_size s P n), p)) = Some (len, p\<lparr>x_messages := m\<rparr>)" "message_ok m"
  proof (cases "textFlag s = 0")
    case True
    then show ?thesis using that [of "x_messages p"] p by (simp add: usac_size_def len_def)
  next
    case False
    then have size: "int (usac_size s P n) = len + 4" by (simp add: usac_size_def len_def)
    have pos: "to_int16 (len * 8) = len * 8"
      by (rule to_int16_nonneg) (use sizes in \<open>simp_all add: len_def\<close>)
    obtain m where "processMessage w (len * 8) (x_messages p) = Some m" "message_ok m"
      using processMessage_ok [OF p, of "len * 8" w] v(3) size w(3) by (auto simp: len_def n_def)
    then show ?thesis using that [of m] False by (simp add: size pos)
  qed
  define p1 where "p1 = p\<lparr>x_messages := m, borders := take n (borders p @ replicate n 0)\<rparr>"
  obtain config h where r: "reinit D (getAudioInformation s) (x_config p1, x_handle p1) = (config, h)" by fastforce
  define p2 where "p2 = p1\<lparr>x_config := config, x_handle := h\<rparr>"
  have rd: "read_borders w len n [0 ..< n] p2 = Some (True, p2\<lparr>borders := bs\<rparr>)"
  proof -
    have l: "len = (int (16 + 8 * length P) + 16 * int (length bs)) div 8" by (simp add: len_def n_def)
    have m: "(16 + 8 * length P) mod 8 = 0" "16 + 8 * length P + 16 * length bs \<le> 32000" "length (borders p2) = length bs"
      using sizes by (simp_all add: p2_def p1_def mod_add_eq [symmetric] n_def)
    show ?thesis using read_borders_directory [OF w(1) dir bs(2,3) l m] by (simp add: n_def)
  qed
  then have "process_usac D st v sid 0 0 0 (int (usac_size s P n)) p = usac_units D w len n (p2\<lparr>borders := bs\<rparr>)"
    using n st lv ok msg sizes(1) r by (auto simp: process_usac_def Let_def p1_def p2_def)
  then show ?thesis using w(1,2) msg(2) unfolding n_def len_def
    by (intro exI [of _ w] exI [of _ "p2\<lparr>borders := bs\<rparr>"]) (simp add: p2_def p1_def)
qed

text \<open>What a sender puts into a sequence of super frames: for each its level, payload, completed units and the rest.\<close>

type_synonym usac_part = "nat \<times> u8 list \<times> u8 list list \<times> u8 list"

definition payload_of :: "usac_part \<Rightarrow> u8 list" where
  "payload_of f = fst (snd f)"

definition units_of :: "usac_part \<Rightarrow> u8 list list" where
  "units_of f = fst (snd (snd f))"

lemma part_simps [simp]: "payload_of (level, P, us, post) = P" "units_of (level, P, us, post) = us"
  by (simp_all add: payload_of_def units_of_def)

definition kept :: "u8 list \<Rightarrow> u8 list \<Rightarrow> u8 list list \<Rightarrow> u8 list" where
  "kept buf P us = drop (length (concat us)) (buf @ P)"

fun usac_sent :: "stream_desc \<Rightarrow> u8 list \<Rightarrow> usac_part list \<Rightarrow> bool" where
  "usac_sent s buf [] = True"
| "usac_sent s buf ((level, P, us, post) # fs) =
     (units_fit buf P us (kept buf P us) \<and> level < 16 \<and> bits post \<and> (textFlag s = 0 \<or> 32 \<le> length post)
      \<and> usac_sent s (kept buf P us) fs)"

fun usac_calls :: "stream_desc \<Rightarrow> u8 list \<Rightarrow> usac_part list \<Rightarrow> (u8 list \<times> int) list" where
  "usac_calls s buf [] = []"
| "usac_calls s buf ((level, P, us, post) # fs) =
     (usac_frame level P (unit_borders buf us) @ post, int (usac_size s P (length us))) # usac_calls s (kept buf P us) fs"

fun usac_run :: "'h aac_decoder \<Rightarrow> stateDescriptor \<Rightarrow> nat \<Rightarrow> (u8 list \<times> int) list \<Rightarrow> 'h xheaac \<Rightarrow> 'h xheaac option" where
  "usac_run D st sid [] p = Some p"
| "usac_run D st sid ((v, len) # vs) p = do { p \<leftarrow> process_usac D st v sid 0 0 0 len p; usac_run D st sid vs p }"

text \<open>
  C6. The xHE-AAC processor hands the access units to the audio library complete, in order and none twice,
  whatever the library does with them: if a stream of units, each with at least its two check bytes, is cut
  into the payloads of super frames so that every payload completes at least one unit and at most 15, with
  the first border not in the first two bytes and something left after the last border, then a run over the
  super frames delivers exactly these units, and keeps the beginning of the next one.
\<close>

theorem usac_reassembles:
  assumes "stream_at st sid = Some s" "usac_sent s (frameBuffer p) fs" "message_ok (x_messages p)"
  shows "\<exists>q. usac_run D st sid (usac_calls s (frameBuffer p) fs) p = Some q
    \<and> x_units q = x_units p @ concat (map units_of fs)
    \<and> frameBuffer p @ concat (map payload_of fs)
       = concat (concat (map units_of fs)) @ frameBuffer q"
  using assms(2,3)
proof (induction fs arbitrary: p)
  case (Cons f fs)
  obtain level P us post where f: "f = (level, P, us, post)" by (cases f) auto
  let ?buf = "frameBuffer p" and ?bs = "unit_borders (frameBuffer p) us"
  have c: "units_fit ?buf P us (kept ?buf P us)" "level < 16" "bits post" "textFlag s = 0 \<or> 32 \<le> length post"
    "usac_sent s (kept ?buf P us) fs"
    using Cons.prems(1) by (simp_all add: f)
  note facts = unit_borders_facts [OF c(1)]
  have bs: "?bs \<noteq> []" "length ?bs < 16" "\<forall>b \<in> set ?bs. b < 4096" "length P \<le> 3900"
    using c(1) facts(1,2,7) by (fastforce simp: units_fit_def in_set_conv_nth)+
  have size: "8 * usac_size s P (length ?bs) \<le> length (usac_frame level P ?bs @ post)"
    using c(4) usac_header_facts(1) by (auto simp: usac_size_def usac_frame_def)
  obtain w p' where r: "process_usac D st (usac_frame level P ?bs @ post) sid 0 0 0 (int (usac_size s P (length ?bs))) p
      = usac_units D w (int (2 + length P + 2 * length ?bs)) (length ?bs) p'"
    "bits w" "drop 16 w = bytes_bits P @ directory_bits ?bs @ post" "borders p' = ?bs" "frameBuffer p' = ?buf" "x_units p' = x_units p"
    "message_ok (x_messages p')"
    using process_usac_reads [OF assms(1) c(2) bs(1,2,3,4) refl c(3) size Cons.prems(2), of D] by blast
  obtain q where q: "usac_units D w (int (2 + length P + 2 * length us)) (length us) p' = Some q" "x_units q = x_units p' @ us"
    "frameBuffer q = kept ?buf P us" "x_messages q = x_messages p'"
    using usac_units_eq [OF c(1) r(2,3,5,4) refl, of D] by blast
  obtain q' where "usac_run D st sid (usac_calls s (frameBuffer q) fs) q = Some q'"
    "x_units q' = x_units q @ concat (map units_of fs)"
    "frameBuffer q @ concat (map payload_of fs)
       = concat (concat (map units_of fs)) @ frameBuffer q'"
  proof -
    have pre: "usac_sent s (frameBuffer q) fs" "message_ok (x_messages q)" using c(5) q(3,4) r(7) by simp_all
    show ?thesis using Cons.IH [OF pre] that by blast
  qed
  moreover have "?buf @ P @ concat (map payload_of fs) = concat us @ kept ?buf P us @ concat (map payload_of fs)"
    using c(1) unfolding append_assoc [symmetric] by (simp only: units_fit_def)
  ultimately show ?case using r(1,6) q facts(1) by (simp add: f)
qed simp

text \<open>A library that decodes nothing, and two super frames: three units in the first, one in the second.\<close>

definition mute_decoder :: "nat aac_decoder" where
  "mute_decoder = \<lparr>null_handle = \<lambda>h. False, configure_raw = \<lambda>h c. h + 1, decode_unit = \<lambda>h f u. (h, None)\<rparr>"

definition new_xheaac :: "nat xheaac" where
  "new_xheaac = \<lparr>frameBuffer = [], borders = [], x_config = [], x_handle = 0, x_messages = \<lparr>messageState = M_IDLE,
     byteCount = 0, byteTeller = 0, theMessage = replicate 24 0, myMessage = [], labels = []\<rparr>, x_convOK = False,
     good = 0, fout = 0, x_outBuffer = [], x_faad = [], x_units = [], x_written = []\<rparr>"

theorem usac_reassembles_witness:
  "\<exists>q. usac_run mute_decoder blank_state 0
     (usac_calls zero_stream [] [(5, [1, 2, 3, 4, 5, 6, 7], [[1, 2, 3], [4, 5]], []), (6, [8, 9, 10, 11], [[6, 7, 8, 9]], [])]) new_xheaac = Some q
   \<and> x_units q = [[1, 2, 3], [4, 5], [6, 7, 8, 9]] \<and> [1, 2, 3, 4, 5, 6, 7, 8, 9, 10, 11] = concat (x_units q) @ frameBuffer q"
proof -
  let ?fs = "[(5, [1, 2, 3, 4, 5, 6, 7], [[1, 2, 3], [4, 5]], []), (6, [8, 9, 10, 11], [[6, 7, 8, 9]], [])] :: usac_part list"
  have "usac_sent zero_stream (frameBuffer new_xheaac) ?fs"
    by (simp add: new_xheaac_def units_fit_def kept_def zero_stream_def)
  moreover have "stream_at blank_state 0 = Some zero_stream" by (simp add: stream_at_def blank_state_def)
  moreover have "message_ok (x_messages new_xheaac)" by (simp add: new_xheaac_def message_ok_def)
  ultimately obtain q where "usac_run mute_decoder blank_state 0 (usac_calls zero_stream (frameBuffer new_xheaac) ?fs) new_xheaac = Some q"
    "x_units q = x_units new_xheaac @ concat (map units_of ?fs)"
    "frameBuffer new_xheaac @ concat (map payload_of ?fs) = concat (concat (map units_of ?fs)) @ frameBuffer q"
    using usac_reassembles [of blank_state 0 zero_stream new_xheaac ?fs mute_decoder] by blast
  then show ?thesis by (intro exI [of _ q]) (simp add: new_xheaac_def)
qed

section \<open>Delayed borders\<close>

text \<open>
  C39. A super frame whose first border says that the first unit ended one or two bytes before this frame
  (\<open>0xfff\<close> and \<open>0xffe\<close>) is dropped: for every size that a multiplex frame can have these numbers are beyond the
  directory, so that the check of the last border, or the one for increasing borders, fails first. The
  cases for delayed borders are never reached, no unit is delivered and the bytes kept from the frame before
  stay where they are.
\<close>

theorem usac_delayed_dropped:
  assumes "stream_at st sid = Some s" "message_ok (x_messages p)" "level < 16" "bits post"
    and bs: "length bs < 16" "\<forall>b \<in> set bs. b < 4096" "bs \<noteq> []" "hd bs = 0xffe \<or> hd bs = 0xfff" "length P \<le> 3900"
    and size: "8 * usac_size s P (length bs) \<le> length (usac_frame level P bs @ post)"
  shows "\<exists>q. process_usac D st (usac_frame level P bs @ post) sid 0 0 0 (int (usac_size s P (length bs))) p = Some q
    \<and> x_units q = x_units p \<and> frameBuffer q = frameBuffer p \<and> x_faad q = x_faad p @ [False]"
proof -
  let ?n = "length bs" and ?len = "int (2 + length P + 2 * length bs)"
  obtain w p' where r: "process_usac D st (usac_frame level P bs @ post) sid 0 0 0 (int (usac_size s P ?n)) p
      = usac_units D w ?len ?n p'" "borders p' = bs" "frameBuffer p' = frameBuffer p" "x_units p' = x_units p" "x_faad p' = x_faad p"
    using process_usac_reads [OF assms(1,3) bs(3,1,2,5) refl assms(4) size assms(2), of D] by blast
  have off: "nat ((?len - 2 * int ?n - 2) mod 2 ^ 32) = length P" using bs(5) by simp
  have "list_ex (\<lambda>i. bs ! (i + 1) \<le> bs ! i) [0 ..< ?n - 1] \<or> length P \<le> bs ! (?n - 1)"
  proof (rule disjCI)
    assume last: "\<not> length P \<le> bs ! (?n - 1)"
    have "\<exists>i < k. bs ! (i + 1) \<le> bs ! i" if "bs ! k < bs ! 0" "k < ?n" for k
      using that
    proof (induction k)
      case (Suc k)
      show ?case
      proof (cases "bs ! (k + 1) \<le> bs ! k")
        case False
        then show ?thesis using Suc by (auto dest: less_trans intro: less_SucI)
      qed auto
    qed simp
    moreover have "bs ! (?n - 1) < bs ! 0" using last bs by (auto simp: hd_conv_nth)
    moreover have "?n - 1 < ?n" using bs(3) by simp
    ultimately show "list_ex (\<lambda>i. bs ! (i + 1) \<le> bs ! i) [0 ..< ?n - 1]" by (fastforce simp: list_ex_iff)
  qed
  then have "usac_units D w ?len ?n p' = Some (xheaac_signal False p')"
    unfolding usac_units_def Let_def off r(2) by (rule if_P)
  then show ?thesis using r by (simp add: xheaac_signal_def)
qed

theorem usac_delayed_dropped_witness:
  "\<exists>q. process_usac mute_decoder blank_state (usac_frame 3 [1, 2, 3, 4, 5, 6] [0xffe, 4]) 0 0 0 0 12 new_xheaac = Some q
    \<and> x_units q = [] \<and> frameBuffer q = [] \<and> x_faad q = [False]"
proof -
  have s: "stream_at blank_state 0 = Some zero_stream" by (simp add: stream_at_def blank_state_def)
  have m: "message_ok (x_messages new_xheaac)" by (simp add: new_xheaac_def message_ok_def)
  have "8 * usac_size zero_stream [1, 2, 3, 4, 5, 6] (length [0xffe, 4 :: nat]) \<le> length (usac_frame 3 [1, 2, 3, 4, 5, 6] [0xffe, 4] @ [])"
    by (simp add: usac_size_def usac_frame_def usac_header_facts(1) zero_stream_def)
  from usac_delayed_dropped [OF s m _ _ _ _ _ _ _ this, of mute_decoder] show ?thesis
    by (simp add: usac_size_def zero_stream_def new_xheaac_def)
qed

end
