(* ===== verification/DrmAac.thy ===== *)
theory DrmAac
  imports DrmXheaac
begin

text \<open>
  The AAC audio of a DRM stream (\<open>data/aac-processor-fdk.cpp\<close>): an audio super frame holds 5 or 10 frames, with
  equal error protection as a table of start positions, a check byte for each frame and the frames, or
  with unequal protection in two parts. The AAC library is the same parameter as for xHE-AAC.
\<close>

section \<open>Frames\<close>

text \<open>One of the frames of the static array: the check byte stands in front of the 512 bytes of audio.\<close>

record audio_frame =
  frame_length :: int
  startPos :: int
  aac_crc :: u8
  audio :: "u8 list"

record 'h aac =
  frames :: "audio_frame list"
  a_config :: "u8 list"
  a_handle :: 'h
  a_messages :: message_processor
  a_outBuffer :: "int list"
  a_faad :: "bool list"
  a_units :: "u8 list list"
  a_written :: "(int list \<times> nat \<times> int) list"

definition aac_signal :: "bool \<Rightarrow> 'h aac \<Rightarrow> 'h aac" where
  "aac_signal b p = p\<lparr>a_faad := a_faad p @ [b]\<rparr>"

definition numFrames_for :: "stream_desc \<Rightarrow> nat" where
  "numFrames_for s = (if audioSamplingRate s = 1 then 5 else 10)"

definition header_length :: "nat \<Rightarrow> int" where
  "header_length numFrames = (if numFrames = 10 then (9 * 12 + 4) div 8 else (4 * 12) div 8)"

text \<open>\<open>n\<close> bytes from byte \<open>k\<close> on, and their place in the audio of a frame; beyond its 512 bytes there is no result.\<close>

fun read_bytes :: "u8 list \<Rightarrow> int \<Rightarrow> nat \<Rightarrow> u8 list option" where
  "read_bytes v k 0 = Some []"
| "read_bytes v k (Suc n) =
     do { b \<leftarrow> get_MSCBits v (k * 8) 8;
          bs \<leftarrow> read_bytes v (k + 1) n;
          Some (of_nat b # bs) }"

definition put_audio :: "nat \<Rightarrow> u8 list \<Rightarrow> audio_frame \<Rightarrow> audio_frame option" where
  "put_audio k bs f =
     (if bs = [] then Some f
      else if k + length bs \<le> 512 then Some (f\<lparr>audio := blit k bs (audio f)\<rparr>) else None)"

definition set_frame :: "nat \<Rightarrow> (audio_frame \<Rightarrow> audio_frame option) \<Rightarrow> 'h aac \<Rightarrow> 'h aac option" where
  "set_frame i g p = do { f \<leftarrow> g (frames p ! i); Some (p\<lparr>frames := (frames p)[i := f]\<rparr>) }"

section \<open>Decoding\<close>

text \<open>The access unit of a frame is its check byte and its audio, which follow each other in memory.\<close>

definition frame_unit :: "audio_frame \<Rightarrow> u8 list" where
  "frame_unit f = aac_crc f # take (nat (frame_length f)) (audio f)"

definition aac_decodeFrame :: "'h aac_decoder \<Rightarrow> u8 list \<Rightarrow> 'h aac \<Rightarrow> (nat \<times> int) option \<times> 'h aac" where
  "aac_decodeFrame D audioFrame p =
     (let (h, result) = decode_unit D (a_handle p) False audioFrame;
          p = p\<lparr>a_handle := h, a_units := a_units p @ [audioFrame]\<rparr>
      in case result of
           None \<Rightarrow> (None, p)
         | Some r \<Rightarrow>
             (Some (frameSize r * 2, sampleRate r),
              p\<lparr>a_outBuffer :=
                 (if numChannels r = 1 then copy_samples (\<lambda>i. i) (\<lambda>i. i) (frameSize r) (localBuffer r) (a_outBuffer p)
                  else if numChannels r = 2
                  then copy_samples (\<lambda>i. 2 * i + 1) (\<lambda>i. 2 * i) (frameSize r) (localBuffer r)
                         (copy_samples (\<lambda>i. 2 * i) (\<lambda>i. 2 * i + i) (frameSize r) (localBuffer r) (a_outBuffer p))
                  else a_outBuffer p)\<rparr>))"

text \<open>A frame of more than 512 bytes does not lie in its own memory; a negative length is skipped.\<close>

definition play_frame :: "'h aac_decoder \<Rightarrow> audio_frame \<Rightarrow> 'h aac \<Rightarrow> 'h aac option" where
  "play_frame D f p =
     (if frame_length f < 0 then Some p
      else if 512 < frame_length f then None
      else let (result, p) = aac_decodeFrame D (frame_unit f) p
           in case result of
                None \<Rightarrow> Some (aac_signal False p)
              | Some (cnt, rate) \<Rightarrow>
                  Some ((aac_signal True p)\<lparr>a_written := a_written p @ [(a_outBuffer p, cnt, rate)]\<rparr>))"

fun play_frames :: "'h aac_decoder \<Rightarrow> audio_frame list \<Rightarrow> 'h aac \<Rightarrow> 'h aac option" where
  "play_frames D [] p = Some p"
| "play_frames D (f # fs) p = do { p \<leftarrow> play_frame D f p; play_frames D fs p }"

definition aac_playOut :: "'h aac_decoder \<Rightarrow> stream_desc \<Rightarrow> nat \<Rightarrow> 'h aac \<Rightarrow> 'h aac option" where
  "aac_playOut D s numFrames p =
     (let (config, h) = reinit D (audio_bytes s) (a_config p, a_handle p)
      in play_frames D (take numFrames (frames p)) (p\<lparr>a_config := config, a_handle := h\<rparr>))"

section \<open>Equal error protection\<close>

fun read_starts :: "u8 list \<Rightarrow> int \<Rightarrow> nat list \<Rightarrow> 'h aac \<Rightarrow> 'h aac option" where
  "read_starts v startLow [] p = Some p"
| "read_starts v startLow (i # is) p =
     do { x \<leftarrow> get_MSCBits v (startLow * 8 + 12 * (int i - 1)) 12;
          p \<leftarrow> set_frame i (\<lambda>f. Some (f\<lparr>startPos := int x\<rparr>)) p;
          read_starts v startLow is p }"

text \<open>The lengths from the start positions, until one is out of range; the second result is their sum.\<close>

fun frame_lengths :: "int \<Rightarrow> nat list \<Rightarrow> int \<Rightarrow> 'h aac \<Rightarrow> (int option \<times> 'h aac) option" where
  "frame_lengths lenLow [] load p = Some (Some load, p)"
| "frame_lengths lenLow (i # is) load p =
     (let l = startPos (frames p ! i) - startPos (frames p ! (i - 1))
      in do { p \<leftarrow> set_frame (i - 1) (\<lambda>f. Some (f\<lparr>frame_length := l\<rparr>)) p;
              if l < 0 \<or> lenLow \<le> l then Some (None, aac_signal False p)
              else frame_lengths lenLow is (load + l) p })"

fun read_crcs :: "u8 list \<Rightarrow> int \<Rightarrow> nat list \<Rightarrow> 'h aac \<Rightarrow> 'h aac option" where
  "read_crcs v crc_start [] p = Some p"
| "read_crcs v crc_start (i # is) p =
     do { x \<leftarrow> get_MSCBits v ((crc_start + int i) * 8) 8;
          p \<leftarrow> set_frame i (\<lambda>f. Some (f\<lparr>aac_crc := of_nat x\<rparr>)) p;
          read_crcs v crc_start is p }"

fun read_audio :: "u8 list \<Rightarrow> int \<Rightarrow> nat list \<Rightarrow> 'h aac \<Rightarrow> 'h aac option" where
  "read_audio v payLoad_start [] p = Some p"
| "read_audio v payLoad_start (i # is) p =
     do { bs \<leftarrow> read_bytes v (payLoad_start + startPos (frames p ! i)) (nat (frame_length (frames p ! i)));
          p \<leftarrow> set_frame i (put_audio 0 bs) p;
          read_audio v payLoad_start is p }"

definition handle_eep_audio ::
  "'h aac_decoder \<Rightarrow> stateDescriptor \<Rightarrow> u8 list \<Rightarrow> nat \<Rightarrow> int \<Rightarrow> int \<Rightarrow> 'h aac \<Rightarrow> 'h aac option" where
  "handle_eep_audio D st v mscIndex startLow lenLow p =
     do { s \<leftarrow> stream_at st mscIndex;
          let numFrames = numFrames_for s;
          (lenLow, p) \<leftarrow> (if textFlag s \<noteq> 0
                         then do { m \<leftarrow> processMessage v (to_int16 ((startLow + lenLow - 4) * 8)) (a_messages p);
                                   Some (lenLow - 4, p\<lparr>a_messages := m\<rparr>) }
                         else Some (lenLow, p));
          p \<leftarrow> set_frame 0 (\<lambda>f. Some (f\<lparr>startPos := 0\<rparr>)) p;
          p \<leftarrow> read_starts v startLow [1 ..< numFrames] p;
          (load, p) \<leftarrow> frame_lengths lenLow [1 ..< numFrames] 0 p;
          case load of
            None \<Rightarrow> Some p
          | Some payLoad_length \<Rightarrow>
              do { let l = lenLow - (header_length numFrames + int numFrames) - payLoad_length;
                   p \<leftarrow> set_frame (numFrames - 1) (\<lambda>f. Some (f\<lparr>frame_length := l\<rparr>)) p;
                   if l < 0 then Some (aac_signal False p)
                   else do { let crc_start = startLow + header_length numFrames;
                             p \<leftarrow> read_crcs v crc_start [0 ..< numFrames] p;
                             p \<leftarrow> read_audio v (crc_start + int numFrames) [0 ..< numFrames] p;
                             aac_playOut D s numFrames p } } }"

section \<open>Unequal error protection\<close>

fun uep_lengths :: "u8 list \<Rightarrow> int \<Rightarrow> nat list \<Rightarrow> int \<Rightarrow> 'h aac \<Rightarrow> (int \<times> 'h aac) option" where
  "uep_lengths v startHigh [] used p = Some (used, p)"
| "uep_lengths v startHigh (i # is) used p =
     do { x \<leftarrow> get_MSCBits v (startHigh * 8 + 12 * int i) 12;
          p \<leftarrow> set_frame i (\<lambda>f. Some (f\<lparr>frame_length := int x\<rparr>)) p;
          uep_lengths v startHigh is (used + int x) p }"

text \<open>The higher protected part of a frame: \<open>audioinHP\<close> bytes of audio and the check byte.\<close>

fun uep_high :: "u8 list \<Rightarrow> int \<Rightarrow> nat list \<Rightarrow> int \<Rightarrow> 'h aac \<Rightarrow> 'h aac option" where
  "uep_high v audioinHP [] entryinHP p = Some p"
| "uep_high v audioinHP (i # is) entryinHP p =
     do { bs \<leftarrow> read_bytes v entryinHP (nat audioinHP);
          p \<leftarrow> set_frame i (put_audio 0 bs) p;
          x \<leftarrow> get_MSCBits v ((entryinHP + int (nat audioinHP)) * 8) 8;
          p \<leftarrow> set_frame i (\<lambda>f. Some (f\<lparr>aac_crc := of_nat x\<rparr>)) p;
          uep_high v audioinHP is (entryinHP + int (nat audioinHP) + 1) p }"

text \<open>The rest of a frame in the lower protected part, as far as this part reaches.\<close>

fun uep_low :: "u8 list \<Rightarrow> int \<Rightarrow> int \<Rightarrow> nat list \<Rightarrow> int \<Rightarrow> 'h aac \<Rightarrow> 'h aac option" where
  "uep_low v audioinHP endLow [] entryinLP p = Some p"
| "uep_low v audioinHP endLow (i # is) entryinLP p =
     (let n = min (nat (frame_length (frames p ! i) - audioinHP)) (nat (endLow - entryinLP))
      in if audioinHP < 0 \<and> n \<noteq> 0 then None
         else do { bs \<leftarrow> read_bytes v entryinLP n;
                   p \<leftarrow> set_frame i (put_audio (nat audioinHP) bs) p;
                   uep_low v audioinHP endLow is (entryinLP + int n) p })"

definition handle_uep_audio ::
  "'h aac_decoder \<Rightarrow> stateDescriptor \<Rightarrow> u8 list \<Rightarrow> nat \<Rightarrow> int \<Rightarrow> int \<Rightarrow> int \<Rightarrow> int \<Rightarrow> 'h aac \<Rightarrow> 'h aac option" where
  "handle_uep_audio D st v mscIndex startHigh lenHigh startLow lenLow p =
     do { s \<leftarrow> stream_at st mscIndex;
          let numFrames = numFrames_for s;
          let payloadLength = lenLow + lenHigh - header_length numFrames - 1;
          (used, p) \<leftarrow> uep_lengths v startHigh [0 ..< numFrames - 1] 0 p;
          p \<leftarrow> set_frame (numFrames - 1) (\<lambda>f. Some (f\<lparr>frame_length := to_int16 (payloadLength - used)\<rparr>)) p;
          let audioinHP = c_div (lenHigh - header_length numFrames) (int numFrames) - 1;
          p \<leftarrow> uep_high v audioinHP [0 ..< numFrames] (startHigh + header_length numFrames) p;
          p \<leftarrow> uep_low v audioinHP (startLow + lenLow) [0 ..< numFrames] startLow p;
          s' \<leftarrow> stream_at st numFrames;
          p \<leftarrow> (if textFlag s' \<noteq> 0
               then do { m \<leftarrow> processMessage v (to_int16 ((startLow + lenLow - 4) * 8)) (a_messages p);
                         Some (p\<lparr>a_messages := m\<rparr>) }
               else Some p);
          aac_playOut D s numFrames p }"

definition process_aac ::
  "'h aac_decoder \<Rightarrow> stateDescriptor \<Rightarrow> u8 list \<Rightarrow> nat \<Rightarrow> int \<Rightarrow> int \<Rightarrow> int \<Rightarrow> int \<Rightarrow> 'h aac \<Rightarrow> 'h aac option" where
  "process_aac D st v mscIndex startHigh lenHigh startLow lenLow p =
     (if lenHigh \<noteq> 0 then handle_uep_audio D st v mscIndex startHigh lenHigh startLow lenLow p
      else handle_eep_audio D st v mscIndex startLow lenLow p)"

section \<open>The loops over the frames\<close>

definition upd_range :: "nat \<Rightarrow> nat \<Rightarrow> (nat \<Rightarrow> 'a \<Rightarrow> 'a) \<Rightarrow> 'a list \<Rightarrow> 'a list" where
  "upd_range i n g fs = map (\<lambda>j. if i \<le> j \<and> j < n then g j (fs ! j) else fs ! j) [0 ..< length fs]"

lemma upd_range_facts [simp]:
  "length (upd_range i n g fs) = length fs"
  "j < length fs \<Longrightarrow> upd_range i n g fs ! j = (if i \<le> j \<and> j < n then g j (fs ! j) else fs ! j)"
  by (simp_all add: upd_range_def)

lemma upd_range_step:
  "i < n \<Longrightarrow> n \<le> length fs \<Longrightarrow> upd_range (Suc i) n g (fs[i := g i (fs ! i)]) = upd_range i n g fs"
  by (rule nth_equalityI) (auto simp: nth_list_update)

lemma upd_range_empty: "n \<le> i \<Longrightarrow> upd_range i n g fs = fs"
  by (rule nth_equalityI) auto

lemma read_starts_eq:
  "i \<le> n \<Longrightarrow> n \<le> length (frames p) \<Longrightarrow>
   (\<And>j. i \<le> j \<Longrightarrow> j < n \<Longrightarrow> get_MSCBits v (startLow * 8 + 12 * (int j - 1)) 12 = Some (x j)) \<Longrightarrow>
   read_starts v startLow [i ..< n] p = Some (p\<lparr>frames := upd_range i n (\<lambda>j f. f\<lparr>startPos := int (x j)\<rparr>) (frames p)\<rparr>)"
proof (induction "n - i" arbitrary: i p)
  case 0
  then show ?case by (simp add: upd_range_empty)
next
  case (Suc k)
  then have "i < n" by simp
  moreover then have "[i ..< n] = i # [Suc i ..< n]" by (simp add: upt_conv_Cons)
  moreover have "read_starts v startLow [Suc i ..< n] (p\<lparr>frames := (frames p)[i := (frames p ! i)\<lparr>startPos := int (x i)\<rparr>]\<rparr>)
      = Some (p\<lparr>frames := upd_range (Suc i) n (\<lambda>j f. f\<lparr>startPos := int (x j)\<rparr>) ((frames p)[i := (frames p ! i)\<lparr>startPos := int (x i)\<rparr>])\<rparr>)"
    using Suc.hyps(1) [of "Suc i" "p\<lparr>frames := (frames p)[i := (frames p ! i)\<lparr>startPos := int (x i)\<rparr>]\<rparr>"] Suc by simp
  ultimately show ?case using Suc.prems upd_range_step [of i n "frames p" "\<lambda>j f. f\<lparr>startPos := int (x j)\<rparr>"]
    by (simp add: set_frame_def)
qed

lemma read_crcs_eq:
  "i \<le> n \<Longrightarrow> n \<le> length (frames p) \<Longrightarrow>
   (\<And>j. i \<le> j \<Longrightarrow> j < n \<Longrightarrow> get_MSCBits v ((crc_start + int j) * 8) 8 = Some (x j)) \<Longrightarrow>
   read_crcs v crc_start [i ..< n] p = Some (p\<lparr>frames := upd_range i n (\<lambda>j f. f\<lparr>aac_crc := of_nat (x j)\<rparr>) (frames p)\<rparr>)"
proof (induction "n - i" arbitrary: i p)
  case 0
  then show ?case by (simp add: upd_range_empty)
next
  case (Suc k)
  then have "i < n" by simp
  moreover then have "[i ..< n] = i # [Suc i ..< n]" by (simp add: upt_conv_Cons)
  moreover have "read_crcs v crc_start [Suc i ..< n] (p\<lparr>frames := (frames p)[i := (frames p ! i)\<lparr>aac_crc := of_nat (x i)\<rparr>]\<rparr>)
      = Some (p\<lparr>frames := upd_range (Suc i) n (\<lambda>j f. f\<lparr>aac_crc := of_nat (x j)\<rparr>) ((frames p)[i := (frames p ! i)\<lparr>aac_crc := of_nat (x i)\<rparr>])\<rparr>)"
    using Suc.hyps(1) [of "Suc i" "p\<lparr>frames := (frames p)[i := (frames p ! i)\<lparr>aac_crc := of_nat (x i)\<rparr>]\<rparr>"] Suc by simp
  ultimately show ?case using Suc.prems upd_range_step [of i n "frames p" "\<lambda>j f. f\<lparr>aac_crc := of_nat (x j)\<rparr>"]
    by (simp add: set_frame_def)
qed

lemma frame_lengths_eq:
  "1 \<le> i \<Longrightarrow> i \<le> n \<Longrightarrow> n \<le> length (frames p) \<Longrightarrow>
   (\<And>j. i \<le> j \<Longrightarrow> j < n \<Longrightarrow> 0 \<le> startPos (frames p ! j) - startPos (frames p ! (j - 1))
      \<and> startPos (frames p ! j) - startPos (frames p ! (j - 1)) < lenLow) \<Longrightarrow>
   frame_lengths lenLow [i ..< n] acc p = Some (Some (acc + startPos (frames p ! (n - 1)) - startPos (frames p ! (i - 1))),
     p\<lparr>frames := upd_range (i - 1) (n - 1) (\<lambda>j f. f\<lparr>frame_length := startPos (frames p ! Suc j) - startPos (frames p ! j)\<rparr>) (frames p)\<rparr>)"
proof (induction "n - i" arbitrary: i p acc)
  case 0
  then show ?case by (simp add: upd_range_empty)
next
  case (Suc k)
  then have i: "i < n" "[i ..< n] = i # [Suc i ..< n]" by (simp_all add: upt_conv_Cons)
  let ?l = "startPos (frames p ! i) - startPos (frames p ! (i - 1))"
  define p1 where "p1 = p\<lparr>frames := (frames p)[i - 1 := (frames p ! (i - 1))\<lparr>frame_length := ?l\<rparr>]\<rparr>"
  have sp: "startPos (frames p1 ! j) = startPos (frames p ! j)" if "j < n" for j
    using that Suc.prems by (simp add: p1_def nth_list_update)
  have pre: "0 \<le> startPos (frames p1 ! j) - startPos (frames p1 ! (j - 1)) \<and> startPos (frames p1 ! j) - startPos (frames p1 ! (j - 1)) < lenLow"
    if "Suc i \<le> j" "j < n" for j
    using Suc.prems(4) [of j] sp [of j] sp [of "j - 1"] that by simp
  have IH: "frame_lengths lenLow [Suc i ..< n] (acc + ?l) p1 = Some (Some (acc + ?l + startPos (frames p1 ! (n - 1)) - startPos (frames p1 ! (Suc i - 1))),
     p1\<lparr>frames := upd_range (Suc i - 1) (n - 1) (\<lambda>j f. f\<lparr>frame_length := startPos (frames p1 ! Suc j) - startPos (frames p1 ! j)\<rparr>) (frames p1)\<rparr>)"
    by (rule Suc.hyps(1)) (use Suc.hyps(2) Suc.prems i pre in \<open>simp_all add: p1_def\<close>)
  have u: "upd_range i (n - 1) (\<lambda>j f. f\<lparr>frame_length := startPos (frames p1 ! Suc j) - startPos (frames p1 ! j)\<rparr>) (frames p1)
      = upd_range (i - 1) (n - 1) (\<lambda>j f. f\<lparr>frame_length := startPos (frames p ! Suc j) - startPos (frames p ! j)\<rparr>) (frames p)"
  proof (rule nth_equalityI)
    fix j assume "j < length (upd_range i (n - 1) (\<lambda>j f. f\<lparr>frame_length := startPos (frames p1 ! Suc j) - startPos (frames p1 ! j)\<rparr>) (frames p1))"
    then have "j < length (frames p)" "length (frames p1) = length (frames p)" by (simp_all add: p1_def)
    then show "upd_range i (n - 1) (\<lambda>j f. f\<lparr>frame_length := startPos (frames p1 ! Suc j) - startPos (frames p1 ! j)\<rparr>) (frames p1) ! j
        = upd_range (i - 1) (n - 1) (\<lambda>j f. f\<lparr>frame_length := startPos (frames p ! Suc j) - startPos (frames p ! j)\<rparr>) (frames p) ! j"
      using Suc.prems(1) i(1) sp [of j] sp [of "Suc j"] by (cases "j = i - 1") (auto simp: p1_def nth_list_update)
  qed (simp add: p1_def)
  show ?case using IH Suc.prems(4) [of i] i Suc.prems(1) sp [of i] sp [of "n - 1"] u
    by (simp add: set_frame_def Let_def p1_def [symmetric]) (simp add: p1_def)
qed

lemma read_audio_eq:
  assumes "\<And>j. j < n \<Longrightarrow> read_bytes v (payLoad_start + startPos (frames p ! j)) (nat (frame_length (frames p ! j))) = Some (a j)"
  shows "i \<le> n \<Longrightarrow> n \<le> length (frames q) \<Longrightarrow> list_all (\<lambda>f. length (audio f) = 512) (frames q) \<Longrightarrow>
    (\<And>j. j < n \<Longrightarrow> startPos (frames q ! j) = startPos (frames p ! j) \<and> frame_length (frames q ! j) = frame_length (frames p ! j)) \<Longrightarrow>
    read_audio v payLoad_start [i ..< n] q =
      (if \<forall>j. i \<le> j \<and> j < n \<longrightarrow> length (a j) \<le> 512
       then Some (q\<lparr>frames := upd_range i n (\<lambda>j f. f\<lparr>audio := blit 0 (a j) (audio f)\<rparr>) (frames q)\<rparr>) else None)"
proof (induction "n - i" arbitrary: i q)
  case 0
  then show ?case by (simp add: upd_range_empty)
next
  case (Suc k)
  then have i: "i < n" "[i ..< n] = i # [Suc i ..< n]" by (simp_all add: upt_conv_Cons)
  have rd: "read_bytes v (payLoad_start + startPos (frames q ! i)) (nat (frame_length (frames q ! i))) = Some (a i)"
    using assms [OF i(1)] Suc.prems(4) [OF i(1)] by simp
  show ?case
  proof (cases "length (a i) \<le> 512")
    case False
    then have "set_frame i (put_audio 0 (a i)) q = None" by (auto simp: set_frame_def put_audio_def)
    then show ?thesis using rd i False by (auto simp: i(2))
  next
    case True
    define q1 where "q1 = q\<lparr>frames := (frames q)[i := (frames q ! i)\<lparr>audio := blit 0 (a i) (audio (frames q ! i))\<rparr>]\<rparr>"
    have "put_audio 0 (a i) f = Some (f\<lparr>audio := blit 0 (a i) (audio f)\<rparr>)" for f :: audio_frame
      using True by (simp add: put_audio_def blit_def)
    then have s: "set_frame i (put_audio 0 (a i)) q = Some q1" by (simp add: set_frame_def q1_def)
    have "list_all (\<lambda>f. length (audio f) = 512) (frames q1)"
      using Suc.prems(2,3) i(1) True by (simp add: q1_def list_all_length nth_list_update)
    then have IH: "read_audio v payLoad_start [Suc i ..< n] q1 =
      (if \<forall>j. Suc i \<le> j \<and> j < n \<longrightarrow> length (a j) \<le> 512
       then Some (q1\<lparr>frames := upd_range (Suc i) n (\<lambda>j f. f\<lparr>audio := blit 0 (a j) (audio f)\<rparr>) (frames q1)\<rparr>) else None)"
      using Suc.hyps Suc.prems i by (intro Suc.hyps(1)) (auto simp: q1_def nth_list_update)
    have u: "upd_range (Suc i) n (\<lambda>j f. f\<lparr>audio := blit 0 (a j) (audio f)\<rparr>) (frames q1) = upd_range i n (\<lambda>j f. f\<lparr>audio := blit 0 (a j) (audio f)\<rparr>) (frames q)"
      using upd_range_step [of i n "frames q" "\<lambda>j f. f\<lparr>audio := blit 0 (a j) (audio f)\<rparr>"] i(1) Suc.prems(2) by (simp add: q1_def)
    have all: "(\<forall>j. Suc i \<le> j \<and> j < n \<longrightarrow> length (a j) \<le> 512) = (\<forall>j. i \<le> j \<and> j < n \<longrightarrow> length (a j) \<le> 512)"
      using True by (metis Suc_leD Suc_leI le_neq_implies_less)
    show ?thesis unfolding i(2) using rd s IH by (simp add: u all) (simp add: q1_def)
  qed
qed

section \<open>A super frame with equal error protection\<close>

definition frame_start :: "(u8 \<times> u8 list) list \<Rightarrow> nat \<Rightarrow> nat" where
  "frame_start fr j = length (concat (map snd (take j fr)))"

definition eep_header :: "(u8 \<times> u8 list) list \<Rightarrow> u8 list" where
  "eep_header fr = concat (map (\<lambda>j. field_bits 12 (frame_start fr j)) [1 ..< length fr])
     @ (if length fr = 10 then field_bits 4 0 else [])"

definition eep_bits :: "(u8 \<times> u8 list) list \<Rightarrow> u8 list" where
  "eep_bits fr = eep_header fr @ bytes_bits (map fst fr @ concat (map snd fr))"

definition eep_size :: "stream_desc \<Rightarrow> (u8 \<times> u8 list) list \<Rightarrow> nat" where
  "eep_size s fr = nat (header_length (length fr)) + length fr + frame_start fr (length fr) + (if textFlag s = 0 then 0 else 4)"

definition aac_ok :: "'h aac \<Rightarrow> bool" where
  "aac_ok p = (length (frames p) = 20 \<and> list_all (\<lambda>f. length (audio f) = 512) (frames p) \<and> message_ok (a_messages p))"

lemma frame_start_Suc: "j < length fr \<Longrightarrow> frame_start fr (Suc j) = frame_start fr j + length (snd (fr ! j))"
  by (simp add: frame_start_def take_Suc_conv_app_nth)

lemma frame_start_mono: "i \<le> j \<Longrightarrow> frame_start fr i \<le> frame_start fr j"
proof -
  assume "i \<le> j"
  then have "take j fr = take i fr @ take (j - i) (drop i fr)" by (metis le_add_diff_inverse take_add)
  then show ?thesis by (simp add: frame_start_def)
qed

lemma drop_frame_start:
  "j < length fr \<Longrightarrow> drop (frame_start fr j) (concat (map snd fr)) = snd (fr ! j) @ concat (map snd (drop (Suc j) fr))"
proof -
  assume j: "j < length fr"
  have "fr = take j fr @ fr ! j # drop (Suc j) fr" using j by (rule id_take_nth_drop)
  then have "concat (map snd fr) = concat (map snd (take j fr)) @ snd (fr ! j) @ concat (map snd (drop (Suc j) fr))"
    by (metis concat.simps(2) concat_append list.simps(9) map_append)
  then show ?thesis by (simp add: frame_start_def)
qed

lemma length_fields: "length (concat (map (\<lambda>j. field_bits 12 (g j)) js)) = 12 * length js"
  by (induction js) simp_all

lemma length_eep_header:
  "length fr = 5 \<or> length fr = 10 \<Longrightarrow> length (eep_header fr) = 8 * nat (header_length (length fr))"
  by (auto simp: eep_header_def header_length_def length_fields simp del: length_concat)

lemma drop_fields: "j < length js \<Longrightarrow>
  \<exists>post'. drop (12 * j) (concat (map (\<lambda>j. field_bits 12 (g j)) js)) @ post = field_bits 12 (g (js ! j)) @ post'"
proof (induction js arbitrary: j)
  case (Cons x js)
  then show ?case by (cases j) auto
qed simp

lemma read_byte:
  assumes "bits v" "drop (8 * k) v = bytes_bits B @ post" "k + length B \<le> 4095" "i < length B"
  shows "get_MSCBits v (int (k + i) * 8) 8 = Some (unat (B ! i))"
proof -
  have "drop (8 * (k + i)) v = drop (8 * i) (drop (8 * k) v)" by (simp add: add.commute distrib_left)
  also have "\<dots> = bytes_bits (drop i B) @ post" unfolding assms(2) by (rule drop_bytes_bits) (use assms(4) in simp)
  finally have "drop (8 * (k + i)) v = field_bits 8 (unat (B ! i)) @ bytes_bits (drop (Suc i) B) @ post"
    using assms(4) by (simp add: Cons_nth_drop_Suc [symmetric] byte_bits_field)
  moreover have "unat (B ! i) < 2 ^ 8" using unsigned_less [where ?'a = nat, of "B ! i"] by simp
  ultimately have "get_MSCBits v (int (8 * (k + i))) 8 = Some (unat (B ! i))"
    using assms by (intro get_MSCBits_field) simp_all
  then show ?thesis by (simp add: mult.commute)
qed

lemma read_bytes_take:
  assumes "bits v" "drop (8 * k) v = bytes_bits B @ post" "k + length B \<le> 4095"
  shows "i + m \<le> length B \<Longrightarrow> read_bytes v (int (k + i)) m = Some (take m (drop i B))"
proof (induction m arbitrary: i)
  case (Suc m)
  then have i: "i < length B" by simp
  have "read_bytes v (int (k + i) + 1) m = Some (take m (drop (Suc i) B))"
    using Suc.IH [of "Suc i"] Suc.prems by (simp add: add.commute add.left_commute)
  moreover have "take (Suc m) (drop i B) = B ! i # take m (drop (Suc i) B)"
    using i by (simp add: Cons_nth_drop_Suc [symmetric])
  ultimately show ?case using read_byte [OF assms i] by simp
qed simp

text \<open>The frames that are played.\<close>

lemma play_frame_units:
  "0 \<le> frame_length f \<Longrightarrow> frame_length f \<le> 512 \<Longrightarrow>
   \<exists>q. play_frame D f p = Some q \<and> a_units q = a_units p @ [frame_unit f] \<and> frames q = frames p \<and> a_messages q = a_messages p"
  by (simp add: play_frame_def aac_decodeFrame_def aac_signal_def Let_def split: prod.splits option.splits)

lemma play_frames_units:
  "list_all (\<lambda>f. 0 \<le> frame_length f \<and> frame_length f \<le> 512) fs \<Longrightarrow>
   \<exists>q. play_frames D fs p = Some q \<and> a_units q = a_units p @ map frame_unit fs \<and> frames q = frames p \<and> a_messages q = a_messages p"
proof (induction fs arbitrary: p)
  case (Cons f fs)
  then obtain p1 where p1: "play_frame D f p = Some p1" "a_units p1 = a_units p @ [frame_unit f]" "frames p1 = frames p"
    "a_messages p1 = a_messages p"
    using play_frame_units [of f D p] by auto
  then show ?case using Cons.IH [of p1] Cons.prems by auto
qed simp

text \<open>Up to the copy of the audio: the frames as far as the header and the check bytes give them.\<close>

lemma eep_loaded:
  assumes st: "stream_at st mscIndex = Some s" and fr: "length fr = numFrames_for s"
    and v: "bits v" "drop (8 * k) v = eep_bits fr @ post" "k + eep_size s fr \<le> 4095" "8 * (k + eep_size s fr) \<le> length v"
    and ok: "aac_ok p"
  shows "\<exists>p'. process_aac D st v mscIndex startHigh 0 (int k) (int (eep_size s fr)) p
      = do { p \<leftarrow> read_audio v (int k + header_length (length fr) + int (length fr)) [0 ..< length fr] p';
             aac_playOut D s (length fr) p }
    \<and> aac_ok p' \<and> a_units p' = a_units p
    \<and> (\<forall>j < length fr. startPos (frames p' ! j) = int (frame_start fr j)
         \<and> frame_length (frames p' ! j) = int (length (snd (fr ! j))) \<and> aac_crc (frames p' ! j) = fst (fr ! j)
         \<and> read_bytes v (int k + header_length (length fr) + int (length fr) + startPos (frames p' ! j))
             (nat (frame_length (frames p' ! j))) = Some (snd (fr ! j)))"
proof -
  define n where "n = length fr"
  note nd = n_def [symmetric]
  have nn: "numFrames_for s = n" using fr by (simp add: n_def)
  have n: "n = 5 \<or> n = 10" using fr by (simp add: n_def numFrames_for_def)
  define hl where "hl = nat (header_length n)"
  have hl: "header_length n = int hl" "length (eep_header fr) = 8 * hl"
    using n length_eep_header [of fr] by (auto simp: hl_def header_length_def n_def)
  have fits: "12 * (j - 1) \<le> 8 * hl" if "j < n" for j
    using that n by (auto simp: hl_def header_length_def)
  define load where "load = frame_start fr n"
  define len where "len = int (hl + n + load)"
  have size: "eep_size s fr = hl + n + load + (if textFlag s = 0 then 0 else 4)" by (simp add: eep_size_def hl_def load_def n_def)
  define B where "B = map fst fr @ concat (map snd fr)"
  have B: "length B = n + load" "drop (8 * (k + hl)) v = bytes_bits B @ post"
  proof -
    show "length B = n + load" by (simp add: B_def n_def load_def frame_start_def)
    have "drop (8 * (k + hl)) v = drop (8 * hl) (drop (8 * k) v)" by (simp add: add.commute distrib_left)
    then show "drop (8 * (k + hl)) v = bytes_bits B @ post" unfolding v(2) by (simp add: eep_bits_def hl(2) B_def)
  qed
  have kB: "k + hl + length B \<le> 4095" using v(3) size B(1) by simp
  have small: "frame_start fr j \<le> load" if "j \<le> n" for j using frame_start_mono [OF that, of fr] by (simp add: load_def)
  obtain m where msg: "(if textFlag s \<noteq> 0
      then do { m \<leftarrow> processMessage v (to_int16 ((int k + int (eep_size s fr) - 4) * 8)) (a_messages p);
                Some (int (eep_size s fr) - 4, p\<lparr>a_messages := m\<rparr>) }
      else Some (int (eep_size s fr), p)) = Some (len, p\<lparr>a_messages := m\<rparr>)" "message_ok m"
  proof (cases "textFlag s = 0")
    case True
    then show ?thesis using that [of "a_messages p"] ok by (simp add: size len_def aac_ok_def)
  next
    case False
    then have sz: "int (eep_size s fr) = len + 4" by (simp add: size len_def)
    have pos: "to_int16 ((int k + len) * 8) = (int k + len) * 8"
      by (rule to_int16_nonneg) (use v(3) sz in \<open>simp_all add: len_def\<close>)
    obtain m where "processMessage v ((int k + len) * 8) (a_messages p) = Some m" "message_ok m"
      using processMessage_ok [of "a_messages p" "(int k + len) * 8" v] v(4) sz ok by (auto simp: len_def aac_ok_def)
    moreover have "to_int16 ((int k + int (eep_size s fr) - 4) * 8) = (int k + len) * 8"
      using pos by (simp add: sz add.assoc [symmetric])
    moreover have "int (eep_size s fr) - 4 = len" by (simp add: sz)
    ultimately show ?thesis using that [of m] False by (simp only: if_True simp_thms bind.bind_lunit)
  qed
  have start: "get_MSCBits v (int k * 8 + 12 * (int j - 1)) 12 = Some (frame_start fr j)" if j: "1 \<le> j" "j < n" for j
  proof -
    obtain post' where p': "drop (12 * (j - 1)) (concat (map (\<lambda>j. field_bits 12 (frame_start fr j)) [1 ..< n]))
        @ (if n = 10 then field_bits 4 0 else []) @ bytes_bits B @ post = field_bits 12 (frame_start fr j) @ post'"
    proof -
      have jl: "j - 1 < length [1 ..< n]" and e: "[1 ..< n] ! (j - 1) = j" using j by simp_all
      show ?thesis using drop_fields [OF jl, of "frame_start fr"] that unfolding e by blast
    qed
    have "drop (8 * k + 12 * (j - 1)) v = drop (12 * (j - 1)) (drop (8 * k) v)" by (simp add: add.commute)
    also have "\<dots> = field_bits 12 (frame_start fr j) @ post'"
    proof -
      have "length (concat (map (\<lambda>j. field_bits 12 (frame_start fr j)) [1 ..< n])) = 12 * (n - 1)"
        unfolding length_fields by simp
      then show ?thesis unfolding v(2) p' [symmetric] using j by (simp add: eep_bits_def eep_header_def nd B_def)
    qed
    finally have here: "drop (8 * k + 12 * (j - 1)) v = field_bits 12 (frame_start fr j) @ post'" .
    have "get_MSCBits v (int (8 * k + 12 * (j - 1))) 12 = Some (frame_start fr j)"
    proof (rule get_MSCBits_field [OF v(1) _ _ _ here])
      show "(0::nat) < 12" "(12::nat) \<le> 16" by simp_all
      show "8 * k + 12 * (j - 1) < 2 ^ 15" using v(3) size fits [OF j(2)] by simp
      show "frame_start fr j < 2 ^ 12" using v(3) size small [of j] j by simp
    qed
    moreover have "int k * 8 + 12 * (int j - 1) = int (8 * k + 12 * (j - 1))" using j(1) by (simp add: of_nat_diff)
    ultimately show ?thesis by (simp only:)
  qed
  define p0 where "p0 = p\<lparr>a_messages := m, frames := (frames p)[0 := (frames p ! 0)\<lparr>startPos := 0\<rparr>]\<rparr>"
  define p1 where "p1 = p0\<lparr>frames := upd_range 1 n (\<lambda>j f. f\<lparr>startPos := int (frame_start fr j)\<rparr>) (frames p0)\<rparr>"
  have l20: "length (frames p) = 20" "n \<le> 20" using ok n by (auto simp: aac_ok_def)
  have r1: "read_starts v (int k) [1 ..< n] p0 = Some p1"
    unfolding p1_def by (rule read_starts_eq) (use start n l20 in \<open>auto simp: p0_def\<close>)
  have sp1: "startPos (frames p1 ! j) = int (frame_start fr j)" if "j < n" for j
    using that l20 by (cases j) (simp_all add: p1_def p0_def frame_start_def)
  define p2 where "p2 = p1\<lparr>frames := upd_range 0 (n - 1) (\<lambda>j f. f\<lparr>frame_length := startPos (frames p1 ! Suc j) - startPos (frames p1 ! j)\<rparr>) (frames p1)\<rparr>"
  have diff: "startPos (frames p1 ! j) - startPos (frames p1 ! (j - 1)) = int (length (snd (fr ! (j - 1))))" if "1 \<le> j" "j < n" for j
    using sp1 [of j] sp1 [of "j - 1"] frame_start_Suc [of "j - 1" fr] that by (simp add: n_def)
  have r2: "frame_lengths len [1 ..< n] 0 p1 = Some (Some (int (frame_start fr (n - 1))), p2)"
  proof -
    have "0 \<le> startPos (frames p1 ! j) - startPos (frames p1 ! (j - 1)) \<and> startPos (frames p1 ! j) - startPos (frames p1 ! (j - 1)) < len"
      if "1 \<le> j" "j < n" for j
      using diff [OF that] frame_start_Suc [of "j - 1" fr] small [of j] that n by (auto simp: len_def n_def)
    from frame_lengths_eq [of 1 n p1 len 0, OF _ _ _ this] show ?thesis
      using n l20 sp1 [of "n - 1"] sp1 [of 0] by (auto simp: p2_def p1_def p0_def frame_start_def)
  qed
  define l where "l = len - (header_length n + int n) - int (frame_start fr (n - 1))"
  have l: "l = int (length (snd (fr ! (n - 1))))" "0 \<le> l"
  proof -
    have "frame_start fr n = frame_start fr (n - 1) + length (snd (fr ! (n - 1)))"
      using frame_start_Suc [of "n - 1" fr] n by (auto simp: n_def)
    then show "l = int (length (snd (fr ! (n - 1))))" by (simp add: l_def len_def load_def hl(1))
    then show "0 \<le> l" by simp
  qed
  define p3 where "p3 = p2\<lparr>frames := (frames p2)[n - 1 := (frames p2 ! (n - 1))\<lparr>frame_length := l\<rparr>]\<rparr>"
  define p4 where "p4 = p3\<lparr>frames := upd_range 0 n (\<lambda>j f. f\<lparr>aac_crc := of_nat (unat (B ! j))\<rparr>) (frames p3)\<rparr>"
  have r3: "read_crcs v (int k + int hl) [0 ..< n] p3 = Some p4"
    unfolding p4_def
  proof (rule read_crcs_eq)
    show "get_MSCBits v ((int k + int hl + int j) * 8) 8 = Some (unat (B ! j))" if "0 \<le> j" "j < n" for j
      using read_byte [OF v(1) B(2) kB, of j] that B(1) by simp
  qed (use l20 in \<open>simp_all add: p3_def p2_def p1_def p0_def\<close>)
  have len1: "length (frames p1) = 20" using l20 by (simp add: p1_def p0_def)
  have p4: "startPos (frames p4 ! j) = int (frame_start fr j)" "frame_length (frames p4 ! j) = int (length (snd (fr ! j)))"
    "aac_crc (frames p4 ! j) = fst (fr ! j)" if "j < n" for j
  proof -
    have "B ! j = fst (fr ! j)" using that by (simp add: B_def nth_append n_def)
    moreover have "frame_length (frames p3 ! j) = int (length (snd (fr ! j)))"
    proof (cases "j = n - 1")
      case True
      then show ?thesis using l(1) that len1 l20 by (simp add: p3_def p2_def)
    next
      case False
      then have "Suc j < n" "j < n - 1" using that by simp_all
      then show ?thesis using diff [of "Suc j"] len1 l20 by (simp add: p3_def p2_def)
    qed
    moreover have "startPos (frames p3 ! j) = int (frame_start fr j)"
      using sp1 [OF that] that len1 l20 by (simp add: p3_def p2_def nth_list_update)
    ultimately show "startPos (frames p4 ! j) = int (frame_start fr j)" "frame_length (frames p4 ! j) = int (length (snd (fr ! j)))"
      "aac_crc (frames p4 ! j) = fst (fr ! j)"
      using that l20 len1 by (simp_all add: p4_def p3_def p2_def)
  qed
  have audio: "read_bytes v (int k + int hl + int n + startPos (frames p4 ! j)) (nat (frame_length (frames p4 ! j))) = Some (snd (fr ! j))"
    if j: "j < n" for j
  proof -
    have "n + frame_start fr j + length (snd (fr ! j)) \<le> length B"
      using small [of "Suc j"] frame_start_Suc [of j fr] j B(1) by (simp add: n_def)
    then have "read_bytes v (int (k + hl + (n + frame_start fr j))) (length (snd (fr ! j)))
        = Some (take (length (snd (fr ! j))) (drop (n + frame_start fr j) B))"
      by (intro read_bytes_take [OF v(1) B(2) kB]) simp
    moreover have "drop (n + frame_start fr j) B = snd (fr ! j) @ concat (map snd (drop (Suc j) fr))"
      using drop_frame_start [of j fr] j by (simp add: B_def n_def)
    ultimately show ?thesis using p4 [OF j] by (simp add: add.assoc)
  qed
  have "aac_ok p4"
  proof -
    have "length (audio (frames p4 ! j)) = length (audio (frames p ! j))" if "j < 20" for j
      using that l20 by (auto simp: p4_def p3_def p2_def p1_def p0_def nth_list_update)
    then show ?thesis using ok msg(2) l20 by (simp add: aac_ok_def list_all_length p4_def p3_def p2_def p1_def p0_def)
  qed
  moreover have "a_units p4 = a_units p" by (simp add: p4_def p3_def p2_def p1_def p0_def)
  moreover have "process_aac D st v mscIndex startHigh 0 (int k) (int (eep_size s fr)) p
      = do { p \<leftarrow> read_audio v (int k + header_length n + int n) [0 ..< n] p4; aac_playOut D s n p }"
  proof -
    have s0: "set_frame 0 (\<lambda>f. Some (f\<lparr>startPos := 0\<rparr>)) (p\<lparr>a_messages := m\<rparr>) = Some p0"
      by (simp add: set_frame_def p0_def)
    have s3: "set_frame (n - 1) (\<lambda>f. Some (f\<lparr>frame_length := l\<rparr>)) p2 = Some p3"
      by (simp add: set_frame_def p3_def)
    show ?thesis
      unfolding process_aac_def handle_eep_audio_def
      using st msg(1) s0 r1 r2 s3 r3 l(2) by (simp add: nn Let_def hl(1) l_def)
  qed
  ultimately show ?thesis using p4 audio unfolding nd hl(1) by (intro exI [of _ p4]) simp
qed

text \<open>
  C7. An audio super frame with equal error protection, encoded as the table of start positions, the check bytes
  and the frames, is played frame by frame: each of the 5 or 10 access units reaches the audio library once, in
  order, with its check byte first. When a frame has more than the 512 bytes of its array the
  code writes beyond the array (the model has no result).
\<close>

theorem eep_superframe:
  assumes "stream_at st mscIndex = Some s" "length fr = numFrames_for s"
    and "bits v" "drop (8 * k) v = eep_bits fr @ post" "k + eep_size s fr \<le> 4095" "8 * (k + eep_size s fr) \<le> length v"
    and "aac_ok p"
  shows "if list_all (\<lambda>(c, a). length a \<le> 512) fr
    then \<exists>q. process_aac D st v mscIndex startHigh 0 (int k) (int (eep_size s fr)) p = Some q
        \<and> a_units q = a_units p @ map (\<lambda>(c, a). c # a) fr
    else process_aac D st v mscIndex startHigh 0 (int k) (int (eep_size s fr)) p = None"
proof -
  let ?n = "length fr" and ?l = "int k + header_length (length fr) + int (length fr)"
  obtain p' where p': "process_aac D st v mscIndex startHigh 0 (int k) (int (eep_size s fr)) p
      = do { p \<leftarrow> read_audio v ?l [0 ..< ?n] p'; aac_playOut D s ?n p }" "aac_ok p'" "a_units p' = a_units p"
    and fs: "\<forall>j < ?n. startPos (frames p' ! j) = int (frame_start fr j)
         \<and> frame_length (frames p' ! j) = int (length (snd (fr ! j))) \<and> aac_crc (frames p' ! j) = fst (fr ! j)
         \<and> read_bytes v (?l + startPos (frames p' ! j)) (nat (frame_length (frames p' ! j))) = Some (snd (fr ! j))"
    using eep_loaded [OF assms] by blast
  have n: "?n \<le> length (frames p')" using assms(2) p'(2) by (simp add: aac_ok_def numFrames_for_def)
  have audio: "read_audio v ?l [0 ..< ?n] p' =
      (if \<forall>j. 0 \<le> j \<and> j < ?n \<longrightarrow> length (snd (fr ! j)) \<le> 512
       then Some (p'\<lparr>frames := upd_range 0 ?n (\<lambda>j f. f\<lparr>audio := blit 0 (snd (fr ! j)) (audio f)\<rparr>) (frames p')\<rparr>) else None)"
  proof (rule read_audio_eq)
    show "read_bytes v (?l + startPos (frames p' ! j)) (nat (frame_length (frames p' ! j))) = Some (snd (fr ! j))" if "j < ?n" for j
      using fs that by blast
  qed (use n p'(2) in \<open>simp_all add: aac_ok_def\<close>)
  have small: "list_all (\<lambda>(c, a). length a \<le> 512) fr \<longleftrightarrow> (\<forall>j. 0 \<le> j \<and> j < ?n \<longrightarrow> length (snd (fr ! j)) \<le> 512)"
    by (simp add: list_all_length case_prod_beta)
  have "process_aac D st v mscIndex startHigh 0 (int k) (int (eep_size s fr)) p = None"
    if "\<not> list_all (\<lambda>(c, a). length a \<le> 512) fr"
    using that audio p'(1) unfolding small by (simp only: if_False bind.bind_lzero)
  moreover have "\<exists>q. process_aac D st v mscIndex startHigh 0 (int k) (int (eep_size s fr)) p = Some q
      \<and> a_units q = a_units p @ map (\<lambda>(c, a). c # a) fr" if le: "list_all (\<lambda>(c, a). length a \<le> 512) fr"
  proof -
    define p5 where "p5 = p'\<lparr>frames := upd_range 0 ?n (\<lambda>j f. f\<lparr>audio := blit 0 (snd (fr ! j)) (audio f)\<rparr>) (frames p')\<rparr>"
    have p5: "read_audio v ?l [0 ..< ?n] p' = Some p5" unfolding p5_def by (rule trans [OF audio if_P [OF small [THEN iffD1, OF le]]])
    have frame: "frame_unit (frames p5 ! j) = fst (fr ! j) # snd (fr ! j)"
      "frame_length (frames p5 ! j) = int (length (snd (fr ! j)))" "length (snd (fr ! j)) \<le> 512" if "j < ?n" for j
      using that fs n le by (simp_all add: p5_def frame_unit_def blit_def list_all_length case_prod_beta)
    define p6 where "p6 = (let (config, h) = reinit D (audio_bytes s) (a_config p5, a_handle p5) in p5\<lparr>a_config := config, a_handle := h\<rparr>)"
    have p6: "frames p6 = frames p5" "a_units p6 = a_units p" using p'(3) by (simp_all add: p6_def p5_def split: prod.splits)
    have n5: "length (take ?n (frames p5)) = ?n" using n by (simp add: p5_def)
    have "list_all (\<lambda>f. 0 \<le> frame_length f \<and> frame_length f \<le> 512) (take ?n (frames p5))"
      unfolding list_all_length n5 using frame(2,3) by simp
    from play_frames_units [OF this, of D p6]
    obtain q where q: "play_frames D (take ?n (frames p5)) p6 = Some q" "a_units q = a_units p6 @ map frame_unit (take ?n (frames p5))"
      by blast
    moreover have "map frame_unit (take ?n (frames p5)) = map (\<lambda>(c, a). c # a) fr"
      by (rule nth_equalityI) (use n5 frame(1) in \<open>simp_all add: case_prod_beta\<close>)
    moreover have "aac_playOut D s ?n p5 = play_frames D (take ?n (frames p5)) p6"
      by (simp add: aac_playOut_def p6_def Let_def split: prod.splits)
    ultimately show ?thesis using p'(1) p5 p6(2) by simp
  qed
  ultimately show ?thesis by simp
qed

definition new_aac :: "nat aac" where
  "new_aac = \<lparr>frames = replicate 20 \<lparr>frame_length = 0, startPos = 0, aac_crc = 0, audio = replicate 512 0\<rparr>, a_config = [],
     a_handle = 0, a_messages = x_messages new_xheaac, a_outBuffer = replicate 7680 0, a_faad = [], a_units = [], a_written = []\<rparr>"

text \<open>The state of the witnesses has the stream 0 at the sampling rate of 12 kHz and no text message.\<close>

definition aac_stream :: stream_desc where
  "aac_stream = zero_stream\<lparr>audioSamplingRate := 1\<rparr>"

definition aac_state :: stateDescriptor where
  "aac_state = blank_state\<lparr>streams := replicate 4 aac_stream\<rparr>"

lemma witness_facts:
  "aac_ok new_aac" "stream_at aac_state 0 = Some aac_stream" "numFrames_for aac_stream = 5" "textFlag aac_stream = 0"
  "length (streams aac_state) = 4"
  by (simp_all add: aac_ok_def new_aac_def new_xheaac_def message_ok_def stream_at_def aac_state_def aac_stream_def
      numFrames_for_def zero_stream_def list_all_iff)

theorem eep_superframe_witness:
  "\<exists>q. process_aac mute_decoder aac_state (eep_bits [(1, [10]), (2, [20, 21]), (3, []), (4, [40]), (5, [50])]) 0 0 0 0 16 new_aac = Some q
    \<and> a_units q = [[1, 10], [2, 20, 21], [3], [4, 40], [5, 50]]"
proof -
  let ?fr = "[(1, [10]), (2, [20, 21]), (3, []), (4, [40]), (5, [50])] :: (u8 \<times> u8 list) list"
  have size: "eep_size aac_stream ?fr = 16" by (simp add: eep_size_def header_length_def frame_start_def witness_facts)
  have len: "length (eep_bits ?fr) = 128"
    using length_eep_header [of ?fr] by (simp add: eep_bits_def header_length_def)
  have "bits (eep_bits ?fr)" by (simp add: eep_bits_def eep_header_def onebit)
  then have "if list_all (\<lambda>(c, a). length a \<le> 512) ?fr
    then \<exists>q. process_aac mute_decoder aac_state (eep_bits ?fr) 0 0 0 (int 0) (int (eep_size aac_stream ?fr)) new_aac = Some q
        \<and> a_units q = a_units new_aac @ map (\<lambda>(c, a). c # a) ?fr
    else process_aac mute_decoder aac_state (eep_bits ?fr) 0 0 0 (int 0) (int (eep_size aac_stream ?fr)) new_aac = None"
    by (intro eep_superframe [where post = "[]"]) (simp_all add: witness_facts size len)
  then show ?thesis unfolding size by (simp add: new_aac_def)
qed

section \<open>Unequal error protection\<close>

text \<open>
  C38. A super frame with unequal error protection never gets to its frames: after the last loop the code asks for the
  text flag of stream \<open>i\<close>, where \<open>i\<close> is the number of frames, 5 or 10, and the state has four streams. What
  is read there lies outside the array; the stream meant is \<open>mscIndex\<close>, as in the other handler.
\<close>

theorem uep_reads_beyond_streams:
  assumes "length (streams st) = 4" "lenHigh \<noteq> 0"
  shows "process_aac D st v mscIndex startHigh lenHigh startLow lenLow p = None"
proof -
  have "stream_at st (numFrames_for s) = None" for s
    using assms(1) by (simp add: stream_at_def numFrames_for_def)
  then show ?thesis using assms(2)
    by (simp add: process_aac_def handle_uep_audio_def Let_def bind_eq_None_conv case_prod_beta)
qed

theorem uep_reads_beyond_streams_witness:
  "process_aac mute_decoder aac_state (replicate 800 0) 0 0 20 20 80 new_aac = None"
  by (rule uep_reads_beyond_streams) (simp_all add: witness_facts)

section \<open>The two channels\<close>

lemma copy_samples_eq:
  "2 * n \<le> length out \<Longrightarrow> length (copy_samples l r n local out) = length out
    \<and> (\<forall>i < n. copy_samples l r n local out ! (2 * i) = local ! l i \<and> copy_samples l r n local out ! (2 * i + 1) = local ! r i)"
proof (induction n)
  case (Suc n)
  then have IH: "length (copy_samples l r n local out) = length out"
    "i < n \<Longrightarrow> copy_samples l r n local out ! (2 * i) = local ! l i \<and> copy_samples l r n local out ! (2 * i + 1) = local ! r i" for i
    by simp_all
  have step: "copy_samples l r (Suc n) local out = (copy_samples l r n local out)[2 * n := local ! l n, 2 * n + 1 := local ! r n]"
    by (simp add: copy_samples_def)
  show ?case unfolding step using IH Suc.prems by (auto simp: less_Suc_eq nth_list_update)
qed (simp add: copy_samples_def)

text \<open>
  What the processors do with the two channels of a decoded frame, whose samples the library delivers in
  turn, left first: the AAC processor exchanges the two, and the xHE-AAC processor takes as right sample the element
  \<open>2 * i + i\<close> of the buffer instead of \<open>2 * i + 1\<close>, so that from the third sample on it is not the right channel.
\<close>

theorem stereo_channels:
  assumes "decode_unit D h False f = (h', Some r)" "numChannels r = 2" "2 * frameSize r \<le> length out" "i < frameSize r"
    and "a_handle p = h" "a_outBuffer p = out" "x_handle q = h" "x_outBuffer q = out" "x_convOK q"
  shows "a_outBuffer (snd (aac_decodeFrame D f p)) ! (2 * i) = localBuffer r ! (2 * i + 1)
    \<and> a_outBuffer (snd (aac_decodeFrame D f p)) ! (2 * i + 1) = localBuffer r ! (2 * i)
    \<and> x_outBuffer (snd (xheaac_decodeFrame D f q)) ! (2 * i) = localBuffer r ! (2 * i)
    \<and> x_outBuffer (snd (xheaac_decodeFrame D f q)) ! (2 * i + 1) = localBuffer r ! (3 * i)"
proof -
  note c = copy_samples_eq [OF assms(3)]
  have "a_outBuffer (snd (aac_decodeFrame D f p)) = copy_samples (\<lambda>i. 2 * i + 1) (\<lambda>i. 2 * i) (frameSize r) (localBuffer r)
      (copy_samples (\<lambda>i. 2 * i) (\<lambda>i. 2 * i + i) (frameSize r) (localBuffer r) out)"
    using assms by (simp add: aac_decodeFrame_def)
  moreover have "x_outBuffer (snd (xheaac_decodeFrame D f q)) = copy_samples (\<lambda>i. 2 * i) (\<lambda>i. 2 * i + i) (frameSize r) (localBuffer r) out"
    using assms by (simp add: xheaac_decodeFrame_def)
  moreover have "2 * frameSize r \<le> length (copy_samples (\<lambda>i. 2 * i) (\<lambda>i. 2 * i + i) (frameSize r) (localBuffer r) out)"
    using c assms(3) by simp
  note c2 = copy_samples_eq [OF this, of "\<lambda>i. 2 * i + 1" "\<lambda>i. 2 * i" "localBuffer r"]
  have right: "localBuffer r ! (2 * i + i) = localBuffer r ! (3 * i)" by (simp add: mult.commute [of 3])
  ultimately show ?thesis using c [of "\<lambda>i. 2 * i" "\<lambda>i. 2 * i + i" "localBuffer r"] c2 assms(4) unfolding right [symmetric] by auto
qed

definition stereo_pcm :: pcm where
  "stereo_pcm = \<lparr>numChannels = 2, frameSize = 3, sampleRate = 24000, localBuffer = [1, -1, 2, -2, 3, -3, 0, 0]\<rparr>"

definition stereo_decoder :: "nat aac_decoder" where
  "stereo_decoder = \<lparr>null_handle = \<lambda>h. False, configure_raw = \<lambda>h c. h, decode_unit = \<lambda>h b u. (h, Some stereo_pcm)\<rparr>"

theorem stereo_channels_witness:
  "a_outBuffer (snd (aac_decodeFrame stereo_decoder [1, 2] new_aac)) ! 4 = -3
    \<and> a_outBuffer (snd (aac_decodeFrame stereo_decoder [1, 2] new_aac)) ! 5 = 3
    \<and> x_outBuffer (snd (xheaac_decodeFrame stereo_decoder [1, 2] (new_xheaac\<lparr>x_outBuffer := replicate 7680 0, x_convOK := True\<rparr>))) ! 4 = 3
    \<and> x_outBuffer (snd (xheaac_decodeFrame stereo_decoder [1, 2] (new_xheaac\<lparr>x_outBuffer := replicate 7680 0, x_convOK := True\<rparr>))) ! 5 = 0"
  using stereo_channels [of stereo_decoder 0 "[1, 2]" 0 stereo_pcm "replicate 7680 0" 2 new_aac
      "new_xheaac\<lparr>x_outBuffer := replicate 7680 0, x_convOK := True\<rparr>"]
  by (simp add: stereo_decoder_def stereo_pcm_def new_aac_def new_xheaac_def)

end
