(* ===== verification/DrmBackend.thy ===== *)
theory DrmBackend
  imports DrmAac DrmReference RingBuf DrmMsc DrmDeinterleaver "HOL-Library.Sublist"
begin

text \<open>
  The back end of the DRM decoder (\<open>msc/msc-processor.cpp\<close>, \<open>msc/backend-controller.cpp\<close>,
  \<open>msc/msc-handler.cpp\<close>, \<open>data/data-processor.cpp\<close>) and the main loop that feeds it
  (\<open>drm-decoder.cpp\<close>): the data cells of the frames are collected into multiplexes, which are
  deinterleaved, decoded and handed to the audio processors. Built with the FDK library.
\<close>

section \<open>The data processor\<close>

text \<open>
  What the model takes from outside: the largest metric, the audio library and a new handle of it, and what
  memory holds that nobody has set, by its number of elements.
\<close>

record ('f, 'h) environment =
  metric_max :: 'f
  library :: "'h aac_decoder"
  open_handle :: "nat \<Rightarrow> 'h"
  bytes_memory :: "nat \<Rightarrow> u8 list"
  cells_memory :: "nat \<Rightarrow> 'f theSignal list"
  rows_memory :: "nat \<Rightarrow> nat \<Rightarrow> 'f theSignal list list"
  levels_memory :: "(u8 list \<times> u8 list \<times> u8 list) \<times> (u8 list \<times> u8 list \<times> u8 list)"

text \<open>The processors of a new data processor; what the functions keep as static variables stays.\<close>

definition new_dataProcessor :: "('f, 'h) environment \<Rightarrow> 'h aac \<times> 'h xheaac \<Rightarrow> 'h aac \<times> 'h xheaac" where
  "new_dataProcessor E = (\<lambda>(a, x).
     (a\<lparr>a_config := [], a_handle := open_handle E 2, a_messages := new_messageProcessor (a_messages a)\<rparr>,
      x\<lparr>x_config := [], x_handle := open_handle E 3, x_messages := new_messageProcessor (x_messages x),
        frameBuffer := [], borders := []\<rparr>))"

definition process_audio ::
  "('f, 'h) environment \<Rightarrow> stateDescriptor \<Rightarrow> u8 list \<Rightarrow> nat \<Rightarrow> int \<Rightarrow> int \<Rightarrow> int \<Rightarrow> int
     \<Rightarrow> 'h aac \<times> 'h xheaac \<Rightarrow> ('h aac \<times> 'h xheaac) option" where
  "process_audio E st v mscIndex startHigh lenHigh startLow lenLow = (\<lambda>(a, x).
     do { s \<leftarrow> stream_at st mscIndex;
          if audioCoding s = 0
          then do { a \<leftarrow> process_aac (library E) st v mscIndex startHigh lenHigh startLow lenLow a; Some (a, x) }
          else if audioCoding s = 1 \<or> audioCoding s = 2 then Some (a, x)
          else do { x \<leftarrow> process_usac (library E) st v mscIndex startHigh lenHigh startLow lenLow x; Some (a, x) } })"

text \<open>The streams from the given ones on, with the places of their parts; the first audio stream that is selected ends it.\<close>

fun data_streams ::
  "('f, 'h) environment \<Rightarrow> stateDescriptor \<Rightarrow> u8 list \<Rightarrow> nat list \<Rightarrow> int \<Rightarrow> int
     \<Rightarrow> 'h aac \<times> 'h xheaac \<Rightarrow> ('h aac \<times> 'h xheaac) option" where
  "data_streams E st v [] startPosA startPosB ax = Some ax"
| "data_streams E st v (i # is) startPosA startPosB ax =
     do { s \<leftarrow> stream_at st i;
          if soort s = AUDIO_STREAM \<and> getAudioChannel st = i
          then process_audio E st v i startPosA (lengthHigh s) startPosB (lengthLow s) ax
          else data_streams E st v is (to_int16 (startPosA + lengthHigh s)) (to_int16 (startPosB + lengthLow s)) ax }"

definition process_data ::
  "('f, 'h) environment \<Rightarrow> stateDescriptor \<Rightarrow> u8 list \<Rightarrow> 'h aac \<times> 'h xheaac \<Rightarrow> ('h aac \<times> 'h xheaac) option" where
  "process_data E st v ax =
     (if length (streams st) < numofStreams st then None
      else data_streams E st v [0 ..< numofStreams st] 0 (length_sum lengthHigh st) ax)"

section \<open>The MSC processor\<close>

datatype 'a cell_deInterleaver = Short deInterleaver | Long "'a deInterleaver_long"

text \<open>The handlers; the last is the base class, whose \<open>process\<close> does nothing.\<close>

datatype msc_handler = QAM64_SM QAM_handler | QAM16_SM QAM_handler | Base_handler

record ('f, 'h) mscProcessor =
  roulette :: nat
  muxsampleLength :: nat
  muxsampleBuf :: "'f theSignal list"
  tempBuffer :: "'f theSignal list"
  bufferP :: nat
  my_deInterleaver :: "'f theSignal cell_deInterleaver"
  my_mscHandler :: msc_handler
  my_dataProcessor :: "'h aac \<times> 'h xheaac"
  size_errors :: nat

definition new_handler :: "stateDescriptor \<Rightarrow> msc_handler option" where
  "new_handler st =
     (case QAMMode st of
        QAM64 \<Rightarrow> map_option QAM64_SM (new_QAM64_SM_Handler st)
      | QAM16 \<Rightarrow> map_option QAM16_SM (new_QAM16_SM_Handler st)
      | QAM4 \<Rightarrow> Some Base_handler)"

definition new_mscProcessor ::
  "('f, 'h) environment \<Rightarrow> nat \<Rightarrow> stateDescriptor \<Rightarrow> 'h aac \<times> 'h xheaac \<Rightarrow> ('f, 'h) mscProcessor option" where
  "new_mscProcessor E qam64Roulette st statics =
     (let n = nat (to_int16 (c_div (mscCells_of st) 3))
      in do { d \<leftarrow> (if 1 < interleaverDepth st
                   then map_option Long (new_deInterleaver_long n (nat (interleaverDepth st))
                          (rows_memory E (nat (interleaverDepth st)) n))
                   else map_option Short (new_deInterleaver n));
              h \<leftarrow> new_handler st;
              Some \<lparr>roulette = qam64Roulette, muxsampleLength = n, muxsampleBuf = cells_memory E n,
                tempBuffer = cells_memory E n, bufferP = 0, my_deInterleaver = d, my_mscHandler = h,
                my_dataProcessor = new_dataProcessor E statics, size_errors = 0\<rparr> })"

definition deInterleave_cells ::
  "'a cell_deInterleaver \<Rightarrow> 'a list \<Rightarrow> 'a list \<Rightarrow> 'a list \<times> 'a cell_deInterleaver" where
  "deInterleave_cells c inp out =
     (case c of
        Short d \<Rightarrow> (deInterleave d inp out, c)
      | Long d \<Rightarrow> (let (out, d) = deInterleave_long d inp out in (out, Long d)))"

text \<open>
  What a handler writes at the start of the data buffer: a bit for each of its bytes' bits, copied from its own
  decoded bits (\<open>None\<close> where these are fewer, lemma \<open>frame_out_length\<close>).
\<close>

definition handler_bits ::
  "('f::linordered_field, 'h) environment \<Rightarrow> nat \<Rightarrow> msc_handler \<Rightarrow> 'f theSignal list \<Rightarrow> u8 list option" where
  "handler_bits E qam64Roulette handler cells =
     (case handler of
        QAM64_SM h \<Rightarrow> process_64 (metric_max E) h qam64Roulette (levels_memory E) cells
      | QAM16_SM h \<Rightarrow>
          (let ((b0, b1, _), (l0, l1, _)) = levels_memory E
           in process_16 (metric_max E) h ((b0, b1), (l0, l1)) cells)
      | Base_handler \<Rightarrow> Some [])"

definition data_buffer :: "('f, 'h) environment \<Rightarrow> stateDescriptor \<Rightarrow> u8 list \<Rightarrow> u8 list option" where
  "data_buffer E st b =
     (let n = nat (dataLength st * 8 + 200)
      in if n < length b then None else Some (blit 0 b (bytes_memory E n)))"

text \<open>A multiplex that is complete.\<close>

definition run_mux ::
  "('f::linordered_field, 'h) environment \<Rightarrow> stateDescriptor \<Rightarrow> ('f, 'h) mscProcessor \<Rightarrow> ('f, 'h) mscProcessor option" where
  "run_mux E st w =
     (if dataLength st < 0 then Some (w\<lparr>bufferP := 0\<rparr>)
      else let (cells, d) = deInterleave_cells (my_deInterleaver w) (tempBuffer w) (muxsampleBuf w)
           in do { b \<leftarrow> handler_bits E (roulette w) (my_mscHandler w) cells;
                   v \<leftarrow> data_buffer E st b;
                   ax \<leftarrow> process_data E st v (my_dataProcessor w);
                   Some (w\<lparr>muxsampleBuf := cells, my_deInterleaver := d, my_dataProcessor := ax, bufferP := 0\<rparr>) })"

definition worker_addtoMux ::
  "('f::linordered_field, 'h) environment \<Rightarrow> stateDescriptor \<Rightarrow> 'f theSignal \<Rightarrow> ('f, 'h) mscProcessor
     \<Rightarrow> ('f, 'h) mscProcessor option" where
  "worker_addtoMux E st v w =
     (if length (tempBuffer w) \<le> bufferP w then None
      else let w = w\<lparr>tempBuffer := (tempBuffer w)[bufferP w := v], bufferP := bufferP w + 1\<rparr>
           in if muxsampleLength w \<le> bufferP w then run_mux E st w else Some w)"

definition worker_newFrame :: "('f, 'h) mscProcessor \<Rightarrow> ('f, 'h) mscProcessor" where
  "worker_newFrame w = w\<lparr>bufferP := 0\<rparr>"

text \<open>The end of a superframe: a wrong number of cells is reported.\<close>

definition worker_endofFrame :: "stateDescriptor \<Rightarrow> ('f, 'h) mscProcessor \<Rightarrow> ('f, 'h) mscProcessor" where
  "worker_endofFrame st w =
     (if mscCells_of st \<noteq> 3 * int (muxsampleLength w) + int (bufferP w)
      then w\<lparr>size_errors := size_errors w + 1, bufferP := 0\<rparr> else w\<lparr>bufferP := 0\<rparr>)"

section \<open>The back end controller\<close>

text \<open>
  \<open>statics\<close> are the audio processors as long as there is no worker; \<open>iqBuffer\<close> and \<open>iq_shown\<close> feed the display.
\<close>

record ('f, 'h) backendController =
  theWorker :: "('f, 'h) mscProcessor option"
  statics :: "'h aac \<times> 'h xheaac"
  iqBuffer :: "('f \<times> 'f) ringBuffer"
  iq_shown :: nat

definition backend_reset ::
  "('f, 'h) environment \<Rightarrow> stateDescriptor \<Rightarrow> ('f, 'h) backendController \<Rightarrow> ('f, 'h) backendController option" where
  "backend_reset E st b =
     (let s = (case theWorker b of None \<Rightarrow> statics b | Some w \<Rightarrow> my_dataProcessor w)
      in do { w \<leftarrow> new_mscProcessor E 4 st s; Some (b\<lparr>theWorker := Some w\<rparr>) })"

definition backend_newFrame ::
  "('f, 'h) environment \<Rightarrow> stateDescriptor \<Rightarrow> ('f, 'h) backendController \<Rightarrow> ('f, 'h) backendController option" where
  "backend_newFrame E st b =
     do { w \<leftarrow> (case theWorker b of None \<Rightarrow> new_mscProcessor E 4 st (statics b) | Some w \<Rightarrow> Some w);
          Some (b\<lparr>theWorker := Some (worker_newFrame w)\<rparr>) }"

definition backend_addtoMux ::
  "('f::linordered_field, 'h) environment \<Rightarrow> stateDescriptor \<Rightarrow> 'f theSignal \<Rightarrow> ('f, 'h) backendController
     \<Rightarrow> ('f, 'h) backendController option" where
  "backend_addtoMux E st v b =
     (case theWorker b of
        None \<Rightarrow> Some b
      | Some w \<Rightarrow>
          (let iq = snd (putDataIntoBuffer (iqBuffer b) [(sig_re v, sig_im v)] 1);
               b = b\<lparr>iqBuffer := iq, iq_shown := iq_shown b + (if 512 < GetRingBufferReadAvailable iq then 1 else 0)\<rparr>
           in do { w \<leftarrow> worker_addtoMux E st v w; Some (b\<lparr>theWorker := Some w\<rparr>) }))"

definition backend_endofFrame :: "stateDescriptor \<Rightarrow> ('f, 'h) backendController \<Rightarrow> ('f, 'h) backendController" where
  "backend_endofFrame st b = b\<lparr>theWorker := map_option (worker_endofFrame st) (theWorker b)\<rparr>"

section \<open>Frames\<close>

definition isFirstFrame :: "stateDescriptor \<Rightarrow> bool" where
  "isFirstFrame st = (frameIdentity st mod 4 = 0 \<or> frameIdentity st mod 4 = 3)"

definition isLastFrame :: "stateDescriptor \<Rightarrow> bool" where
  "isLastFrame st = (frameIdentity st mod 4 = 2)"

text \<open>
  The data cells of a frame. The array \<open>outbank\<close> of the code is made with a row for every symbol and a column for every
  carrier (\<open>drm-decoder.cpp\<close>, line 170), so that the places read here are within it; a grid of this size is what the
  properties of whole frames are meant for.
\<close>

definition cells_of :: "nat \<Rightarrow> nat \<Rightarrow> nat \<Rightarrow> 'f theSignal list list \<Rightarrow> 'f theSignal list" where
  "cells_of M sp blockno outbank =
     map (\<lambda>(symbol, carrier). outbank ! nat symbol ! nat (carrier - Kmin M sp)) (frame_cells M sp blockno)"

fun add_cells ::
  "('f::linordered_field, 'h) environment \<Rightarrow> stateDescriptor \<Rightarrow> 'f theSignal list \<Rightarrow> ('f, 'h) backendController
     \<Rightarrow> ('f, 'h) backendController option" where
  "add_cells E st [] b = Some b"
| "add_cells E st (v # vs) b = do { b \<leftarrow> backend_addtoMux E st v b; add_cells E st vs b }"

definition addtoSuperFrame ::
  "('f::linordered_field, 'h) environment \<Rightarrow> nat \<Rightarrow> nat \<Rightarrow> stateDescriptor \<Rightarrow> nat \<Rightarrow> 'f theSignal list list
     \<Rightarrow> ('f, 'h) backendController \<Rightarrow> ('f, 'h) backendController option" where
  "addtoSuperFrame E M sp st blockno outbank b =
     (if numofStreams st = 0 then Some b
      else do { b \<leftarrow> (if isFirstFrame st then backend_newFrame E st b else Some b);
                b \<leftarrow> add_cells E st (cells_of M sp blockno outbank) b;
                Some (if isLastFrame st then backend_endofFrame st b else b) })"

section \<open>The main loop\<close>

datatype sync_signal = FACSync bool | SDCSync bool

record ('f, 'h) decoder =
  service :: sdc_state
  backend :: "('f, 'h) backendController"
  blockCount :: nat
  superframer :: bool
  missers :: nat
  synced :: "sync_signal list"

text \<open>
  One round of the loop, from the frame in \<open>outbank\<close>; \<open>following\<close> is the frame the equalizer delivers after it. The
  result is a state, or the number that is thrown. The number 36, thrown when the equalizer delivers no frame (lines 336
  and 337, ``should not happen''), has no place here, as the loop runs over the frames that are delivered.
\<close>

definition first_frame ::
  "('f::linordered_field, 'h) environment \<Rightarrow> nat \<Rightarrow> nat \<Rightarrow> sdc_processor \<Rightarrow> 'f theSignal list list
     \<Rightarrow> ('f, 'h) decoder \<Rightarrow> ('f, 'h) decoder option" where
  "first_frame E M sp sdc outbank d =
     do { (sdcOK, s) \<leftarrow> processSDC (metric_max E) M sp sdc outbank (service d);
          b \<leftarrow> (if \<not> superframer d \<and> sdcOK then backend_reset E (theState s) (backend d) else Some (backend d));
          Some (d\<lparr>service := s, backend := b, synced := synced d @ [SDCSync sdcOK],
                  blockCount := (if sdcOK then 0 else blockCount d), superframer := sdcOK\<rparr>) }"

definition add_frame ::
  "('f::linordered_field, 'h) environment \<Rightarrow> nat \<Rightarrow> nat \<Rightarrow> 'f theSignal list list
     \<Rightarrow> ('f, 'h) decoder \<Rightarrow> ('f, 'h) decoder option" where
  "add_frame E M sp outbank d =
     (if superframer d
      then do { b \<leftarrow> addtoSuperFrame E M sp (theState (service d)) (blockCount d) outbank (backend d);
                Some (d\<lparr>backend := b, blockCount := blockCount d + 1\<rparr>) }
      else Some d)"

definition next_frame ::
  "('f::linordered_field, 'h) environment \<Rightarrow> nat \<Rightarrow> nat \<Rightarrow> 'f theSignal list list
     \<Rightarrow> ('f, 'h) decoder \<Rightarrow> nat + ('f, 'h) decoder" where
  "next_frame E M sp following d =
     (let (success, st) = processFAC (metric_max E) M sp following (theState (service d));
          d = d\<lparr>service := (service d)\<lparr>theState := st\<rparr>\<rparr>
      in if success then Inr (d\<lparr>synced := synced d @ [FACSync True], missers := 0\<rparr>)
         else let d = d\<lparr>synced := synced d @ [FACSync False, SDCSync False], superframer := False, missers := missers d + 1\<rparr>
              in if missers d \<le> 2 then Inr d else Inl 35)"

definition loop_round ::
  "('f::linordered_field, 'h) environment \<Rightarrow> nat \<Rightarrow> nat \<Rightarrow> sdc_processor \<Rightarrow> 'f theSignal list list
     \<Rightarrow> 'f theSignal list list \<Rightarrow> ('f, 'h) decoder \<Rightarrow> (nat + ('f, 'h) decoder) option" where
  "loop_round E M sp sdc outbank following d =
     do { d \<leftarrow> (if isFirstFrame (theState (service d)) then first_frame E M sp sdc outbank d else Some d);
          d \<leftarrow> add_frame E M sp outbank d;
          Some (next_frame E M sp following d) }"

fun main_loop ::
  "('f::linordered_field, 'h) environment \<Rightarrow> nat \<Rightarrow> nat \<Rightarrow> sdc_processor \<Rightarrow> 'f theSignal list list
     \<Rightarrow> 'f theSignal list list list \<Rightarrow> ('f, 'h) decoder \<Rightarrow> (nat + ('f, 'h) decoder) option" where
  "main_loop E M sp sdc outbank [] d = Some (Inr d)"
| "main_loop E M sp sdc outbank (following # later) d =
     do { r \<leftarrow> loop_round E M sp sdc outbank following d;
          case r of Inl e \<Rightarrow> Some (Inl e) | Inr d \<Rightarrow> main_loop E M sp sdc following later d }"

section \<open>Cell by cell and multiplex by multiplex\<close>

text \<open>The cells with the states in which they come in, and a whole multiplex at once.\<close>

fun add_worker ::
  "('f::linordered_field, 'h) environment \<Rightarrow> (stateDescriptor \<times> 'f theSignal) list \<Rightarrow> ('f, 'h) mscProcessor
     \<Rightarrow> ('f, 'h) mscProcessor option" where
  "add_worker E [] w = Some w"
| "add_worker E ((st, v) # ps) w = do { w \<leftarrow> worker_addtoMux E st v w; add_worker E ps w }"

definition multiplex ::
  "('f::linordered_field, 'h) environment \<Rightarrow> stateDescriptor \<Rightarrow> 'f theSignal list \<Rightarrow> ('f, 'h) mscProcessor
     \<Rightarrow> ('f, 'h) mscProcessor option" where
  "multiplex E st block w = run_mux E st (w\<lparr>tempBuffer := block, bufferP := length block\<rparr>)"

lemma add_worker_Nil [simp]: "add_worker E [] = Some"
  by (simp add: fun_eq_iff)

lemma add_worker_append: "add_worker E (ps @ qs) w = do { w \<leftarrow> add_worker E ps w; add_worker E qs w }"
  by (induction ps arbitrary: w) (auto split: bind_splits)

lemma add_cells_worker:
  "theWorker b = Some w \<Longrightarrow>
   map_option theWorker (add_cells E st vs b) = map_option Some (add_worker E (map (Pair st) vs) w)"
proof (induction vs arbitrary: b w)
  case (Cons v vs)
  then show ?case by (cases "worker_addtoMux E st v w") (simp_all add: backend_addtoMux_def Let_def)
qed simp

lemma run_mux_keeps:
  "run_mux E st w = Some w' \<Longrightarrow> muxsampleLength w' = muxsampleLength w \<and> tempBuffer w' = tempBuffer w \<and> bufferP w' = 0"
  by (auto simp: run_mux_def Let_def split: if_splits prod.splits bind_splits)

lemma add_worker_partial:
  "length (tempBuffer w) = muxsampleLength w \<Longrightarrow> bufferP w + length ps < muxsampleLength w \<Longrightarrow>
   add_worker E ps w = Some (w\<lparr>tempBuffer := blit (bufferP w) (map snd ps) (tempBuffer w), bufferP := bufferP w + length ps\<rparr>)"
proof (induction ps arbitrary: w)
  case Nil
  then show ?case by (simp add: blit_def)
next
  case (Cons p ps)
  obtain st v where p: "p = (st, v)" by (metis prod.exhaust)
  define w1 where "w1 = w\<lparr>tempBuffer := (tempBuffer w)[bufferP w := v], bufferP := bufferP w + 1\<rparr>"
  have "worker_addtoMux E st v w = Some w1" using Cons.prems by (simp add: worker_addtoMux_def w1_def Let_def)
  moreover have "add_worker E ps w1 = Some (w1\<lparr>tempBuffer := blit (bufferP w1) (map snd ps) (tempBuffer w1), bufferP := bufferP w1 + length ps\<rparr>)"
    by (rule Cons.IH) (use Cons.prems in \<open>simp_all add: w1_def\<close>)
  moreover have "blit (bufferP w + 1) (map snd ps) ((tempBuffer w)[bufferP w := v]) = blit (bufferP w) (v # map snd ps) (tempBuffer w)"
    using Cons.prems by (simp add: blit_def take_Suc_conv_app_nth)
  ultimately show ?case by (simp add: p) (simp add: w1_def)
qed

lemma add_worker_block:
  assumes "length (tempBuffer w) = muxsampleLength w" "bufferP w = 0" "length ps = muxsampleLength w" "ps \<noteq> []"
  shows "add_worker E ps w = multiplex E (fst (last ps)) (map snd ps) w"
proof -
  obtain qs st v where ps: "ps = qs @ [(st, v)]" using assms(4) by (metis append_butlast_last_id prod.exhaust)
  have "add_worker E qs w = Some (w\<lparr>tempBuffer := blit 0 (map snd qs) (tempBuffer w), bufferP := length qs\<rparr>)"
    using add_worker_partial [OF assms(1), of qs] assms(2,3) by (simp add: ps)
  moreover have "(blit 0 (map snd qs) (tempBuffer w))[length qs := v] = map snd ps"
  proof -
    have "length (drop (length qs) (tempBuffer w)) = 1" using assms(1,3) by (simp add: ps)
    then obtain x where "drop (length qs) (tempBuffer w) = [x]" by (metis One_nat_def length_0_conv length_Suc_conv)
    then show ?thesis by (simp add: ps blit_def list_update_append)
  qed
  ultimately show ?thesis
    using assms(1,3) by (simp add: ps add_worker_append worker_addtoMux_def Let_def multiplex_def blit_def)
qed

lemma multiplex_keeps:
  "multiplex E st block w = Some w' \<Longrightarrow> length block = muxsampleLength w \<Longrightarrow>
   muxsampleLength w' = muxsampleLength w \<and> length (tempBuffer w') = muxsampleLength w' \<and> bufferP w' = 0"
  using run_mux_keeps by (fastforce simp: multiplex_def)

text \<open>A superframe: three multiplexes and up to two cells more.\<close>

lemma add_worker_three:
  assumes ps: "ps = p1 @ p2 @ p3 @ rest"
    and w: "length (tempBuffer w) = muxsampleLength w" "muxsampleLength w = n" "bufferP w = 0" "0 < n"
    and len: "length p1 = n" "length p2 = n" "length p3 = n" "length rest < n"
  shows "add_worker E ps w =
    do { w \<leftarrow> multiplex E (fst (last p1)) (map snd p1) w;
         w \<leftarrow> multiplex E (fst (last p2)) (map snd p2) w;
         w \<leftarrow> multiplex E (fst (last p3)) (map snd p3) w;
         Some (w\<lparr>tempBuffer := blit 0 (map snd rest) (tempBuffer w), bufferP := length rest\<rparr>) }"
proof -
  have ne: "p1 \<noteq> []" "p2 \<noteq> []" "p3 \<noteq> []" using len w(4) by auto
  have 3: "add_worker E (p3 @ rest) w = do { w \<leftarrow> multiplex E (fst (last p3)) (map snd p3) w;
      Some (w\<lparr>tempBuffer := blit 0 (map snd rest) (tempBuffer w), bufferP := length rest\<rparr>) }"
    if "length (tempBuffer w) = muxsampleLength w" "muxsampleLength w = n" "bufferP w = 0" for w
  proof (cases "multiplex E (fst (last p3)) (map snd p3) w")
    case (Some u)
    then have "muxsampleLength u = n" "length (tempBuffer u) = n" "bufferP u = 0" using multiplex_keeps [of E _ _ w u] that len by simp_all
    then show ?thesis
      using add_worker_block [OF that(1,3), of p3 E] add_worker_partial [of u rest E] that(2) len ne Some
      by (simp add: add_worker_append)
  qed (use add_worker_block [OF that(1,3), of p3 E] that(2) len ne in \<open>simp add: add_worker_append\<close>)
  have 2: "add_worker E (p2 @ p3 @ rest) w = do { w \<leftarrow> multiplex E (fst (last p2)) (map snd p2) w; add_worker E (p3 @ rest) w }"
    if "length (tempBuffer w) = muxsampleLength w" "muxsampleLength w = n" "bufferP w = 0" for w
    using add_worker_block [OF that(1,3), of p2 E] that(2) len ne by (simp add: add_worker_append [of E p2])
  have 1: "add_worker E ps w = do { w \<leftarrow> multiplex E (fst (last p1)) (map snd p1) w; add_worker E (p2 @ p3 @ rest) w }"
    unfolding ps using add_worker_block [OF w(1,3), of p1 E] w(2) len ne by (simp add: add_worker_append [of E p1])
  show ?thesis
  proof (cases "multiplex E (fst (last p1)) (map snd p1) w")
    case (Some u)
    then have u: "length (tempBuffer u) = muxsampleLength u" "muxsampleLength u = n" "bufferP u = 0"
      using multiplex_keeps [of E _ _ w u] w(2) len by simp_all
    show ?thesis
    proof (cases "multiplex E (fst (last p2)) (map snd p2) u")
      case (Some t)
      then have "length (tempBuffer t) = muxsampleLength t" "muxsampleLength t = n" "bufferP t = 0"
        using multiplex_keeps [of E _ _ u t] u(2) len by simp_all
      from 3 [OF this] show ?thesis using 1 2 [OF u] Some \<open>multiplex E (fst (last p1)) (map snd p1) w = Some u\<close> by simp
    qed (use 1 2 [OF u] Some in simp)
  qed (use 1 in simp)
qed

section \<open>A superframe\<close>

definition counts_ok :: "nat \<times> nat \<Rightarrow> bool" where
  "counts_ok = (\<lambda>(M, sp). let n = mscCells M sp div 3; f = data_total M sp; a = mscCells M sp - 2 * f
     in a < n \<and> n \<le> a + f \<and> a + f < 2 * n \<and> 3 \<le> n \<and> a = f - sdc_total M sp)"

lemma superframe_counts_all:
  "list_all counts_ok [(1, 0), (1, 1), (1, 2), (1, 3), (1, 4), (2, 0), (2, 1), (2, 2), (2, 3), (2, 4), (3, 3)]"
  using sdc_totals data_totals_1 data_totals_2 data_totals_3 by (simp add: counts_ok_def mscCells_def)

lemma superframe_counts:
  fixes M sp defines "n \<equiv> nat (mscCells M sp div 3)"
  assumes "data_supported M sp"
  shows "length (frame_cells M sp 0) < n" "n \<le> length (frame_cells M sp 0) + length (frame_cells M sp 1)"
    "length (frame_cells M sp 0) + length (frame_cells M sp 1) < 2 * n" "3 \<le> n"
    "mscCells M sp = int (length (frame_cells M sp 0) + length (frame_cells M sp 1) + length (frame_cells M sp 2))"
proof -
  have "(M, sp) \<in> set [(1, 0), (1, 1), (1, 2), (1, 3), (1, 4), (2, 0), (2, 1), (2, 2), (2, 3), (2, 4), (3, 3)]"
    using assms(2) by (auto simp: data_supported_def)
  with superframe_counts_all have "counts_ok (M, sp)" unfolding list_all_iff by (rule bspec)
  then have c: "mscCells M sp - 2 * data_total M sp < mscCells M sp div 3"
    "mscCells M sp div 3 \<le> mscCells M sp - 2 * data_total M sp + data_total M sp"
    "mscCells M sp - 2 * data_total M sp + data_total M sp < 2 * (mscCells M sp div 3)" "3 \<le> mscCells M sp div 3"
    "mscCells M sp - 2 * data_total M sp = data_total M sp - sdc_total M sp"
    unfolding counts_ok_def Let_def prod.case by blast+
  have n: "int n = mscCells M sp div 3" using c(4) by (simp add: n_def)
  have l: "int (length (frame_cells M sp 0)) = mscCells M sp - 2 * data_total M sp"
    "int (length (frame_cells M sp 1)) = data_total M sp" "int (length (frame_cells M sp 2)) = data_total M sp"
    using length_first_frame [of M sp] length_frame_cells [of M sp 0] length_frame_cells [of M sp 1] c(5)
    by (simp_all add: numeral_2_eq_2)
  show "length (frame_cells M sp 0) < n" "n \<le> length (frame_cells M sp 0) + length (frame_cells M sp 1)"
    "length (frame_cells M sp 0) + length (frame_cells M sp 1) < 2 * n" "3 \<le> n"
    "mscCells M sp = int (length (frame_cells M sp 0) + length (frame_cells M sp 1) + length (frame_cells M sp 2))"
    using c n l by linarith+
qed

lemma length_cells_of [simp]: "length (cells_of M sp k outbank) = length (frame_cells M sp k)"
  by (simp add: cells_of_def)

lemma map_option_bind: "map_option g (x \<bind> h) = x \<bind> (\<lambda>y. map_option g (h y))"
  by (cases x) simp_all

lemma addtoSuperFrame_worker:
  assumes "theWorker b = Some w" "numofStreams st \<noteq> 0"
  shows "map_option theWorker (addtoSuperFrame E M sp st k outbank b)
    = map_option (\<lambda>w. Some (if isLastFrame st then worker_endofFrame st w else w))
        (add_worker E (map (Pair st) (cells_of M sp k outbank)) (if isFirstFrame st then worker_newFrame w else w))"
proof -
  define w1 where "w1 = (if isFirstFrame st then worker_newFrame w else w)"
  obtain b1 where b1: "(if isFirstFrame st then backend_newFrame E st b else Some b) = Some b1" "theWorker b1 = Some w1"
    using assms(1) by (cases "isFirstFrame st") (simp_all add: w1_def backend_newFrame_def)
  note a = add_cells_worker [OF b1(2), of E st "cells_of M sp k outbank"]
  then have "map_option theWorker (add_cells E st (cells_of M sp k outbank) b1)
      = map_option Some (add_worker E (map (Pair st) (cells_of M sp k outbank)) w1)" .
  then show ?thesis
    using assms(2) b1 unfolding w1_def [symmetric] addtoSuperFrame_def
    by (cases "add_cells E st (cells_of M sp k outbank) b1"; cases "add_worker E (map (Pair st) (cells_of M sp k outbank)) w1")
      (auto simp: backend_endofFrame_def)
qed

definition three_frames ::
  "('f::linordered_field, 'h) environment \<Rightarrow> nat \<Rightarrow> nat \<Rightarrow> stateDescriptor \<times> stateDescriptor \<times> stateDescriptor
     \<Rightarrow> 'f theSignal list list \<times> 'f theSignal list list \<times> 'f theSignal list list
     \<Rightarrow> ('f, 'h) backendController \<Rightarrow> ('f, 'h) backendController option" where
  "three_frames E M sp = (\<lambda>(st0, st1, st2) (o0, o1, o2) b.
     do { b \<leftarrow> addtoSuperFrame E M sp st0 0 o0 b;
          b \<leftarrow> addtoSuperFrame E M sp st1 1 o1 b;
          addtoSuperFrame E M sp st2 2 o2 b })"

definition superframe_cells ::
  "nat \<Rightarrow> nat \<Rightarrow> 'f theSignal list list \<times> 'f theSignal list list \<times> 'f theSignal list list \<Rightarrow> 'f theSignal list" where
  "superframe_cells M sp = (\<lambda>(o0, o1, o2). cells_of M sp 0 o0 @ cells_of M sp 1 o1 @ cells_of M sp 2 o2)"

lemma three_frames_worker:
  assumes w: "theWorker b = Some w"
    and "numofStreams st0 \<noteq> 0" "numofStreams st1 \<noteq> 0" "numofStreams st2 \<noteq> 0"
    and "isFirstFrame st0" "\<not> isLastFrame st0" "\<not> isFirstFrame st1" "\<not> isLastFrame st1" "\<not> isFirstFrame st2" "isLastFrame st2"
  shows "map_option theWorker (three_frames E M sp (st0, st1, st2) (o0, o1, o2) b)
    = map_option (\<lambda>w. Some (worker_endofFrame st2 w))
        (add_worker E (map (Pair st0) (cells_of M sp 0 o0) @ map (Pair st1) (cells_of M sp 1 o1) @ map (Pair st2) (cells_of M sp 2 o2))
          (worker_newFrame w))"
proof (cases "add_worker E (map (Pair st0) (cells_of M sp 0 o0)) (worker_newFrame w)")
  case None
  then show ?thesis
    using addtoSuperFrame_worker [OF w assms(2), of E M sp 0 o0] assms(5,6) by (simp add: three_frames_def add_worker_append)
next
  case (Some w1)
  then obtain b1 where b1: "addtoSuperFrame E M sp st0 0 o0 b = Some b1" "theWorker b1 = Some w1"
    using addtoSuperFrame_worker [OF w assms(2), of E M sp 0 o0] assms(5,6) by auto
  show ?thesis
  proof (cases "add_worker E (map (Pair st1) (cells_of M sp 1 o1)) w1")
    case None
    then show ?thesis
      using addtoSuperFrame_worker [OF b1(2) assms(3), of E M sp 1 o1] assms(7,8) b1(1) Some
      by (simp add: three_frames_def add_worker_append)
  next
    case (Some w2)
    then obtain b2 where b2: "addtoSuperFrame E M sp st1 1 o1 b1 = Some b2" "theWorker b2 = Some w2"
      using addtoSuperFrame_worker [OF b1(2) assms(3), of E M sp 1 o1] assms(7,8) by auto
    then show ?thesis
      using addtoSuperFrame_worker [OF b2(2) assms(4), of E M sp 2 o2] assms(9,10) b1(1) Some
        \<open>add_worker E (map (Pair st0) (cells_of M sp 0 o0)) (worker_newFrame w) = Some w1\<close>
      by (simp add: three_frames_def add_worker_append)
  qed
qed

text \<open>
  C2. The three frames of a superframe, added cell by cell to the back end, are the same as three multiplexes
  processed one after the other, each with the next third of the data cells of the superframe in
  the order of the cells: the first multiplex is complete within the second frame and the others within the
  third. One or two cells may be left; they are dropped, and the check at the end of the superframe
  finds the number of cells it expects. This holds for every supported mode and spectrum.
\<close>

theorem superframe_multiplexes:
  fixes M sp defines "n \<equiv> nat (mscCells M sp div 3)"
  assumes sup: "data_supported M sp"
    and w: "theWorker b = Some w" "muxsampleLength w = n" "length (tempBuffer w) = n"
    and st: "numofStreams st0 \<noteq> 0" "numofStreams st1 \<noteq> 0" "numofStreams st2 \<noteq> 0"
      "isFirstFrame st0" "\<not> isLastFrame st0" "\<not> isFirstFrame st1" "\<not> isLastFrame st1" "\<not> isFirstFrame st2" "isLastFrame st2"
      "mscCells_of st2 = mscCells M sp"
    and cs: "cs = superframe_cells M sp (o0, o1, o2)"
  shows "map_option theWorker (three_frames E M sp (st0, st1, st2) (o0, o1, o2) b) =
    do { w \<leftarrow> multiplex E st1 (take n cs) (w\<lparr>bufferP := 0\<rparr>);
         w \<leftarrow> multiplex E st2 (take n (drop n cs)) w;
         w \<leftarrow> multiplex E st2 (take n (drop (2 * n) cs)) w;
         Some (Some (w\<lparr>tempBuffer := blit 0 (drop (3 * n) cs) (tempBuffer w), bufferP := 0\<rparr>)) }"
proof -
  note counts = superframe_counts [OF sup, folded n_def]
  let ?p0 = "map (Pair st0) (cells_of M sp 0 o0)" and ?p1 = "map (Pair st1) (cells_of M sp 1 o1)"
    and ?p2 = "map (Pair st2) (cells_of M sp 2 o2)"
  define ps where "ps = ?p0 @ ?p1 @ ?p2"
  define f0 f1 f2 where f: "f0 = length (frame_cells M sp 0)" "f1 = length (frame_cells M sp 1)" "f2 = length (frame_cells M sp 2)"
  have cs_ps: "map snd ps = cs" by (simp add: ps_def cs superframe_cells_def comp_def)
  have len: "length ps = f0 + f1 + f2" "3 * n \<le> length ps" "length ps < 3 * n + 3" "int (length ps) = mscCells M sp"
  proof -
    show l: "length ps = f0 + f1 + f2" by (simp add: ps_def f)
    then show m: "int (length ps) = mscCells M sp" using counts(5) by (simp add: f)
    have "int n = mscCells M sp div 3" using m by (simp add: n_def pos_imp_zdiv_nonneg_iff flip: m)
    then have "n = length ps div 3" using m by presburger
    then show "3 * n \<le> length ps" "length ps < 3 * n + 3" by presburger+
  qed
  have n: "3 \<le> n" "f0 < n" "n \<le> f0 + f1" "f0 + f1 < 2 * n" using counts by (simp_all add: f n_def)
  have nth: "fst (ps ! i) = (if i < f0 then st0 else if i < f0 + f1 then st1 else st2)" if "i < length ps" for i
    using that len(1) by (auto simp: ps_def nth_append f)
  have split: "ps = take n ps @ take n (drop n ps) @ take n (drop (2 * n) ps) @ drop (3 * n) ps"
    by (metis append_take_drop_id drop_drop mult_2 add.commute numeral_3_eq_3 mult_Suc numeral_2_eq_2)
  have last: "fst (last (take n ps)) = st1" "fst (last (take n (drop n ps))) = st2" "fst (last (take n (drop (2 * n) ps))) = st2"
  proof -
    have lt: "last (take n xs) = xs ! (n - 1)" if "n \<le> length xs" for xs :: "(stateDescriptor \<times> 'a theSignal) list"
      using that n(1) last_conv_nth [of "take n xs"] by (cases "xs = []") auto
    show "fst (last (take n ps)) = st1" "fst (last (take n (drop n ps))) = st2" "fst (last (take n (drop (2 * n) ps))) = st2"
      using lt [of ps] lt [of "drop n ps"] lt [of "drop (2 * n) ps"] n len(1,2)
        nth [of "n - 1"] nth [of "n + (n - 1)"] nth [of "2 * n + (n - 1)"] by simp_all
  qed
  have add: "add_worker E ps (worker_newFrame w) =
    do { w \<leftarrow> multiplex E st1 (take n cs) (worker_newFrame w);
         w \<leftarrow> multiplex E st2 (take n (drop n cs)) w;
         w \<leftarrow> multiplex E st2 (take n (drop (2 * n) cs)) w;
         Some (w\<lparr>tempBuffer := blit 0 (drop (3 * n) cs) (tempBuffer w), bufferP := length (drop (3 * n) ps)\<rparr>) }"
    using add_worker_three [OF split, of "worker_newFrame w" n E] w n len
    by (simp add: last worker_newFrame_def take_map [symmetric] drop_map [symmetric] cs_ps)
  show ?thesis
    unfolding three_frames_worker [OF w(1) st(1-9)] ps_def [symmetric] add
    using st(10) len n w(2)
    by (auto simp: worker_newFrame_def worker_endofFrame_def map_option_bind multiplex_def dest!: run_mux_keeps split: bind_splits)
qed

text \<open>For the witnesses: data only, mode C with 1844 cells in a multiplex, and cells that are zero.\<close>

definition example_env :: "(rat, nat) environment" where
  "example_env = \<lparr>metric_max = 1, library = mute_decoder, open_handle = \<lambda>k. k, bytes_memory = \<lambda>n. replicate n 0,
     cells_memory = \<lambda>n. replicate n \<lparr>sig_re = 0, sig_im = 0, rTrans = 0\<rparr>,
     rows_memory = \<lambda>k n. replicate k (replicate n \<lparr>sig_re = 0, sig_im = 0, rTrans = 0\<rparr>),
     levels_memory = (([], [], []), ([], [], []))\<rparr>"

definition example_frame :: "int \<Rightarrow> stateDescriptor" where
  "example_frame k = blank_state\<lparr>numofStreams := 1, frameIdentity := k, mscCells_of := 5532,
     streams := replicate 4 (zero_stream\<lparr>soort := DATA_STREAM\<rparr>)\<rparr>"

definition example_worker :: "msc_handler \<Rightarrow> (rat, nat) mscProcessor" where
  "example_worker h = \<lparr>roulette = 4, muxsampleLength = 1844, muxsampleBuf = cells_memory example_env 1844,
     tempBuffer = cells_memory example_env 1844, bufferP = 0, my_deInterleaver = Short \<lparr>Length = 1844, mapper_table = []\<rparr>,
     my_mscHandler = h, my_dataProcessor = (new_aac, new_xheaac), size_errors = 0\<rparr>"

definition example_backend :: "(rat, nat) backendController" where
  "example_backend = \<lparr>theWorker = Some (example_worker Base_handler), statics = (new_aac, new_xheaac),
     iqBuffer = new_RingBuffer 1024 (replicate 2048 (0, 0)), iq_shown = 0\<rparr>"

definition example_grid :: "rat theSignal list list" where
  "example_grid = replicate (nat (symbolsperFrame 3)) (cells_memory example_env (nat (Kmax 3 3 - Kmin 3 3 + 1)))"

lemma example_multiplex:
  assumes "my_mscHandler w = Base_handler" "my_deInterleaver w = Short d"
  shows "\<exists>w'. multiplex example_env (example_frame k) block w = Some w' \<and> my_mscHandler w' = Base_handler
    \<and> my_deInterleaver w' = Short d \<and> size_errors w' = size_errors w"
  using assms
  by (simp add: multiplex_def run_mux_def example_frame_def blank_state_def deInterleave_cells_def handler_bits_def data_buffer_def
      process_data_def stream_at_def zero_stream_def)

theorem superframe_multiplexes_witness:
  "\<exists>w. map_option theWorker (three_frames example_env 3 3 (example_frame 0, example_frame 1, example_frame 2)
      (example_grid, example_grid, example_grid) example_backend) = Some (Some w) \<and> size_errors w = 0 \<and> bufferP w = 0"
proof -
  let ?cs = "superframe_cells 3 3 (example_grid, example_grid, example_grid)" and ?w = "(example_worker Base_handler)\<lparr>bufferP := 0\<rparr>"
  have n: "nat (mscCells 3 3 div 3) = 1844" by (simp add: mscCells_def)
  have w: "my_mscHandler ?w = Base_handler" "my_deInterleaver ?w = Short \<lparr>Length = 1844, mapper_table = []\<rparr>" "size_errors ?w = 0"
    by (simp_all add: example_worker_def)
  have eq: "map_option theWorker (three_frames example_env 3 3 (example_frame 0, example_frame 1, example_frame 2)
      (example_grid, example_grid, example_grid) example_backend) =
    do { w \<leftarrow> multiplex example_env (example_frame 1) (take 1844 ?cs) ?w;
         w \<leftarrow> multiplex example_env (example_frame 2) (take 1844 (drop 1844 ?cs)) w;
         w \<leftarrow> multiplex example_env (example_frame 2) (take 1844 (drop (2 * 1844) ?cs)) w;
         Some (Some (w\<lparr>tempBuffer := blit 0 (drop (3 * 1844) ?cs) (tempBuffer w), bufferP := 0\<rparr>)) }"
    unfolding n [symmetric]
    by (rule superframe_multiplexes)
      (simp_all add: n data_supported_def example_backend_def example_worker_def example_env_def example_frame_def
        isFirstFrame_def isLastFrame_def mscCells_def)
  obtain w1 where 1: "multiplex example_env (example_frame 1) (take 1844 ?cs) ?w = Some w1" "my_mscHandler w1 = Base_handler"
    "my_deInterleaver w1 = Short \<lparr>Length = 1844, mapper_table = []\<rparr>" "size_errors w1 = 0"
    using example_multiplex [OF w(1,2)] w(3) by metis
  obtain w2 where 2: "multiplex example_env (example_frame 2) (take 1844 (drop 1844 ?cs)) w1 = Some w2" "my_mscHandler w2 = Base_handler"
    "my_deInterleaver w2 = Short \<lparr>Length = 1844, mapper_table = []\<rparr>" "size_errors w2 = 0"
    using example_multiplex [OF 1(2,3)] 1(4) by metis
  obtain w3 where 3: "multiplex example_env (example_frame 2) (take 1844 (drop (2 * 1844) ?cs)) w2 = Some w3" "size_errors w3 = 0"
    using example_multiplex [OF 2(2,3)] 2(4) by metis
  show ?thesis unfolding eq 1(1) bind.bind_lunit 2(1) 3(1) using 3(2) by simp
qed

section \<open>Losing and finding the signal\<close>

definition fac_ok :: "('f::linordered_field, 'h) environment \<Rightarrow> nat \<Rightarrow> nat \<Rightarrow> 'f theSignal list list \<Rightarrow> bool" where
  "fac_ok E M sp outbank = fst (processFAC (metric_max E) M sp outbank blank_state)"

lemma processFAC_ok: "fst (processFAC (metric_max E) M sp outbank st) = fac_ok E M sp outbank"
  by (simp add: fac_ok_def processFAC_def Let_def split: prod.splits)

lemma next_frame_cases:
  "fac_ok E M sp following \<Longrightarrow> \<exists>st. next_frame E M sp following d = Inr (d\<lparr>service := (service d)\<lparr>theState := st\<rparr>,
     synced := synced d @ [FACSync True], missers := 0\<rparr>)"
  "\<not> fac_ok E M sp following \<Longrightarrow> 2 \<le> missers d \<Longrightarrow> next_frame E M sp following d = Inl 35"
  "\<not> fac_ok E M sp following \<Longrightarrow> missers d < 2 \<Longrightarrow> \<exists>st. next_frame E M sp following d = Inr (d\<lparr>service := (service d)\<lparr>theState := st\<rparr>,
     synced := synced d @ [FACSync False, SDCSync False], superframer := False, missers := missers d + 1\<rparr>)"
  using processFAC_ok [of E M sp following "theState (service d)"]
  by (auto simp: next_frame_def Let_def split: prod.splits)

lemma main_loop_Cons:
  assumes "main_loop E M sp sdc outbank (following # later) d = Some r"
  obtains d1 where "loop_round E M sp sdc outbank following d = Some (next_frame E M sp following d1)" "missers d1 = missers d"
    "r = Inl 35 \<and> next_frame E M sp following d1 = Inl 35
     \<or> (\<exists>d2. next_frame E M sp following d1 = Inr d2 \<and> main_loop E M sp sdc following later d2 = Some r)"
proof -
  obtain d0 where d0: "(if isFirstFrame (theState (service d)) then first_frame E M sp sdc outbank d else Some d) = Some d0"
    using assms by (auto simp: loop_round_def split: bind_splits)
  moreover obtain d1 where d1: "add_frame E M sp outbank d0 = Some d1"
    using assms d0 by (auto simp: loop_round_def split: bind_splits)
  ultimately have r: "loop_round E M sp sdc outbank following d = Some (next_frame E M sp following d1)" by (simp add: loop_round_def)
  have "missers d1 = missers d"
    using d0 d1 by (auto simp: first_frame_def add_frame_def split: if_splits bind_splits prod.splits)
  then show ?thesis
    using that [OF r] assms r next_frame_cases [where d = d1 and following = following]
    by (cases "next_frame E M sp following d1"; cases "fac_ok E M sp following"; cases "missers d1 < 2") fastforce+
qed

lemma run_of_failures:
  "sublist (replicate 3 False) (replicate m False @ True # xs) = sublist (replicate 3 False) xs" if "m \<le> 2"
  using that by (auto simp: le_Suc_eq numeral_2_eq_2 numeral_3_eq_3 sublist_Cons_right)

lemma main_loop_failures:
  "main_loop E M sp sdc outbank later d = Some r \<Longrightarrow> missers d \<le> 2 \<Longrightarrow>
   (r = Inl 35 \<longleftrightarrow> sublist (replicate 3 False) (replicate (missers d) False @ map (fac_ok E M sp) later)) \<and> (\<forall>e. r = Inl e \<longrightarrow> e = 35)"
proof (induction later arbitrary: outbank d)
  case Nil
  then have "\<not> sublist (replicate 3 False) (replicate (missers d) False)" by (auto dest!: sublist_length_le)
  then show ?case using Nil by auto
next
  case (Cons following later)
  let ?F = "map (fac_ok E M sp) later"
  obtain d1 where d1: "missers d1 = missers d"
    "r = Inl 35 \<and> next_frame E M sp following d1 = Inl 35
     \<or> (\<exists>d2. next_frame E M sp following d1 = Inr d2 \<and> main_loop E M sp sdc following later d2 = Some r)"
    by (rule main_loop_Cons [OF Cons.prems(1)])
  show ?case
  proof (cases "fac_ok E M sp following")
    case True
    then obtain d2 where "next_frame E M sp following d1 = Inr d2" "missers d2 = 0"
      using next_frame_cases(1) [of E M sp following d1] by fastforce
    then show ?thesis
      using Cons.IH [of following d2] d1(2) True run_of_failures [OF Cons.prems(2), of ?F] by auto
  next
    case bad: False
    show ?thesis
    proof (cases "missers d < 2")
      case True
      then obtain d2 where d2: "next_frame E M sp following d1 = Inr d2" "missers d2 = missers d + 1"
        using next_frame_cases(3) [of E M sp following d1] bad d1(1) by fastforce
      have "replicate (missers d2) False @ ?F = replicate (missers d) False @ False # ?F"
        unfolding d2(2) by (simp add: replicate_app_Cons_same)
      then show ?thesis using Cons.IH [of following d2] d1(2) d2 bad True by auto
    next
      case False
      then have m: "missers d = 2" using Cons.prems(2) by simp
      then have "r = Inl 35" using next_frame_cases(2) [of E M sp following d1] bad d1 by auto
      moreover have "replicate (missers d) False @ map (fac_ok E M sp) (following # later) = [] @ replicate 3 False @ ?F"
        using bad m by (simp add: numeral_2_eq_2 numeral_3_eq_3)
      ultimately show ?thesis by (simp only: sublist_appendI) simp
    qed
  qed
qed

text \<open>
  C14. The main loop gives a signal up, and starts all over, exactly when three frames in a row have a fast access
  channel that is not accepted: one or two bad frames are bridged, however often that happens, and as long as the
  equalizer delivers frames there is no other way out of the loop.
\<close>

theorem main_loop_gives_up:
  assumes "main_loop E M sp sdc outbank later d = Some r" "missers d = 0"
  shows "(r = Inl 35 \<longleftrightarrow> sublist [False, False, False] (map (fac_ok E M sp) later)) \<and> (\<forall>e. r = Inl e \<longrightarrow> e = 35)"
  using main_loop_failures [OF assms(1)] assms(2) by (simp add: numeral_3_eq_3)

text \<open>A frame whose fast access channel has every bit of its CRC wrong, and a loop that sees it three times.\<close>

definition bad_block :: "u8 list" where
  "bad_block = replicate 64 0 @ map (\<lambda>x. x XOR 1) (crc_bits fac_crc (replicate 64 0))"

definition bad_frame :: "rat theSignal list list" where
  "bad_frame = fac_grid 2 3 (fac_sent (disperse 72 bad_block))"

lemma bad_frame_not_ok: "\<not> fac_ok example_env 2 3 bad_frame"
proof -
  note c = crc_bits_facts [OF fac_crc_ok, of "replicate 64 0"]
  have y: "bits bad_block" "length bad_block = 72" using c by (auto simp: bad_block_def fac_crc_def bits_def is_bit_def)
  have x: "bits (disperse 72 bad_block)" "length (disperse 72 bad_block) = 72"
    using y by (simp_all add: prbs_scrambler.scramble_bits)
  have "clean rTableQAM4 (\<lambda>j. unat (fac_sent (disperse 72 bad_block) ! j)) (fac_vector 2 3 bad_frame) 65"
    unfolding bad_frame_def by (rule fac_grid_clean) simp_all
  from fromSamplestoBits_decodes [OF x this, of 1]
  have d: "disperse 72 (fromSamplestoBits 1 (fac_vector 2 3 bad_frame)) = bad_block"
    using y by (simp add: prbs_scrambler.scramble_scramble)
  have "map (\<lambda>x. x XOR 1) v \<noteq> v" if "v \<noteq> []" for v :: "u8 list"
  proof -
    have "(x :: u8) XOR 1 \<noteq> x" for x
    proof
      assume "x XOR 1 = x"
      moreover have "x XOR (x XOR 1) = 1" unfolding xor.assoc [symmetric] by simp
      ultimately show False by simp
    qed
    then show ?thesis using that by (cases v) auto
  qed
  moreover have "crc_bits fac_crc (replicate 64 0) \<noteq> []" using c by (auto simp: fac_crc_def)
  ultimately have "drop 64 bad_block \<noteq> crc_bits fac_crc (take 64 bad_block)" by (simp add: bad_block_def)
  then show ?thesis by (simp add: fac_ok_def processFAC_eq d example_env_def Let_def)
qed

definition example_decoder :: "(rat, nat) decoder" where
  "example_decoder = \<lparr>service = \<lparr>sdcCorrect = False, theState = example_frame 1, emitted = []\<rparr>,
     backend = example_backend, blockCount = 0, superframer = False, missers = 0, synced = []\<rparr>"

definition example_sdc :: sdc_processor where
  "example_sdc = the (new_sdcProcessor example_table blank_state)"

lemma idle_round:
  assumes "\<not> isFirstFrame (theState (service d))" "\<not> superframer d"
  shows "loop_round E M sp sdc outbank following d = Some (next_frame E M sp following d)"
  using assms by (simp add: loop_round_def add_frame_def)

lemma failed_frame:
  assumes "\<not> fac_ok E M sp following" "next_frame E M sp following d = Inr d'"
  shows "theState (service d') = theState (service d)" "\<not> superframer d'"
proof -
  have "snd (processFAC (metric_max E) M sp following (theState (service d))) = theState (service d)"
    using assms(1) processFAC_ok [of E M sp following "theState (service d)"]
    by (auto simp: processFAC_def Let_def split: prod.splits if_splits)
  then show "theState (service d') = theState (service d)" "\<not> superframer d'"
    using assms processFAC_ok [of E M sp following "theState (service d)"]
    by (auto simp: next_frame_def Let_def split: prod.splits if_splits)
qed

lemma failing_run:
  "list_all (\<lambda>f. \<not> fac_ok E M sp f) later \<Longrightarrow> \<not> isFirstFrame (theState (service d)) \<Longrightarrow> \<not> superframer d \<Longrightarrow>
   \<exists>r. main_loop E M sp sdc outbank later d = Some r"
proof (induction later arbitrary: outbank d)
  case (Cons f later)
  show ?case
  proof (cases "next_frame E M sp f d")
    case (Inr d')
    then show ?thesis using Cons.IH [of d' f] failed_frame [of E M sp f d d'] Cons.prems idle_round [of d E M sp sdc outbank f]
      by simp
  qed (use Cons.prems idle_round [of d E M sp sdc outbank f] in simp)
qed simp

theorem main_loop_gives_up_witness:
  "main_loop example_env 2 3 example_sdc example_grid [bad_frame, bad_frame, bad_frame] example_decoder = Some (Inl 35)"
proof -
  have "\<exists>r. main_loop example_env 2 3 example_sdc example_grid [bad_frame, bad_frame, bad_frame] example_decoder = Some r"
    by (rule failing_run) (simp_all add: bad_frame_not_ok example_decoder_def example_frame_def isFirstFrame_def)
  then obtain r where r: "main_loop example_env 2 3 example_sdc example_grid [bad_frame, bad_frame, bad_frame] example_decoder = Some r"
    by blast
  have "missers example_decoder = 0" by (simp add: example_decoder_def)
  from main_loop_gives_up [OF r this] have "r = Inl 35" using sublist_order.order_refl [of "[False, False, False]"] bad_frame_not_ok by (simp only: list.map)
  then show ?thesis using r by blast
qed

text \<open>The last service description signal of a log.\<close>

definition sync_of :: "bool \<Rightarrow> sync_signal list \<Rightarrow> bool" where
  "sync_of b sigs = foldl (\<lambda>b s. case s of SDCSync c \<Rightarrow> c | FACSync c \<Rightarrow> b) b sigs"

lemma sync_of_simps [simp]:
  "sync_of b [] = b" "sync_of b (SDCSync c # sigs) = sync_of c sigs" "sync_of b (FACSync c # sigs) = sync_of b sigs"
  "sync_of b (l1 @ l2) = sync_of (sync_of b l1) l2"
  by (simp_all add: sync_of_def)

lemma sync_of_False: "SDCSync True \<notin> set sigs \<Longrightarrow> \<not> sync_of False sigs"
proof (induction sigs)
  case (Cons s sigs)
  then show ?case by (cases s) auto
qed simp

definition logged :: "('f, 'h) decoder \<Rightarrow> ('f, 'h) decoder \<Rightarrow> bool" where
  "logged d d' = (\<exists>sigs. synced d' = synced d @ sigs \<and> superframer d' = sync_of (superframer d) sigs
     \<and> (\<not> superframer d \<and> SDCSync True \<notin> set sigs \<longrightarrow> backend d' = backend d))"

lemma logged_refl: "logged d d"
  unfolding logged_def by (intro exI [of _ "[]"]) simp

lemma logged_trans: "logged d d1 \<Longrightarrow> logged d1 d2 \<Longrightarrow> logged d d2"
  unfolding logged_def using sync_of_False by (elim exE) (rule exI, auto)

lemma logged_parts:
  "first_frame E M sp sdc outbank d = Some d' \<Longrightarrow> logged d d'"
  "add_frame E M sp outbank d = Some d' \<Longrightarrow> logged d d'"
  "next_frame E M sp following d = Inr d' \<Longrightarrow> logged d d'"
proof -
  show "logged d d'" if "first_frame E M sp sdc outbank d = Some d'"
    using that by (auto simp: first_frame_def logged_def split: bind_splits if_splits intro!: exI [of _ "[SDCSync c]" for c])
  show "logged d d'" if "add_frame E M sp outbank d = Some d'"
    using that by (auto simp: add_frame_def logged_def split: bind_splits if_splits)
  show "logged d d'" if "next_frame E M sp following d = Inr d'"
    using that next_frame_cases [where E = E and M = M and sp = sp and following = following and d = d]
    by (cases "fac_ok E M sp following"; cases "missers d < 2") (auto simp: logged_def)
qed

lemma loop_round_logged: "loop_round E M sp sdc outbank following d = Some (Inr d') \<Longrightarrow> logged d d'"
  by (auto simp: loop_round_def split: bind_splits if_splits dest!: logged_parts intro: logged_trans [OF logged_trans] logged_trans)

lemma main_loop_logged: "main_loop E M sp sdc outbank later d = Some (Inr d') \<Longrightarrow> logged d d'"
proof (induction later arbitrary: outbank d)
  case (Cons f later)
  then show ?case by (auto split: bind_splits sum.splits intro: logged_trans [OF loop_round_logged])
qed (simp add: logged_refl)

text \<open>
  C15. The decoder takes part in a superframe exactly when the last signal about the service description was positive;
  every frame with a bad fast access channel sends a negative one. So after a loss of the signal no data cell
  reaches the back end, and the back end is not built anew, before a service description block has
  been accepted in a first frame.
\<close>

theorem main_loop_resync:
  assumes "main_loop E M sp sdc outbank later d = Some (Inr d')"
  shows "\<exists>sigs. synced d' = synced d @ sigs \<and> superframer d' = sync_of (superframer d) sigs
    \<and> (\<not> superframer d \<and> SDCSync True \<notin> set sigs \<longrightarrow> backend d' = backend d)"
  using main_loop_logged [OF assms] by (simp only: logged_def)

theorem main_loop_resync_witness:
  "\<exists>d'. main_loop example_env 2 3 example_sdc example_grid [bad_frame, bad_frame] example_decoder = Some (Inr d')
    \<and> (\<exists>sigs. synced d' = sigs \<and> superframer d' = sync_of False sigs \<and> (SDCSync True \<notin> set sigs \<longrightarrow> backend d' = example_backend))"
proof -
  obtain r where r: "main_loop example_env 2 3 example_sdc example_grid [bad_frame, bad_frame] example_decoder = Some r"
    using failing_run [of example_env 2 3 "[bad_frame, bad_frame]" example_decoder example_sdc example_grid]
    by (auto simp: bad_frame_not_ok example_decoder_def example_frame_def isFirstFrame_def)
  have "\<not> sublist (replicate 3 False) [False, False]" by (auto dest: sublist_length_le)
  then have "r \<noteq> Inl 35" "\<forall>e. r = Inl e \<longrightarrow> e = 35"
    using main_loop_failures [OF r] by (simp_all add: example_decoder_def bad_frame_not_ok)
  then obtain d' where "r = Inr d'" by (cases r) auto
  then show ?thesis using main_loop_resync [of example_env 2 3 example_sdc example_grid "[bad_frame, bad_frame]" example_decoder d'] r
    by (simp add: example_decoder_def)
qed

section \<open>A new configuration\<close>

text \<open>
  C37. The back end keeps the sizes it was built with. When a superframe whose service description shortens the
  streams follows one that was received well, the loop keeps the worker, whose handler goes on writing as many bits
  as before into a buffer that has the new size and 200 bytes: if the old streams have more bits than that, the
  next multiplex is written beyond the buffer.
\<close>

theorem configuration_outgrown:
  assumes "superframer d" "first_frame E M sp sdc outbank d = Some d'" "theWorker (backend d) = Some w"
    and "my_mscHandler w = QAM64_SM h \<or> my_mscHandler w = QAM16_SM h"
    and "0 \<le> dataLength (theState (service d'))" "dataLength (theState (service d')) * 8 + 200 < (lengthA h + lengthB h) * 8"
  shows "theWorker (backend d') = Some w \<and> run_mux E (theState (service d')) (w\<lparr>tempBuffer := cells, bufferP := k\<rparr>) = None"
proof -
  have "theWorker (backend d') = Some w"
    using assms(1-3) by (auto simp: first_frame_def split: bind_splits)
  moreover have "length b = nat ((lengthA h + lengthB h) * 8)" if "handler_bits E n (my_mscHandler w) cs = Some b" for n cs b
    using that assms(4)
    by (auto simp: handler_bits_def process_64_def process_16_def payload_bits_def split: prod.splits bind_splits dest!: frame_out_length)
  then have "data_buffer E (theState (service d')) b = None" if "handler_bits E n (my_mscHandler w) cs = Some b" for n cs b
    using that assms(5,6) by (simp add: data_buffer_def)
  then have "run_mux E (theState (service d')) (w\<lparr>tempBuffer := cells, bufferP := k\<rparr>) = None"
    using assms(5) by (auto simp: run_mux_def Let_def bind_eq_None_conv not_less split: prod.splits)
  ultimately show ?thesis by simp
qed

text \<open>A worker for streams of 700 bytes, and a service description block that announces one of 100 bytes.\<close>

definition old_handler :: QAM_handler where
  "old_handler = \<lparr>muxCells = 1844, lengthA = 0, lengthB = 700, level_streams = []\<rparr>"

definition good_decoder :: "(rat, nat) decoder" where
  "good_decoder = example_decoder\<lparr>service := example_sdc_state,
     backend := example_backend\<lparr>theWorker := Some (example_worker (QAM64_SM old_handler))\<rparr>, superframer := True\<rparr>"

lemma new_configuration_received:
  "\<exists>sdc outbank d'. first_frame example_env 2 3 sdc outbank good_decoder = Some d' \<and> superframer d'
    \<and> dataLength (theState (service d')) = 100"
proof -
  let ?b = "sdc_block (sdc_message 0 example_entities 32) []"
  obtain s0 where p: "new_sdcProcessor example_table (theState example_sdc_state)
      = Some \<lparr>sdc_table = example_table, sdc_qam16 = False, stream_0 = s0, stream_1 = None, lengthofSDC = 316\<rparr>" "outLength s0 = 316"
    by (rule example_processor)
  let ?p = "\<lparr>sdc_table = example_table, sdc_qam16 = False, stream_0 = s0, stream_1 = None, lengthofSDC = 316\<rparr>"
  let ?o = "[clean_signal rTableQAM4 (\<lambda>j. unat (reencode s0 (disperse (length ?b) ?b) ! j)) 322] :: rat theSignal list list"
  note g = good_block_interpreted(1) [OF example_block(1), of 0 32 "[]" 316]
    good_block_interpreted(2) [OF example_block(1), of 0 32 "[]" 316 example_sdc_state]
  define rest where "rest = replicate (8 * 32) 0 @ map (\<lambda>x. x XOR 1) (crc_bits sdc_crc (replicate 4 0 @ sdc_message 0 example_entities 32)) @ []"
  have rest: "bits rest"
    using crc_bits_facts(1) [OF sdc_crc_ok, of "replicate 4 0 @ sdc_message 0 example_entities 32"] by (simp add: rest_def onebit is_bit_def)
  define st where "st = with_lengths (\<lambda>j. int (fst ([(0 :: nat, 100 :: nat)] ! j))) (\<lambda>j. int (snd ([(0 :: nat, 100 :: nat)] ! j))) 0 1
      ((theState example_sdc_state)\<lparr>numofStreams := 1, protLevelA := 0, protLevelB := 0, dataLength := 0\<rparr>)"
  have len: "dataLength st = 100" by (simp add: st_def with_lengths_def to_int16_def)
  have m: "multiplex_description (multiplex_bits 0 0 [(0, 100)] @ rest) 3 (example_sdc_state\<lparr>sdcCorrect := True\<rparr>)
      = Some (example_sdc_state\<lparr>sdcCorrect := True, theState := st\<rparr>)"
    using multiplex_description_layout [of 0 0 "[(0, 100)]" rest "example_sdc_state\<lparr>sdcCorrect := True\<rparr>"] rest
    by (simp add: st_def example_sdc_state_def blank_state_def to_int16_def)
  have "entities_effect example_entities rest (example_sdc_state\<lparr>sdcCorrect := True\<rparr>)
      = Some (example_sdc_state\<lparr>sdcCorrect := True, theState := st\<rparr>)"
    using m by (simp add: example_entities_def body_bytes_def multiplex_bits_facts set_SDCData_def)
  moreover have "check_and_interpret 316 ?b example_sdc_state = do {
      s \<leftarrow> entities_effect example_entities rest (example_sdc_state\<lparr>sdcCorrect := True\<rparr>);
      Some (True, s\<lparr>theState := (theState s)\<lparr>set_flag := sdcCorrect s\<rparr>\<rparr>) }"
    unfolding rest_def by (rule g(2)) (simp_all add: example_block)
  ultimately have "check_and_interpret 316 ?b example_sdc_state
      = Some (True, example_sdc_state\<lparr>sdcCorrect := True, theState := st\<lparr>set_flag := True\<rparr>\<rparr>)"
    by simp
  moreover have "processSDC 1 2 3 ?p ?o example_sdc_state = do {
     (ok, s) \<leftarrow> check_and_interpret 316 ?b example_sdc_state; Some (ok, s) }"
    using processSDC_decodes [OF p(1) _ _ g(1), of 1 2 3 ?o example_sdc_state] example_carries [OF p(2) refl] p(2)
    by (simp add: example_block)
  ultimately have "first_frame example_env 2 3 ?p ?o good_decoder
      = Some (good_decoder\<lparr>service := example_sdc_state\<lparr>sdcCorrect := True, theState := st\<lparr>set_flag := True\<rparr>\<rparr>,
          synced := synced good_decoder @ [SDCSync True], blockCount := 0\<rparr>)"
    by (simp add: first_frame_def good_decoder_def example_env_def)
  then show ?thesis by (intro exI conjI) (assumption, simp_all add: good_decoder_def len)
qed

theorem configuration_outgrown_witness:
  "\<exists>sdc outbank d'. first_frame example_env 2 3 sdc outbank good_decoder = Some d' \<and> superframer d'
    \<and> theWorker (backend d') = Some (example_worker (QAM64_SM old_handler))
    \<and> run_mux example_env (theState (service d'))
        ((example_worker (QAM64_SM old_handler))\<lparr>tempBuffer := cells_memory example_env 1844, bufferP := 1844\<rparr>) = None"
proof -
  obtain sdc outbank d' where d: "first_frame example_env 2 3 sdc outbank good_decoder = Some d'" "superframer d'"
    "dataLength (theState (service d')) = 100"
    using new_configuration_received by blast
  have "theWorker (backend d') = Some (example_worker (QAM64_SM old_handler))
    \<and> run_mux example_env (theState (service d'))
        ((example_worker (QAM64_SM old_handler))\<lparr>tempBuffer := cells_memory example_env 1844, bufferP := 1844\<rparr>) = None"
    by (rule configuration_outgrown [OF _ d(1), of _ old_handler])
      (simp_all add: good_decoder_def example_worker_def old_handler_def d(3))
  then show ?thesis using d by blast
qed

end
