(* ===== verification/Amtor.thy ===== *)
theory Amtor
  imports Prelude "HOL-Library.Sublist"
begin

text \<open>
  The AMTOR (SITOR-B, NAVTEX) decoder, \<open>decoders/amtor-decoder\<close>: from the fragments the discriminator delivers, ten
  for each bit, over seven bit words and the two copies of every character to the text on display. Words are the
  codes of CCIR 476 with four bits set. The filters before the fragments are not modelled.
\<close>

section \<open>The state\<close>

definition CCIR_476_ITA4 :: "(char \<times> char \<times> int) list" where
  "CCIR_476_ITA4 =
    [(CHR ''A'', CHR ''-'', 0x71), (CHR ''B'', CHR ''?'', 0x27), (CHR ''C'', CHR '':'', 0x5C),
     (CHR ''D'', CHR ''$'', 0x65), (CHR ''E'', CHR ''3'', 0x35), (CHR ''F'', CHR ''!'', 0x6C),
     (CHR ''G'', CHR ''&'', 0x56), (CHR ''H'', CHR ''#'', 0x4B), (CHR ''I'', CHR ''8'', 0x59),
     (CHR ''J'', CHR 0x5C, 0x74), (CHR ''K'', CHR ''('', 0x3C), (CHR ''L'', CHR '')'', 0x53),
     (CHR ''M'', CHR ''.'', 0x4E), (CHR ''N'', CHR '','', 0x4D), (CHR ''O'', CHR ''9'', 0x47),
     (CHR ''P'', CHR ''0'', 0x5A), (CHR ''Q'', CHR ''1'', 0x3A), (CHR ''R'', CHR ''4'', 0x55),
     (CHR ''S'', CHR 0x27, 0x69), (CHR ''T'', CHR ''5'', 0x17), (CHR ''U'', CHR ''7'', 0x39),
     (CHR ''V'', CHR ''='', 0x1E), (CHR ''W'', CHR ''2'', 0x72), (CHR ''X'', CHR ''/'', 0x2E),
     (CHR ''Y'', CHR ''6'', 0x6A), (CHR ''Z'', CHR ''+'', 0x63), (CHR 0x0D, CHR 0x0D, 0x0F),
     (CHR 0x0A, CHR 0x0A, 0x1B), (CHR '' '', CHR '' '', 0x2D), (CHR '' '', CHR '' '', 0x36),
     (CHR '' '', CHR '' '', 0x1D), (CHR '' '', CHR '' '', 0x33), (CHR '' '', CHR '' '', 0x78),
     (CHR '' '', CHR '' '', 0x00)]"

abbreviation ALPHA :: int where "ALPHA \<equiv> 0x78"
abbreviation BETA :: int where "BETA \<equiv> 0x33"
abbreviation DIGIT :: int where "DIGIT \<equiv> 0x36"
abbreviation LETTER :: int where "LETTER \<equiv> 0x2D"
abbreviation SCRAPPED :: int where "SCRAPPED \<equiv> 0xFF"

datatype amtor_state = X0 | X1 | X2 | X3 | X4 | X5 | X6

datatype amtor_mode = NOTHING | STATE_Z | STATE_ZC | STATE_ZCZ | STATE_ZCZC | STATE_N | STATE_NN | STATE_NNN | STATE_NNNN

text \<open>The fields of the class behind the discriminator; the others belong to the filters and the widget.\<close>

record amtor =
  fragmentCount :: nat
  amtorOldFragment :: nat
  amtorShiftReg :: u16
  amtorBitCount :: nat
  amtorState :: amtor_state
  amtorQueue :: "int list"
  amtorQP :: nat
  amtorLettershift :: bool
  messageState :: amtor_mode
  showAlways :: bool
  amtorFecError :: bool
  amtorTextstring :: string

text \<open>The settings of the widget, and \<open>setup_amtorDecoder\<close>; \<open>mem\<close> holds the fields it does not set (the queue).\<close>

definition set_amtorFecError :: "string \<Rightarrow> amtor \<Rightarrow> amtor" where
  "set_amtorFecError s p = p\<lparr>amtorFecError := (s = ''strict fec'')\<rparr>"

definition set_amtorMessage :: "string \<Rightarrow> amtor \<Rightarrow> amtor" where
  "set_amtorMessage s p = p\<lparr>showAlways := \<not> (s = ''message''), messageState := NOTHING\<rparr>"

definition amtor_clrText :: "amtor \<Rightarrow> amtor" where
  "amtor_clrText p = p\<lparr>amtorTextstring := []\<rparr>"

definition new_amtor :: "string \<Rightarrow> string \<Rightarrow> amtor \<Rightarrow> amtor" where
  "new_amtor fecError showMessage mem =
     (let p = amtor_clrText (mem\<lparr>fragmentCount := 0, amtorState := X0, amtorOldFragment := 0, amtorShiftReg := 0,
                amtorBitCount := 0, amtorLettershift := True\<rparr>)
      in (set_amtorMessage showMessage (set_amtorFecError fecError (p\<lparr>showAlways := True\<rparr>)))\<lparr>amtorTextstring := []\<rparr>)"

lemmas new_amtor_defs = new_amtor_def set_amtorFecError_def set_amtorMessage_def amtor_clrText_def

section \<open>Text\<close>

definition amtor_addText :: "char \<Rightarrow> amtor \<Rightarrow> amtor" where
  "amtor_addText c p =
     (let c = (if of_char c < (32 :: nat) \<or> 128 \<le> (of_char c :: nat) then CHR '' '' else c);
          t = amtorTextstring p @ [c]
      in p\<lparr>amtorTextstring := (if 70 < length t then drop 1 t else t)\<rparr>)"

definition amtorText :: "char \<Rightarrow> amtor \<Rightarrow> amtor" where
  "amtorText c p =
     (if showAlways p then amtor_addText c p
      else case messageState p of
        NOTHING \<Rightarrow> if c = CHR ''Z'' then p\<lparr>messageState := STATE_Z\<rparr> else p
      | STATE_Z \<Rightarrow> p\<lparr>messageState := (if c = CHR ''C'' then STATE_ZC else NOTHING)\<rparr>
      | STATE_ZC \<Rightarrow> p\<lparr>messageState := (if c = CHR ''Z'' then STATE_ZCZ else NOTHING)\<rparr>
      | STATE_ZCZ \<Rightarrow>
          if c = CHR ''C''
          then amtor_addText CHR ''C'' (amtor_addText CHR ''Z'' (amtor_addText CHR ''C'' (amtor_addText CHR ''Z''
                 (p\<lparr>messageState := STATE_ZCZC\<rparr>))))
          else p\<lparr>messageState := NOTHING\<rparr>
      | STATE_ZCZC \<Rightarrow> amtor_addText c (if c = CHR ''N'' then p\<lparr>messageState := STATE_N\<rparr> else p)
      | STATE_N \<Rightarrow> amtor_addText c (p\<lparr>messageState := (if c = CHR ''N'' then STATE_NN else STATE_ZCZC)\<rparr>)
      | STATE_NN \<Rightarrow> amtor_addText c (p\<lparr>messageState := (if c = CHR ''N'' then STATE_NNN else STATE_ZCZC)\<rparr>)
      | STATE_NNN \<Rightarrow> amtor_addText c (p\<lparr>messageState := (if c = CHR ''N'' then STATE_NNNN else STATE_ZCZC)\<rparr>)
      | STATE_NNNN \<Rightarrow> amtor_addText c (p\<lparr>messageState := NOTHING\<rparr>))"

definition flushBuffer :: "amtor \<Rightarrow> amtor" where
  "flushBuffer p = amtorText CHR '' '' (amtorText CHR '' '' (amtorText CHR '' '' (amtorText CHR '' '' p)))"

definition initMessage :: "amtor \<Rightarrow> amtor" where
  "initMessage p = p\<lparr>amtorQueue := replicate 10 BETA, amtorQP := 0, messageState := NOTHING\<rparr>"

text \<open>The part of the table before the entry with key 0.\<close>

definition ccir_entries :: "(char \<times> char \<times> int) list" where
  "ccir_entries = takeWhile (\<lambda>(l, d, k). k \<noteq> 0) CCIR_476_ITA4"

definition HandleChar :: "int \<Rightarrow> amtor \<Rightarrow> amtor" where
  "HandleChar val p =
     (if val = - 1 then amtorText CHR ''x'' p
      else if val = LETTER then p\<lparr>amtorLettershift := True\<rparr>
      else if val = DIGIT then p\<lparr>amtorLettershift := False\<rparr>
      else case find (\<lambda>(l, d, k). k = val) ccir_entries of
             Some (l, d, k) \<Rightarrow> amtorText (if amtorLettershift p then l else d) p
           | None \<Rightarrow> amtorText CHR ''?'' p)"

section \<open>The two copies\<close>

definition queue_next :: "int \<Rightarrow> amtor \<Rightarrow> amtor" where
  "queue_next val p =
     (let qp = (amtorQP p + 1) mod 10 in p\<lparr>amtorQP := qp, amtorQueue := (amtorQueue p)[(qp + 5) mod 10 := val]\<rparr>)"

definition addBytetoMessage :: "int \<Rightarrow> amtor \<Rightarrow> amtor" where
  "addBytetoMessage val p =
     (let q = amtorQueue p ! amtorQP p; copy = (amtorQP p + 5) mod 10
      in if q = ALPHA \<or> q = BETA then queue_next val p
         else if q = SCRAPPED then queue_next val p
         else if q = amtorQueue p ! copy
         then (let p = HandleChar q p in queue_next val (p\<lparr>amtorQueue := (amtorQueue p)[copy := SCRAPPED]\<rparr>))
         else (let p = (if amtorFecError p then HandleChar (of_char CHR ''x'') p else HandleChar q p)
               in queue_next val (p\<lparr>amtorQueue := (amtorQueue p)[copy := SCRAPPED]\<rparr>)))"

definition amtor_decoder :: "int \<Rightarrow> amtor \<Rightarrow> amtor" where
  "amtor_decoder val p =
     (case amtorState p of
        X0 \<Rightarrow> if val = ALPHA then p\<lparr>amtorState := X1\<rparr> else if val = BETA then p\<lparr>amtorState := X2\<rparr> else p
      | X1 \<Rightarrow> if val = BETA then p\<lparr>amtorState := X2\<rparr>
             else (addBytetoMessage val (initMessage p))\<lparr>amtorState := X3\<rparr>
      | X2 \<Rightarrow> if val = ALPHA then p\<lparr>amtorState := X1\<rparr> else p
      | X3 \<Rightarrow> addBytetoMessage val
               (if val = ALPHA then p\<lparr>amtorState := X4\<rparr> else if val = BETA then p\<lparr>amtorState := X5\<rparr> else p)
      | X4 \<Rightarrow> addBytetoMessage val (p\<lparr>amtorState := (if val = BETA then X6 else X3)\<rparr>)
      | X5 \<Rightarrow> addBytetoMessage val (p\<lparr>amtorState := (if val = ALPHA then X6 else X3)\<rparr>)
      | X6 \<Rightarrow> (flushBuffer p)\<lparr>amtorState := X0\<rparr>)"

section \<open>Bits\<close>

definition validate :: "u16 \<Rightarrow> nat \<Rightarrow> bool" where
  "validate w cnt =
     (snd (foldl (\<lambda>(w, No1) i. (drop_bit 1 w, if w AND 1 \<noteq> 0 then No1 + 1 else No1)) (w, 0) [0 ..< 7 :: nat]) = cnt)"

definition addfullBit :: "nat \<Rightarrow> amtor \<Rightarrow> amtor" where
  "addfullBit x p =
     (let reg = push_bit 1 (amtorShiftReg p) OR (of_nat x AND 1);
          p = p\<lparr>amtorShiftReg := reg, amtorBitCount := amtorBitCount p + 1\<rparr>
      in if 7 \<le> amtorBitCount p
         then (if validate reg 4 then (amtor_decoder (uint reg) p)\<lparr>amtorBitCount := 0, amtorShiftReg := 0\<rparr>
               else p\<lparr>amtorBitCount := amtorBitCount p - 1, amtorShiftReg := reg AND 0x3F\<rparr>)
         else p)"

definition addbitfragment :: "nat \<Rightarrow> amtor \<Rightarrow> amtor" where
  "addbitfragment bf p =
     (if bf \<noteq> amtorOldFragment p then p\<lparr>fragmentCount := 5, amtorOldFragment := bf\<rparr>
      else let p = p\<lparr>fragmentCount := fragmentCount p + 1\<rparr>
           in if 10 \<le> fragmentCount p then (addfullBit bf p)\<lparr>fragmentCount := 0\<rparr> else p)"

section \<open>The text on display\<close>

text \<open>The display keeps the last 70 characters; control characters are shown as spaces.\<close>

definition visible :: "char \<Rightarrow> char" where
  "visible c = (if of_char c < (32 :: nat) \<or> 128 \<le> (of_char c :: nat) then CHR '' '' else c)"

definition last_70 :: "string \<Rightarrow> string" where
  "last_70 t = drop (length t - 70) t"

lemma last_70_short: "length t \<le> 70 \<Longrightarrow> last_70 t = t"
  by (simp add: last_70_def)

lemma last_70_append [simp]: "last_70 (last_70 t @ u) = last_70 (t @ u)"
  by (cases "70 \<le> length t") (simp_all add: last_70_def add.commute)

lemma length_last_70 [simp]: "length (last_70 t) \<le> 70"
  by (simp add: last_70_def)

lemma amtor_addText:
  "length (amtorTextstring p) \<le> 70 \<Longrightarrow>
     amtor_addText c p = p\<lparr>amtorTextstring := last_70 (amtorTextstring p @ [visible c])\<rparr>"
  by (cases "length (amtorTextstring p) = 70") (simp_all add: amtor_addText_def visible_def [symmetric] last_70_def)

section \<open>The two copies of a character\<close>

text \<open>
  The queue holds the last six words: \<open>window\<close>, oldest first. A word that is looked at is the oldest; its copy
  came five words later.
\<close>

definition queue_ok :: "amtor \<Rightarrow> bool" where
  "queue_ok p \<longleftrightarrow> length (amtorQueue p) = 10 \<and> amtorQP p < 10"

definition window :: "amtor \<Rightarrow> int list" where
  "window p = map (\<lambda>j. amtorQueue p ! ((amtorQP p + j) mod 10)) [0 ..< 6]"

definition passed_over :: "int set" where
  "passed_over = {ALPHA, BETA, SCRAPPED}"

text \<open>The characters a stream of words holds: every one is handled once, and its copy scrapped.\<close>

fun once :: "bool \<Rightarrow> int list \<Rightarrow> int list" where
  "once strict [] = []"
| "once strict (x # xs) =
     (if length xs < 6 then []
      else if x \<in> passed_over then once strict xs
      else (if x = xs ! 4 then x else if strict then 0x78 else x) # once strict (xs[4 := SCRAPPED]))"

lemmas amtor_text_defs = amtorText_def amtor_addText_def flushBuffer_def Let_def

lemma amtorText_queue [simp]:
  "amtorText c (p\<lparr>amtorQueue := q\<rparr>) = (amtorText c p)\<lparr>amtorQueue := q\<rparr>"
  "amtorText c (p\<lparr>amtorQP := i\<rparr>) = (amtorText c p)\<lparr>amtorQP := i\<rparr>"
  "amtorText c (p\<lparr>amtorState := s\<rparr>) = (amtorText c p)\<lparr>amtorState := s\<rparr>"
  by (simp_all add: amtor_text_defs split: amtor_mode.split)

lemma amtorText_keeps [simp]:
  "amtorQueue (amtorText c p) = amtorQueue p" "amtorQP (amtorText c p) = amtorQP p"
  "amtorState (amtorText c p) = amtorState p" "amtorFecError (amtorText c p) = amtorFecError p"
  "amtorLettershift (amtorText c p) = amtorLettershift p" "showAlways (amtorText c p) = showAlways p"
  "amtorOldFragment (amtorText c p) = amtorOldFragment p" "fragmentCount (amtorText c p) = fragmentCount p"
  by (simp_all add: amtor_text_defs split: amtor_mode.split)

lemma HandleChar_queue [simp]:
  "HandleChar k (p\<lparr>amtorQueue := q\<rparr>) = (HandleChar k p)\<lparr>amtorQueue := q\<rparr>"
  "HandleChar k (p\<lparr>amtorQP := i\<rparr>) = (HandleChar k p)\<lparr>amtorQP := i\<rparr>"
  "HandleChar k (p\<lparr>amtorState := s\<rparr>) = (HandleChar k p)\<lparr>amtorState := s\<rparr>"
  by (simp_all add: HandleChar_def split: option.split)

lemma HandleChar_keeps [simp]:
  "amtorQueue (HandleChar k p) = amtorQueue p" "amtorQP (HandleChar k p) = amtorQP p"
  "amtorState (HandleChar k p) = amtorState p" "amtorFecError (HandleChar k p) = amtorFecError p"
  "showAlways (HandleChar k p) = showAlways p"
  "amtorOldFragment (HandleChar k p) = amtorOldFragment p" "fragmentCount (HandleChar k p) = fragmentCount p"
  by (simp_all add: HandleChar_def split: option.split)

abbreviation handle_all :: "int list \<Rightarrow> amtor \<Rightarrow> amtor" where
  "handle_all ks p \<equiv> foldl (\<lambda>p k. HandleChar k p) p ks"

lemma handle_all_queue [simp]:
  "handle_all ks (p\<lparr>amtorQueue := q\<rparr>) = (handle_all ks p)\<lparr>amtorQueue := q\<rparr>"
  "handle_all ks (p\<lparr>amtorQP := i\<rparr>) = (handle_all ks p)\<lparr>amtorQP := i\<rparr>"
  "handle_all ks (p\<lparr>amtorState := s\<rparr>) = (handle_all ks p)\<lparr>amtorState := s\<rparr>"
  by (induction ks arbitrary: p) simp_all

lemma handle_all_keeps [simp]:
  "amtorQueue (handle_all ks p) = amtorQueue p" "amtorQP (handle_all ks p) = amtorQP p"
  "amtorState (handle_all ks p) = amtorState p" "amtorFecError (handle_all ks p) = amtorFecError p"
  "showAlways (handle_all ks p) = showAlways p"
  "amtorOldFragment (handle_all ks p) = amtorOldFragment p" "fragmentCount (handle_all ks p) = fragmentCount p"
  by (induction ks arbitrary: p) simp_all

lemma length_window [simp]: "length (window p) = 6"
  by (simp add: window_def)

lemma window_nth: "j < 6 \<Longrightarrow> window p ! j = amtorQueue p ! ((amtorQP p + j) mod 10)"
  by (simp add: window_def)

lemma below_10: "(n :: nat) < 10 \<Longrightarrow> n = 0 \<or> n = 1 \<or> n = 2 \<or> n = 3 \<or> n = 4 \<or> n = 5 \<or> n = 6 \<or> n = 7 \<or> n = 8 \<or> n = 9"
  by arith

lemma upt_6: "[0 ..< 6] = [0, 1, 2, 3, 4, 5]"
  by (simp add: upt_rec)

lemma window_next:
  assumes "queue_ok p"
  shows "window (queue_next v p) = tl (window p) @ [v]" "queue_ok (queue_next v p)"
  using assms below_10 [of "amtorQP p"] unfolding queue_ok_def
  by (auto simp: window_def queue_next_def upt_6 Let_def numeral_2_eq_2 [symmetric])

lemma window_scrap:
  assumes "queue_ok p"
  shows "window (p\<lparr>amtorQueue := (amtorQueue p)[(amtorQP p + 5) mod 10 := x]\<rparr>) = (window p)[5 := x]"
    "queue_ok (p\<lparr>amtorQueue := (amtorQueue p)[(amtorQP p + 5) mod 10 := x]\<rparr>)"
  using assms below_10 [of "amtorQP p"] unfolding queue_ok_def
  by (auto simp: window_def upt_6)

lemma window_keeps [simp]:
  "window (HandleChar k p) = window p" "queue_ok (HandleChar k p) = queue_ok p"
  "window (handle_all ks p) = window p" "queue_ok (handle_all ks p) = queue_ok p"
  "window (p\<lparr>amtorState := s\<rparr>) = window p" "queue_ok (p\<lparr>amtorState := s\<rparr>) = queue_ok p"
  by (simp_all add: window_def queue_ok_def)

text \<open>One word: what is handled, and the window after it.\<close>

lemma addBytetoMessage_step:
  assumes "queue_ok p" and w: "window p = x # xs"
  shows "\<exists>q i. addBytetoMessage v p =
      (if x \<in> passed_over then p else HandleChar (if x = xs ! 4 then x else if amtorFecError p then 0x78 else x) p)
        \<lparr>amtorQueue := q, amtorQP := i\<rparr>"
    and "window (addBytetoMessage v p) = (if x \<in> passed_over then xs else xs[4 := SCRAPPED]) @ [v]"
    and "queue_ok (addBytetoMessage v p)"
proof -
  have "window p ! 0 = x" "window p ! 5 = xs ! 4" using w by simp_all
  then have x: "amtorQueue p ! amtorQP p = x" and y: "amtorQueue p ! ((amtorQP p + 5) mod 10) = xs ! 4"
    using assms(1) by (simp_all add: window_nth queue_ok_def)
  let ?h = "if x \<in> passed_over then p else (HandleChar (if x = xs ! 4 then x else if amtorFecError p then 0x78 else x) p)
      \<lparr>amtorQueue := (amtorQueue p)[(amtorQP p + 5) mod 10 := SCRAPPED]\<rparr>"
  have add: "addBytetoMessage v p = queue_next v ?h"
    by (auto simp: addBytetoMessage_def passed_over_def x y Let_def)
  have n: "\<exists>q i. queue_next v P = P\<lparr>amtorQueue := q, amtorQP := i\<rparr>" for P
    by (rule exI [of _ "(amtorQueue P)[((amtorQP P + 1) mod 10 + 5) mod 10 := v]"], rule exI [of _ "(amtorQP P + 1) mod 10"])
      (simp add: queue_next_def Let_def)
  show "\<exists>q i. addBytetoMessage v p =
      (if x \<in> passed_over then p else HandleChar (if x = xs ! 4 then x else if amtorFecError p then 0x78 else x) p)
        \<lparr>amtorQueue := q, amtorQP := i\<rparr>"
  proof -
    obtain q i where here: "queue_next v ?h = ?h\<lparr>amtorQueue := q, amtorQP := i\<rparr>" using n by blast
    show ?thesis
      by (rule exI [of _ q], rule exI [of _ i]) (simp only: add here, cases "x \<in> passed_over", simp_all)
  qed
  have h: "window ?h = x # (if x \<in> passed_over then xs else xs[4 := SCRAPPED])" "queue_ok ?h"
  proof -
    have u: "(x # xs)[5 := SCRAPPED] = x # xs[4 := SCRAPPED]" by (simp add: numeral_nat)
    have k: "window ((HandleChar k p)\<lparr>amtorQueue := (amtorQueue p)[(amtorQP p + 5) mod 10 := SCRAPPED]\<rparr>)
        = x # xs[4 := SCRAPPED]"
      "queue_ok ((HandleChar k p)\<lparr>amtorQueue := (amtorQueue p)[(amtorQP p + 5) mod 10 := SCRAPPED]\<rparr>)" for k
      using window_scrap [of "HandleChar k p" SCRAPPED] assms by (simp_all only: window_keeps HandleChar_keeps w u)
    show "window ?h = x # (if x \<in> passed_over then xs else xs[4 := SCRAPPED])" "queue_ok ?h"
      using k w assms(1) by simp_all
  qed
  show "window (addBytetoMessage v p) = (if x \<in> passed_over then xs else xs[4 := SCRAPPED]) @ [v]"
    "queue_ok (addBytetoMessage v p)"
    unfolding add by (simp_all only: window_next [OF h(2)] h(1) list.sel)
qed

lemma once_take:
  "length xs = 5 \<Longrightarrow> once strict (x # xs @ v # vs) =
     (if x \<in> passed_over then once strict (xs @ v # vs)
      else (if x = xs ! 4 then x else if strict then 0x78 else x) # once strict (xs[4 := SCRAPPED] @ v # vs))"
  by (simp add: nth_append list_update_append)

lemma once_rest: "length xs = 6 \<Longrightarrow> once strict xs = []"
  by (cases xs) simp_all

text \<open>A stream of words: what is handled is what the recursive description says.\<close>

lemma addBytetoMessage_stream:
  assumes "queue_ok p"
  shows "\<exists>q i. foldl (\<lambda>p v. addBytetoMessage v p) p vs =
      (handle_all (once (amtorFecError p) (window p @ vs)) p)\<lparr>amtorQueue := q, amtorQP := i\<rparr>"
  using assms
proof (induction vs arbitrary: p)
  case Nil
  then show ?case by (auto simp: once_rest intro!: exI [of _ "amtorQueue p"] exI [of _ "amtorQP p"])
next
  case (Cons v vs)
  obtain x xs where w: "window p = x # xs" by (metis length_window list.exhaust list.size(3) zero_neq_numeral)
  then have l: "length xs = 5" using length_window [of p] by simp
  note s = addBytetoMessage_step [OF Cons.prems w, of v]
  obtain q i where a: "addBytetoMessage v p =
      (if x \<in> passed_over then p else HandleChar (if x = xs ! 4 then x else if amtorFecError p then 0x78 else x) p)
        \<lparr>amtorQueue := q, amtorQP := i\<rparr>" using s(1) by blast
  obtain q' i' where b: "foldl (\<lambda>p v. addBytetoMessage v p) (addBytetoMessage v p) vs =
      (handle_all (once (amtorFecError (addBytetoMessage v p)) (window (addBytetoMessage v p) @ vs)) (addBytetoMessage v p))
        \<lparr>amtorQueue := q', amtorQP := i'\<rparr>" using Cons.IH [OF s(3)] by blast
  have f: "amtorFecError (addBytetoMessage v p) = amtorFecError p" by (simp add: a)
  show ?case
    by (rule exI [of _ q'], rule exI [of _ i'])
      (simp add: b f s(2) w once_take [OF l] del: once.simps, simp add: a)
qed

section \<open>A message on the air\<close>

text \<open>
  The words of a message: phasing pairs, then at the even places the characters and at the odd places, five later,
  their copies; free places hold the phasing signal, and a pair of phasing signals in the reverse order ends the
  message. The last word is not looked at.
\<close>

function weave :: "'a list \<Rightarrow> 'a list \<Rightarrow> 'a list" where
  "weave [] ys = ys"
| "weave (x # xs) ys = x # weave ys xs"
  by pat_completeness auto
termination by (relation "measure (\<lambda>(xs, ys). length xs + length ys)") simp_all

definition sitor_body :: "int list \<Rightarrow> int list" where
  "sitor_body ks = weave (ks @ [ALPHA, ALPHA, ALPHA]) (ALPHA # ALPHA # ks)"

definition sitor :: "nat \<Rightarrow> int list \<Rightarrow> int list" where
  "sitor n ks = concat (replicate n [BETA, ALPHA]) @ sitor_body ks @ [BETA, ALPHA]"

lemma length_weave [length_simps, simp]: "length (weave xs ys) = length xs + length ys"
  by (induction xs ys rule: weave.induct) simp_all

lemma set_weave [simp]: "set (weave xs ys) = set xs \<union> set ys"
  by (induction xs ys rule: weave.induct) auto

lemma once_weave:
  assumes "set ks \<inter> passed_over = {}" "{y1, y2} \<subseteq> passed_over"
  shows "once strict (weave (ks @ [ALPHA, ALPHA, ALPHA]) (y1 # y2 # ks) @ [z]) = ks"
  using assms
proof (induction ks arbitrary: y1 y2)
  case Nil
  then show ?case by (simp add: passed_over_def)
next
  case (Cons k ks)
  obtain e1 e2 e3 es where e: "ks @ [ALPHA, ALPHA, ALPHA] = e1 # e2 # e3 # es"
    by (cases ks; cases "tl ks"; cases "tl (tl ks)") auto
  have len: "length (weave es ks) = 2 * length ks" using arg_cong [OF e, of length] by simp
  have "once strict (weave ((k # ks) @ [ALPHA, ALPHA, ALPHA]) (y1 # y2 # k # ks) @ [z])
      = k # once strict (y1 # weave (ks @ [ALPHA, ALPHA, ALPHA]) (y2 # SCRAPPED # ks) @ [z])"
    using Cons.prems by (simp add: e numeral_nat)
  also have "\<dots> = k # once strict (weave (ks @ [ALPHA, ALPHA, ALPHA]) (y2 # SCRAPPED # ks) @ [z])"
    using Cons.prems by simp
  also have "\<dots> = k # ks" using Cons.prems by (subst Cons.IH) (auto simp: passed_over_def)
  finally show ?case .
qed

lemma once_phasing: "6 \<le> length xs \<Longrightarrow> once strict (BETA # xs) = once strict xs"
  by (simp add: passed_over_def)

lemma once_sitor_body:
  assumes "set ks \<inter> passed_over = {}"
  shows "once strict (replicate 6 BETA @ sitor_body ks @ [BETA]) = ks"
proof -
  have "replicate 6 BETA = [BETA, BETA, BETA, BETA, BETA, BETA]" by (simp add: numeral_nat)
  then show ?thesis
    using once_weave [OF assms, of ALPHA ALPHA strict BETA]
    by (simp add: once_phasing sitor_body_def passed_over_def del: once.simps)
qed

text \<open>The state machine over the words.\<close>

lemma decoder_phasing:
  "amtorState p = X0 \<or> amtorState p = X1 \<Longrightarrow> 0 < n \<Longrightarrow>
     foldl (\<lambda>p v. amtor_decoder v p) p (concat (replicate n [BETA, ALPHA])) = p\<lparr>amtorState := X1\<rparr>"
proof (induction n arbitrary: p)
  case (Suc n)
  have "amtor_decoder ALPHA (amtor_decoder BETA p) = p\<lparr>amtorState := X1\<rparr>"
    using Suc.prems by (auto simp: amtor_decoder_def)
  then show ?case using Suc.IH [of "p\<lparr>amtorState := X1\<rparr>"] by (cases n) simp_all
qed simp

definition word_state :: "amtor_state \<Rightarrow> int \<Rightarrow> amtor_state" where
  "word_state s v = (if s = X3 \<and> v = ALPHA then X4 else X3)"

lemma addBytetoMessage_state:
  "addBytetoMessage v (p\<lparr>amtorState := s\<rparr>) = (addBytetoMessage v p)\<lparr>amtorState := s\<rparr>"
  by (simp add: addBytetoMessage_def queue_next_def Let_def)

lemma addBytetoMessage_keeps [simp]:
  "amtorState (addBytetoMessage v p) = amtorState p" "amtorFecError (addBytetoMessage v p) = amtorFecError p"
  "showAlways (addBytetoMessage v p) = showAlways p" "amtorOldFragment (addBytetoMessage v p) = amtorOldFragment p"
  "fragmentCount (addBytetoMessage v p) = fragmentCount p"
  by (simp_all add: addBytetoMessage_def queue_next_def Let_def)

lemma foldl_addByte_state:
  "foldl (\<lambda>p v. addBytetoMessage v p) (p\<lparr>amtorState := s\<rparr>) vs
    = (foldl (\<lambda>p v. addBytetoMessage v p) p vs)\<lparr>amtorState := s\<rparr>"
  by (induction vs arbitrary: p) (simp_all add: addBytetoMessage_state)

lemma decoder_body:
  assumes "amtorState p = X3 \<or> amtorState p = X4" "BETA \<notin> set vs"
  shows "foldl (\<lambda>p v. amtor_decoder v p) p vs
    = (foldl (\<lambda>p v. addBytetoMessage v p) p vs)\<lparr>amtorState := foldl word_state (amtorState p) vs\<rparr>"
  using assms
proof (induction vs arbitrary: p)
  case (Cons v vs)
  have "amtor_decoder v p = (addBytetoMessage v p)\<lparr>amtorState := word_state (amtorState p) v\<rparr>"
    using Cons.prems by (auto simp: amtor_decoder_def word_state_def addBytetoMessage_state)
  moreover have "word_state (amtorState p) v = X3 \<or> word_state (amtorState p) v = X4" by (simp add: word_state_def)
  ultimately show ?case using Cons.IH [of "amtor_decoder v p"] Cons.prems by (simp add: foldl_addByte_state)
qed simp

lemma sitor_body_end:
  assumes "ks \<noteq> []" "set ks \<inter> passed_over = {}"
  shows "foldl word_state s (sitor_body ks) = X4"
proof -
  obtain us k where ks: "ks = us @ [k]" using assms(1) by (metis rev_exhaust)
  have w: "length as = length bs \<Longrightarrow> weave (as @ cs) (bs @ ds) = weave as bs @ weave cs ds" for as bs cs ds :: "int list"
  proof (induction as bs rule: list_induct2)
    case (Cons a as b bs)
    then show ?case by simp
  qed simp
  have "sitor_body ks = weave (us @ [k, ALPHA]) (ALPHA # ALPHA # us) @ weave [ALPHA, ALPHA] [k]"
    using w [of "us @ [k, ALPHA]" "ALPHA # ALPHA # us" "[ALPHA, ALPHA]" "[k]"] by (simp add: sitor_body_def ks)
  moreover have "weave [ALPHA, ALPHA] [k] = [ALPHA, k, ALPHA]" by simp
  moreover have "k \<noteq> ALPHA" using assms(2) by (auto simp: ks passed_over_def)
  ultimately show ?thesis by (simp add: word_state_def)
qed

section \<open>Characters\<close>

text \<open>The entries a sender uses, and the codes of a text, with a shift where it is needed.\<close>

definition ccir_sent :: "(char \<times> char \<times> int) list" where
  "ccir_sent = filter (\<lambda>(l, d, k). k \<notin> {LETTER, DIGIT, ALPHA, BETA}) ccir_entries"

definition ccir_key :: "bool \<Rightarrow> char \<Rightarrow> int option" where
  "ccir_key shift c = map_of (map (\<lambda>(l, d, k). (if shift then l else d, k)) ccir_sent) c"

fun ccir_codes :: "bool \<Rightarrow> string \<Rightarrow> int list" where
  "ccir_codes shift [] = []"
| "ccir_codes shift (c # cs) =
     (case ccir_key shift c of
        Some k \<Rightarrow> k # ccir_codes shift cs
      | None \<Rightarrow> (if shift then DIGIT else LETTER) # the (ccir_key (\<not> shift) c) # ccir_codes (\<not> shift) cs)"

definition ccir_chars :: "char set" where
  "ccir_chars = {c. ccir_key True c \<noteq> None \<or> ccir_key False c \<noteq> None}"

lemma ccir_entries: "ccir_entries = take 33 CCIR_476_ITA4"
  by (simp add: ccir_entries_def CCIR_476_ITA4_def)

lemma ccir_sent_found:
  "list_all (\<lambda>(l, d, k). k \<noteq> - 1 \<and> k \<noteq> LETTER \<and> k \<noteq> DIGIT \<and> k \<notin> passed_over
     \<and> find (\<lambda>(l, d, k'). k' = k) ccir_entries = Some (l, d, k)) ccir_sent"
  by (simp add: ccir_sent_def ccir_entries CCIR_476_ITA4_def passed_over_def)

lemma ccir_keyD:
  assumes "ccir_key shift c = Some k"
  shows "k \<noteq> - 1" "k \<noteq> LETTER" "k \<noteq> DIGIT" "k \<notin> passed_over" "k \<in> (snd \<circ> snd) ` set ccir_sent"
    and "\<exists>l d. find (\<lambda>(l, d, k'). k' = k) ccir_entries = Some (l, d, k) \<and> c = (if shift then l else d)"
proof -
  obtain l d where ldk: "(l, d, k) \<in> set ccir_sent" and c: "c = (if shift then l else d)"
    using map_of_SomeD [OF assms [unfolded ccir_key_def]] by auto
  have f: "k \<noteq> - 1 \<and> k \<noteq> LETTER \<and> k \<noteq> DIGIT \<and> k \<notin> passed_over
     \<and> find (\<lambda>(l, d, k'). k' = k) ccir_entries = Some (l, d, k)"
    using ccir_sent_found ldk by (auto simp: list_all_iff)
  then show "k \<noteq> - 1" "k \<noteq> LETTER" "k \<noteq> DIGIT" "k \<notin> passed_over" by simp_all
  show "k \<in> (snd \<circ> snd) ` set ccir_sent" using ldk by force
  show "\<exists>l d. find (\<lambda>(l, d, k'). k' = k) ccir_entries = Some (l, d, k) \<and> c = (if shift then l else d)"
    using f c by blast
qed

lemma HandleChar_key:
  assumes "ccir_key (amtorLettershift p) c = Some k"
  shows "HandleChar k p = amtorText c p"
  using ccir_keyD [OF assms] by (auto simp: HandleChar_def)

lemma amtorText_shown:
  assumes "showAlways p" "length (amtorTextstring p) \<le> 70"
  shows "amtorTextstring (amtorText c p) = last_70 (amtorTextstring p @ [visible c])"
  using assms by (simp add: amtorText_def amtor_addText)

lemma HandleChar_shift [simp]:
  "HandleChar DIGIT p = p\<lparr>amtorLettershift := False\<rparr>" "HandleChar LETTER p = p\<lparr>amtorLettershift := True\<rparr>"
  by (simp_all add: HandleChar_def)

lemma handle_all_text:
  assumes "showAlways p" "length (amtorTextstring p) \<le> 70" "set cs \<subseteq> ccir_chars" "amtorLettershift p = shift"
  shows "amtorTextstring (handle_all (ccir_codes shift cs) p) = last_70 (amtorTextstring p @ map visible cs)"
  using assms
proof (induction shift cs arbitrary: p rule: ccir_codes.induct)
  case (1 shift)
  then show ?case by (simp add: last_70_short)
next
  case (2 shift c cs)
  show ?case
  proof (cases "ccir_key shift c")
    case None
    with "2.prems"(3) obtain k where k: "ccir_key (\<not> shift) c = Some k" by (cases shift) (auto simp: ccir_chars_def)
    let ?q = "p\<lparr>amtorLettershift := \<not> shift\<rparr>"
    have h: "HandleChar k ?q = amtorText c ?q" by (rule HandleChar_key) (simp add: k)
    show ?thesis
      using "2.IH"(1) [OF None, of "amtorText c ?q"] "2.prems" k h None amtorText_shown [of ?q c] by (cases shift) simp_all
  next
    case (Some k)
    have h: "HandleChar k p = amtorText c p" by (rule HandleChar_key) (simp add: Some "2.prems")
    show ?thesis
      using "2.IH"(2) [OF Some, of "amtorText c p"] "2.prems" h Some amtorText_shown [of p c] by simp
  qed
qed

lemma ccir_codes_set:
  assumes "set cs \<subseteq> ccir_chars" "k \<in> set (ccir_codes shift cs)"
  shows "k = LETTER \<or> k = DIGIT \<or> k \<in> (snd \<circ> snd) ` set ccir_sent"
  using assms
proof (induction shift cs rule: ccir_codes.induct)
  case (2 shift c cs)
  show ?case
  proof (cases "ccir_key shift c")
    case None
    with "2.prems"(1) obtain j where "ccir_key (\<not> shift) c = Some j" by (cases shift) (auto simp: ccir_chars_def)
    then show ?thesis using "2.IH"(1) [OF None] "2.prems" None ccir_keyD(5) [of "\<not> shift" c j]
      by (auto split: if_splits)
  next
    case (Some j)
    then show ?thesis using "2.IH"(2) [OF Some] "2.prems" ccir_keyD(5) [OF Some] by auto
  qed
qed simp

section \<open>Words from bits\<close>

text \<open>The counters of the bit clock and of the shift register play no part above them.\<close>

lemma amtorText_counters [simp]:
  "amtorText c (p\<lparr>amtorShiftReg := r\<rparr>) = (amtorText c p)\<lparr>amtorShiftReg := r\<rparr>"
  "amtorText c (p\<lparr>amtorBitCount := n\<rparr>) = (amtorText c p)\<lparr>amtorBitCount := n\<rparr>"
  "amtorText c (p\<lparr>fragmentCount := n\<rparr>) = (amtorText c p)\<lparr>fragmentCount := n\<rparr>"
  "amtorText c (p\<lparr>amtorOldFragment := n\<rparr>) = (amtorText c p)\<lparr>amtorOldFragment := n\<rparr>"
  "amtorText c (p\<lparr>amtorLettershift := b\<rparr>) = (amtorText c p)\<lparr>amtorLettershift := b\<rparr>"
  by (simp_all add: amtor_text_defs split: amtor_mode.split)

lemma HandleChar_counters [simp]:
  "HandleChar k (p\<lparr>amtorShiftReg := r\<rparr>) = (HandleChar k p)\<lparr>amtorShiftReg := r\<rparr>"
  "HandleChar k (p\<lparr>amtorBitCount := n\<rparr>) = (HandleChar k p)\<lparr>amtorBitCount := n\<rparr>"
  "HandleChar k (p\<lparr>fragmentCount := n\<rparr>) = (HandleChar k p)\<lparr>fragmentCount := n\<rparr>"
  "HandleChar k (p\<lparr>amtorOldFragment := n\<rparr>) = (HandleChar k p)\<lparr>amtorOldFragment := n\<rparr>"
  by (simp_all add: HandleChar_def split: option.split)

lemma addBytetoMessage_counters [simp]:
  "addBytetoMessage v (p\<lparr>amtorShiftReg := r\<rparr>) = (addBytetoMessage v p)\<lparr>amtorShiftReg := r\<rparr>"
  "addBytetoMessage v (p\<lparr>amtorBitCount := n\<rparr>) = (addBytetoMessage v p)\<lparr>amtorBitCount := n\<rparr>"
  "addBytetoMessage v (p\<lparr>fragmentCount := n\<rparr>) = (addBytetoMessage v p)\<lparr>fragmentCount := n\<rparr>"
  "addBytetoMessage v (p\<lparr>amtorOldFragment := n\<rparr>) = (addBytetoMessage v p)\<lparr>amtorOldFragment := n\<rparr>"
  "addBytetoMessage v (p\<lparr>amtorState := s\<rparr>) = (addBytetoMessage v p)\<lparr>amtorState := s\<rparr>"
  by (simp_all add: addBytetoMessage_def queue_next_def Let_def)

lemma initMessage_counters [simp]:
  "initMessage (p\<lparr>amtorShiftReg := r\<rparr>) = (initMessage p)\<lparr>amtorShiftReg := r\<rparr>"
  "initMessage (p\<lparr>amtorBitCount := n\<rparr>) = (initMessage p)\<lparr>amtorBitCount := n\<rparr>"
  "initMessage (p\<lparr>fragmentCount := n\<rparr>) = (initMessage p)\<lparr>fragmentCount := n\<rparr>"
  "initMessage (p\<lparr>amtorOldFragment := n\<rparr>) = (initMessage p)\<lparr>amtorOldFragment := n\<rparr>"
  by (simp_all add: initMessage_def)

lemma decoder_counters [simp]:
  "amtor_decoder v (p\<lparr>amtorShiftReg := r\<rparr>) = (amtor_decoder v p)\<lparr>amtorShiftReg := r\<rparr>"
  "amtor_decoder v (p\<lparr>amtorBitCount := n\<rparr>) = (amtor_decoder v p)\<lparr>amtorBitCount := n\<rparr>"
  "amtor_decoder v (p\<lparr>fragmentCount := n\<rparr>) = (amtor_decoder v p)\<lparr>fragmentCount := n\<rparr>"
  "amtor_decoder v (p\<lparr>amtorOldFragment := n\<rparr>) = (amtor_decoder v p)\<lparr>amtorOldFragment := n\<rparr>"
  by (simp_all add: amtor_decoder_def flushBuffer_def split: amtor_state.split)

lemma addfullBit_counters [simp]:
  "addfullBit x (p\<lparr>fragmentCount := n\<rparr>) = (addfullBit x p)\<lparr>fragmentCount := n\<rparr>"
  "addfullBit x (p\<lparr>amtorOldFragment := n\<rparr>) = (addfullBit x p)\<lparr>amtorOldFragment := n\<rparr>"
  by (simp_all add: addfullBit_def Let_def)

abbreviation full_bits :: "nat list \<Rightarrow> amtor \<Rightarrow> amtor" where
  "full_bits xs p \<equiv> foldl (\<lambda>p x. addfullBit x p) p xs"

text \<open>The seven bits of a word, the highest one first, and the words a message is made of.\<close>

definition word_bits :: "int \<Rightarrow> nat list" where
  "word_bits k = map (\<lambda>i. drop_bit (6 - i) (nat k) mod 2) [0 ..< 7]"

definition ccir_words :: "int set" where
  "ccir_words = {LETTER, DIGIT, ALPHA, BETA} \<union> (snd \<circ> snd) ` set ccir_sent"

definition word_reg :: "nat list \<Rightarrow> u16" where
  "word_reg xs = foldl (\<lambda>r x. push_bit 1 r OR (of_nat x AND 1)) 0 xs"

lemma ccir_words_good:
  assumes "k \<in> ccir_words"
  shows "validate (word_reg (word_bits k)) 4 \<and> uint (word_reg (word_bits k)) = k"
proof -
  have "list_all (\<lambda>k. validate (word_reg (word_bits k)) 4 \<and> uint (word_reg (word_bits k)) = k)
      ([LETTER, DIGIT, ALPHA, BETA] @ map (snd \<circ> snd) ccir_sent)"
    by code_simp
  then show ?thesis using assms by (auto simp: list_all_iff ccir_words_def)
qed

lemma addfullBit_below:
  "amtorBitCount p < 6 \<Longrightarrow> addfullBit x p =
     p\<lparr>amtorBitCount := amtorBitCount p + 1, amtorShiftReg := push_bit 1 (amtorShiftReg p) OR (of_nat x AND 1)\<rparr>"
  by (simp add: addfullBit_def)

lemma addfullBit_seventh:
  "amtorBitCount p = 6 \<Longrightarrow> validate (push_bit 1 (amtorShiftReg p) OR (of_nat x AND 1)) 4 \<Longrightarrow> addfullBit x p =
     (amtor_decoder (uint (push_bit 1 (amtorShiftReg p) OR (of_nat x AND 1))) p)\<lparr>amtorBitCount := 0, amtorShiftReg := 0\<rparr>"
  by (simp add: addfullBit_def Let_def del: push_bit_numeral_minus_1)

lemma full_bits_shift:
  "length xs + amtorBitCount p \<le> 6 \<Longrightarrow> full_bits xs p = p\<lparr>amtorBitCount := amtorBitCount p + length xs,
      amtorShiftReg := foldl (\<lambda>r x. push_bit 1 r OR (of_nat x AND 1)) (amtorShiftReg p) xs\<rparr>"
proof (induction xs rule: rev_induct)
  case (snoc x xs)
  then have IH: "full_bits xs p = p\<lparr>amtorBitCount := amtorBitCount p + length xs,
      amtorShiftReg := foldl (\<lambda>r x. push_bit 1 r OR (of_nat x AND 1)) (amtorShiftReg p) xs\<rparr>" by simp
  show ?case using snoc.prems by (simp only: foldl_append IH foldl.simps, subst addfullBit_below) simp_all
qed simp

lemma full_bits_word:
  assumes "amtorBitCount p = 0" "amtorShiftReg p = 0" "k \<in> ccir_words"
  shows "full_bits (word_bits k) p = amtor_decoder k p"
    "amtorBitCount (amtor_decoder k p) = 0" "amtorShiftReg (amtor_decoder k p) = 0"
proof -
  define xs x where "xs = butlast (word_bits k)" and "x = last (word_bits k)"
  have l: "length (word_bits k) = 7" by (simp add: word_bits_def)
  then have w: "word_bits k = xs @ [x]" unfolding xs_def x_def by (metis append_butlast_last_id list.size(3) zero_neq_numeral)
  then have lx: "length xs = 6" using l by simp
  have "p\<lparr>amtorBitCount := 0, amtorShiftReg := 0\<rparr> = p" using assms(1,2) by (cases p) simp
  then have d: "amtor_decoder k p = (amtor_decoder k p)\<lparr>amtorBitCount := 0, amtorShiftReg := 0\<rparr>"
    by (metis decoder_counters(1,2))
  note good = ccir_words_good [OF assms(3), unfolded word_reg_def w]
  show "full_bits (word_bits k) p = amtor_decoder k p"
    using full_bits_shift [of xs p] good assms(1,2) lx d
    by (simp only: w foldl_append foldl.simps, subst addfullBit_seventh) simp_all
  show "amtorBitCount (amtor_decoder k p) = 0" by (subst d) simp
  show "amtorShiftReg (amtor_decoder k p) = 0" by (subst d) simp
qed

lemma full_bits_words:
  assumes "amtorBitCount p = 0" "amtorShiftReg p = 0" "set ks \<subseteq> ccir_words"
  shows "full_bits (concat (map word_bits ks)) p = foldl (\<lambda>p k. amtor_decoder k p) p ks
    \<and> amtorBitCount (foldl (\<lambda>p k. amtor_decoder k p) p ks) = 0 \<and> amtorShiftReg (foldl (\<lambda>p k. amtor_decoder k p) p ks) = 0"
  using assms by (induction ks arbitrary: p) (simp_all add: full_bits_word)

section \<open>Bits from fragments\<close>

text \<open>
  A run of \<open>L\<close> fragments of the same level stands for \<open>r\<close> bits. The bit clock starts anew with every change of
  the level; a run may be up to four fragments short of its ten fragments for each bit, or five long. \<open>c\<close> and
  \<open>old\<close> are the clock and the level before the runs.
\<close>

fun runs_ok :: "nat \<Rightarrow> nat \<Rightarrow> (nat \<times> nat \<times> nat) list \<Rightarrow> bool" where
  "runs_ok c old [] = True"
| "runs_ok c old ((b, r, L) # runs) =
     (if b \<noteq> old then 0 < r \<and> 10 * r \<le> L + 4 \<and> L \<le> 10 * r + 5 \<and> runs_ok ((L + 4) mod 10) b runs
      else 10 * r \<le> c + L \<and> c + L < 10 * r + 10 \<and> runs_ok ((c + L) mod 10) b runs)"

definition run_fragments :: "(nat \<times> nat \<times> nat) list \<Rightarrow> nat list" where
  "run_fragments runs = concat (map (\<lambda>(b, r, L). replicate L b) runs)"

definition run_bits :: "(nat \<times> nat \<times> nat) list \<Rightarrow> nat list" where
  "run_bits runs = concat (map (\<lambda>(b, r, L). replicate r b) runs)"

abbreviation all_fragments :: "nat list \<Rightarrow> amtor \<Rightarrow> amtor" where
  "all_fragments fs p \<equiv> foldl (\<lambda>p f. addbitfragment f p) p fs"

lemma addfullBit_clock [simp]:
  "fragmentCount (addfullBit x p) = fragmentCount p" "amtorOldFragment (addfullBit x p) = amtorOldFragment p"
  using addfullBit_counters(1) [of x "fragmentCount p" p] addfullBit_counters(2) [of x "amtorOldFragment p" p]
  by (metis amtor.select_convs(1) amtor.surjective amtor.update_convs(1),
      metis amtor.select_convs(2) amtor.surjective amtor.update_convs(2))

lemma full_bits_clock [simp]:
  "full_bits xs (p\<lparr>fragmentCount := n\<rparr>) = (full_bits xs p)\<lparr>fragmentCount := n\<rparr>"
  "full_bits xs (p\<lparr>amtorOldFragment := n\<rparr>) = (full_bits xs p)\<lparr>amtorOldFragment := n\<rparr>"
  "fragmentCount (full_bits xs p) = fragmentCount p" "amtorOldFragment (full_bits xs p) = amtorOldFragment p"
  by (induction xs arbitrary: p) simp_all

lemma fragments_same_level:
  assumes "amtorOldFragment p = b" "fragmentCount p < 10"
  shows "all_fragments (replicate m b) p
    = (full_bits (replicate ((fragmentCount p + m) div 10) b) p)\<lparr>fragmentCount := (fragmentCount p + m) mod 10\<rparr>"
  using assms
proof (induction m arbitrary: p)
  case (Suc m)
  show ?case
  proof (cases "fragmentCount p = 9")
    case True
    then have "addbitfragment b p = (addfullBit b p)\<lparr>fragmentCount := 0\<rparr>"
      using Suc.prems by (simp add: addbitfragment_def)
    moreover have "(10 + m) div 10 = Suc (m div 10)" by simp
    ultimately show ?thesis using Suc.IH [of "(addfullBit b p)\<lparr>fragmentCount := 0\<rparr>"] Suc.prems True by simp
  next
    case False
    then have "addbitfragment b p = p\<lparr>fragmentCount := fragmentCount p + 1\<rparr>"
      using Suc.prems by (simp add: addbitfragment_def)
    then show ?thesis using Suc.IH [of "p\<lparr>fragmentCount := fragmentCount p + 1\<rparr>"] Suc.prems False by simp
  qed
qed simp

lemma fragments_new_level:
  assumes "amtorOldFragment p \<noteq> b" "0 < L"
  shows "all_fragments (replicate L b) p
    = (full_bits (replicate ((L + 4) div 10) b) p)\<lparr>fragmentCount := (L + 4) mod 10, amtorOldFragment := b\<rparr>"
proof -
  obtain m where L: "L = Suc m" using assms(2) by (cases L) simp_all
  have "addbitfragment b p = p\<lparr>fragmentCount := 5, amtorOldFragment := b\<rparr>"
    using assms(1) by (simp add: addbitfragment_def)
  then show ?thesis
    using fragments_same_level [of "p\<lparr>fragmentCount := 5, amtorOldFragment := b\<rparr>" b m] by (simp add: L add.commute)
qed

lemma fragments_runs:
  assumes "runs_ok (fragmentCount p) (amtorOldFragment p) runs" "fragmentCount p < 10"
  shows "\<exists>c b. all_fragments (run_fragments runs) p
    = (full_bits (run_bits runs) p)\<lparr>fragmentCount := c, amtorOldFragment := b\<rparr> \<and> c < 10"
  using assms
proof (induction runs arbitrary: p)
  case Nil
  then show ?case
    by (intro exI [of _ "fragmentCount p"] exI [of _ "amtorOldFragment p"]) (simp add: run_fragments_def run_bits_def)
next
  case (Cons x runs)
  obtain b r L where x: "x = (b, r, L)" by (cases x)
  define q where "q = (full_bits (replicate r b) p)\<lparr>fragmentCount := (if b \<noteq> amtorOldFragment p then L + 4
      else fragmentCount p + L) mod 10, amtorOldFragment := b\<rparr>"
  have q: "all_fragments (replicate L b) p = q"
  proof (cases "b = amtorOldFragment p")
    case True
    have "10 * r \<le> fragmentCount p + L" "fragmentCount p + L < 10 * Suc r" using Cons.prems True by (simp_all add: x)
    then have "(fragmentCount p + L) div 10 = r" by (rule div_nat_eqI)
    then show ?thesis using fragments_same_level [OF True [symmetric], of L] Cons.prems True
      by (simp add: q_def)
  next
    case False
    have "10 * r \<le> L + 4" "L + 4 < 10 * Suc r" "0 < L" using Cons.prems False by (auto simp: x)
    moreover from this(1,2) have "(L + 4) div 10 = r" by (rule div_nat_eqI)
    ultimately show ?thesis using fragments_new_level [of p b L] False by (simp add: q_def)
  qed
  have "runs_ok (fragmentCount q) (amtorOldFragment q) runs" "fragmentCount q < 10"
    using Cons.prems by (simp_all add: q_def x split: if_splits)
  from Cons.IH [OF this] obtain c b' where
    "all_fragments (run_fragments runs) q = (full_bits (run_bits runs) q)\<lparr>fragmentCount := c, amtorOldFragment := b'\<rparr>"
    "c < 10" by blast
  then have "all_fragments (run_fragments (x # runs)) p
      = (full_bits (run_bits (x # runs)) p)\<lparr>fragmentCount := c, amtorOldFragment := b'\<rparr> \<and> c < 10"
    by (simp add: run_fragments_def run_bits_def x q) (simp add: q_def)
  then show ?case by blast
qed

section \<open>Reception\<close>

lemma queue_initMessage [simp]: "queue_ok (initMessage p)" "window (initMessage p) = replicate 6 BETA"
proof -
  show "queue_ok (initMessage p)" by (simp add: initMessage_def queue_ok_def)
  then show "window (initMessage p) = replicate 6 BETA"
    by (intro nth_equalityI) (simp_all add: window_nth, simp add: initMessage_def)
qed

lemma initMessage_state: "initMessage (p\<lparr>amtorState := s\<rparr>) = (initMessage p)\<lparr>amtorState := s\<rparr>"
  by (simp add: initMessage_def)

text \<open>The words of a message, from waiting to waiting: every code is handled once, then the display is spaced.\<close>

lemma decoder_sitor:
  assumes "amtorState p = X0" "0 < n" "ks \<noteq> []" "set ks \<inter> passed_over = {}"
  shows "\<exists>q i. foldl (\<lambda>p v. amtor_decoder v p) p (sitor n ks)
    = (flushBuffer (handle_all ks (initMessage p)))\<lparr>amtorQueue := q, amtorQP := i, amtorState := X0\<rparr>"
proof -
  obtain k ks' where ks: "ks = k # ks'" using assms(3) by (cases ks) simp_all
  define ws where "ws = weave (ALPHA # ALPHA # ks) (ks' @ [ALPHA, ALPHA, ALPHA])"
  have body: "sitor_body ks = k # ws" by (simp add: sitor_body_def ks ws_def)
  have k: "k \<noteq> BETA" "k \<noteq> ALPHA" using assms(4) by (auto simp: ks passed_over_def)
  have nb: "BETA \<notin> set ws" using assms(4) by (auto simp: ws_def ks passed_over_def)
  let ?p = "p\<lparr>amtorState := X1\<rparr>"
  let ?init = "initMessage ?p"
  let ?add = "foldl (\<lambda>p v. addBytetoMessage v p)"
  have "foldl (\<lambda>p v. amtor_decoder v p) p (concat (replicate n [BETA, ALPHA])) = ?p"
    using assms(1,2) by (simp add: decoder_phasing)
  moreover have "amtor_decoder k ?p = (addBytetoMessage k ?init)\<lparr>amtorState := X3\<rparr>"
    using k by (simp add: amtor_decoder_def)
  moreover have "foldl word_state X3 ws = X4"
    using sitor_body_end [OF assms(3,4), of X4] k by (simp add: body word_state_def)
  then have "foldl (\<lambda>p v. amtor_decoder v p) ((addBytetoMessage k ?init)\<lparr>amtorState := X3\<rparr>) ws
      = (?add ?init (sitor_body ks))\<lparr>amtorState := X4\<rparr>"
    using decoder_body [of "(addBytetoMessage k ?init)\<lparr>amtorState := X3\<rparr>" ws] nb
    by (simp add: body foldl_addByte_state)
  moreover have "amtor_decoder BETA ((?add ?init (sitor_body ks))\<lparr>amtorState := X4\<rparr>)
      = (?add ?init (sitor_body ks @ [BETA]))\<lparr>amtorState := X6\<rparr>"
    by (simp add: amtor_decoder_def)
  ultimately have run: "foldl (\<lambda>p v. amtor_decoder v p) p (sitor n ks)
      = (flushBuffer ((?add ?init (sitor_body ks @ [BETA]))\<lparr>amtorState := X6\<rparr>))\<lparr>amtorState := X0\<rparr>"
    by (simp add: sitor_def body amtor_decoder_def del: foldl_append) (simp add: amtor_decoder_def)
  obtain q i where "?add ?init (sitor_body ks @ [BETA])
      = (handle_all (once (amtorFecError ?init) (window ?init @ sitor_body ks @ [BETA])) ?init)\<lparr>amtorQueue := q, amtorQP := i\<rparr>"
    using addBytetoMessage_stream [of ?init "sitor_body ks @ [BETA]"] by auto
  then have "?add ?init (sitor_body ks @ [BETA]) = (handle_all ks ?init)\<lparr>amtorQueue := q, amtorQP := i\<rparr>"
    using once_sitor_body [OF assms(4)] by simp
  then show ?thesis
    by (intro exI [of _ q] exI [of _ i]) (simp add: run flushBuffer_def initMessage_state)
qed

lemma flushBuffer_shown:
  assumes "showAlways p" "length (amtorTextstring p) \<le> 70"
  shows "amtorTextstring (flushBuffer p) = last_70 (amtorTextstring p @ ''    '')"
  using assms by (simp add: flushBuffer_def amtorText_shown visible_def)

lemma ccir_codes_words:
  assumes "set cs \<subseteq> ccir_chars"
  shows "set (LETTER # ccir_codes shift cs) \<inter> passed_over = {}" "set (sitor n (LETTER # ccir_codes shift cs)) \<subseteq> ccir_words"
proof -
  have sent: "list_all (\<lambda>(l, d, k). k \<notin> passed_over) ccir_sent" using ccir_sent_found by (auto simp: list_all_iff)
  have codes: "k \<in> set (LETTER # ccir_codes shift cs) \<Longrightarrow> k = LETTER \<or> k = DIGIT \<or> k \<in> (snd \<circ> snd) ` set ccir_sent" for k
    using ccir_codes_set [OF assms] by auto
  show "set (LETTER # ccir_codes shift cs) \<inter> passed_over = {}"
    using codes sent by (fastforce simp: list_all_iff passed_over_def)
  have "set (concat (replicate n [BETA, ALPHA])) \<subseteq> {ALPHA, BETA}" by (induction n) auto
  then show "set (sitor n (LETTER # ccir_codes shift cs)) \<subseteq> ccir_words"
    using codes by (fastforce simp: sitor_def sitor_body_def ccir_words_def)
qed

text \<open>
  C8. A text is received as it was sent: its characters coded in CCIR 476 with the shifts they need, every code sent
  twice, five words apart, behind any number of phasing pairs, the words cut into bits and the bits into fragments
  whose runs may be up to four fragments short or five long. When the decoder waits for a message, it shows every
  character exactly once and in order (control characters as spaces), of the text on display the last 70, and waits
  for the next message, aligned to the words.
\<close>

theorem amtor_message_received:
  assumes "amtorState p = X0" "amtorBitCount p = 0" "amtorShiftReg p = 0" "fragmentCount p < 10"
    and "showAlways p" "length (amtorTextstring p) \<le> 70"
    and "0 < n" "set cs \<subseteq> ccir_chars"
    and "runs_ok (fragmentCount p) (amtorOldFragment p) runs"
    and "run_bits runs = concat (map word_bits (sitor n (LETTER # ccir_codes True cs)))"
  shows "let q = foldl (\<lambda>p f. addbitfragment f p) p (run_fragments runs)
    in amtorTextstring q = last_70 (amtorTextstring p @ map visible cs @ ''    '')
       \<and> amtorState q = X0 \<and> amtorBitCount q = 0 \<and> amtorShiftReg q = 0 \<and> fragmentCount q < 10"
proof -
  let ?ks = "LETTER # ccir_codes True cs"
  note words = ccir_codes_words [OF assms(8)]
  note bits = full_bits_words [OF assms(2,3) words(2) [of n True]]
  obtain i j where dec: "foldl (\<lambda>p v. amtor_decoder v p) p (sitor n ?ks)
      = (flushBuffer (handle_all ?ks (initMessage p)))\<lparr>amtorQueue := i, amtorQP := j, amtorState := X0\<rparr>"
    using decoder_sitor [OF assms(1,7) _ words(1)] by blast
  obtain c b where run: "all_fragments (run_fragments runs) p
      = (full_bits (run_bits runs) p)\<lparr>fragmentCount := c, amtorOldFragment := b\<rparr>" "c < 10"
    using fragments_runs [OF assms(9,4)] by blast
  let ?p = "(initMessage p)\<lparr>amtorLettershift := True\<rparr>"
  have p: "showAlways ?p" "length (amtorTextstring ?p) \<le> 70" "amtorLettershift ?p = True"
    using assms(5,6) by (simp_all add: initMessage_def)
  note t = handle_all_text [OF p(1,2) assms(8) p(3)]
  have "amtorTextstring (flushBuffer (handle_all ?ks (initMessage p))) = last_70 (amtorTextstring p @ map visible cs @ ''    '')"
    using flushBuffer_shown [of "handle_all (ccir_codes True cs) ?p"] p t by (simp add: initMessage_def)
  then show ?thesis using bits run dec by (simp add: assms(10) Let_def)
qed

definition example_amtor :: "bool \<Rightarrow> bool \<Rightarrow> amtor" where
  "example_amtor strict onlyMessages = new_amtor (if strict then ''strict fec'' else ''fec'') (if onlyMessages then ''message'' else ''all'')
     \<lparr>fragmentCount = 7, amtorOldFragment = 1, amtorShiftReg = 5, amtorBitCount = 3, amtorState = X3, amtorQueue = [],
      amtorQP = 0, amtorLettershift = False, messageState = STATE_Z, showAlways = False, amtorFecError = False,
      amtorTextstring = ''?''\<rparr>"

theorem amtor_message_received_witness:
  "let cs = ''QTH PA0JVK 73'';
       runs = map (\<lambda>b. (b, 1, 10)) (concat (map word_bits (sitor 4 (LETTER # ccir_codes True cs))))
   in amtorTextstring (foldl (\<lambda>p f. addbitfragment f p) (example_amtor True False) (run_fragments runs))
      = ''QTH PA0JVK 73    ''"
proof -
  let ?p = "example_amtor True False" and ?cs = "''QTH PA0JVK 73''"
  let ?runs = "map (\<lambda>b. (b, 1, 10)) (concat (map word_bits (sitor 4 (LETTER # ccir_codes True ?cs)))) :: (nat \<times> nat \<times> nat) list"
  have chars: "set ?cs \<subseteq> ccir_chars"
    by (simp add: ccir_chars_def ccir_key_def ccir_sent_def ccir_entries CCIR_476_ITA4_def)
  have ok: "c = 0 \<or> c = 4 \<Longrightarrow> runs_ok c old (map (\<lambda>b. (b, 1, 10)) bs)" for c old and bs :: "nat list"
    by (induction bs arbitrary: c old) auto
  have ok0: "runs_ok (fragmentCount ?p) (amtorOldFragment ?p) ?runs"
    by (rule ok) (simp add: example_amtor_def new_amtor_defs)
  have bits: "run_bits (map (\<lambda>b. (b, 1, 10)) bs) = bs" for bs :: "nat list"
    by (induction bs) (simp_all add: run_bits_def)
  have "let q = foldl (\<lambda>p f. addbitfragment f p) ?p (run_fragments ?runs)
    in amtorTextstring q = last_70 (amtorTextstring ?p @ map visible ?cs @ ''    '')
       \<and> amtorState q = X0 \<and> amtorBitCount q = 0 \<and> amtorShiftReg q = 0 \<and> fragmentCount q < 10"
    by (rule amtor_message_received [where n = 4 and cs = ?cs])
      (simp_all only: ok0 bits chars, simp_all add: example_amtor_def new_amtor_defs)
  then show ?thesis by (simp add: Let_def example_amtor_def new_amtor_defs last_70_def visible_def del: ccir_codes.simps)
qed

section \<open>Official messages\<close>

text \<open>The number of letters N at the end of a text, and what the message filter is in.\<close>

definition n_run :: "string \<Rightarrow> nat" where
  "n_run t = length (takeWhile (\<lambda>c. c = CHR ''N'') (rev t))"

definition n_state :: "nat \<Rightarrow> amtor_mode" where
  "n_state k = [STATE_ZCZC, STATE_N, STATE_NN, STATE_NNN] ! k"

lemma n_run_simps [simp]: "n_run [] = 0" "n_run (t @ [c]) = (if c = CHR ''N'' then Suc (n_run t) else 0)"
  by (simp_all add: n_run_def)

lemma n_run_suffix: "k \<le> n_run t \<Longrightarrow> \<exists>u. t = u @ replicate k CHR ''N''"
proof (induction k arbitrary: t)
  case (Suc k)
  then obtain u c where t: "t = u @ [c]" by (cases t rule: rev_exhaust) simp_all
  with Suc.prems have c: "c = CHR ''N''" "k \<le> n_run u" by (auto split: if_splits)
  from Suc.IH [OF c(2)] show ?case by (auto simp: t c(1) replicate_append_same)
qed simp

lemma n_run_below:
  assumes "\<not> sublist ''NNNN'' t" shows "n_run t < 4"
proof (rule ccontr)
  assume "\<not> n_run t < 4"
  then obtain u where "t = u @ replicate 4 CHR ''N''" using n_run_suffix [of 4 t] by auto
  then have "t = u @ ''NNNN'' @ []" by (simp add: numeral_nat)
  then show False using assms by (auto simp: sublist_def)
qed

abbreviation all_text :: "string \<Rightarrow> amtor \<Rightarrow> amtor" where
  "all_text cs p \<equiv> foldl (\<lambda>p c. amtorText c p) p cs"

lemma amtorText_filter:
  assumes "\<not> showAlways p"
  shows "messageState p = NOTHING \<Longrightarrow> c \<noteq> CHR ''Z'' \<Longrightarrow> amtorText c p = p"
    "messageState p = STATE_ZCZC \<Longrightarrow> amtorText c p
      = amtor_addText c (p\<lparr>messageState := (if c = CHR ''N'' then STATE_N else STATE_ZCZC)\<rparr>)"
    "messageState p = STATE_N \<Longrightarrow> amtorText c p
      = amtor_addText c (p\<lparr>messageState := (if c = CHR ''N'' then STATE_NN else STATE_ZCZC)\<rparr>)"
    "messageState p = STATE_NN \<Longrightarrow> amtorText c p
      = amtor_addText c (p\<lparr>messageState := (if c = CHR ''N'' then STATE_NNN else STATE_ZCZC)\<rparr>)"
    "messageState p = STATE_NNN \<Longrightarrow> amtorText c p
      = amtor_addText c (p\<lparr>messageState := (if c = CHR ''N'' then STATE_NNNN else STATE_ZCZC)\<rparr>)"
    "messageState p = STATE_NNNN \<Longrightarrow> amtorText c p = amtor_addText c (p\<lparr>messageState := NOTHING\<rparr>)"
  using assms by (auto simp: amtorText_def intro!: arg_cong [where f = "amtor_addText c"])

lemma amtor_header:
  assumes "\<not> showAlways p" "messageState p = NOTHING" "length (amtorTextstring p) \<le> 70"
  shows "amtorText CHR ''C'' (amtorText CHR ''Z'' (amtorText CHR ''C'' (amtorText CHR ''Z'' p)))
    = p\<lparr>messageState := STATE_ZCZC, amtorTextstring := last_70 (amtorTextstring p @ ''ZCZC'')\<rparr>"
proof -
  have "amtorText CHR ''Z'' (amtorText CHR ''C'' (amtorText CHR ''Z'' p)) = p\<lparr>messageState := STATE_ZCZ\<rparr>"
    using assms(1,2) by (simp add: amtorText_def)
  moreover have "amtorText CHR ''C'' (p\<lparr>messageState := STATE_ZCZ\<rparr>)
    = p\<lparr>messageState := STATE_ZCZC, amtorTextstring := last_70 (amtorTextstring p @ ''ZCZC'')\<rparr>"
    using assms(1,3) by (simp add: amtorText_def amtor_addText visible_def)
  ultimately show ?thesis by simp
qed

lemma amtor_end:
  assumes "\<not> showAlways p" "messageState p = STATE_NNN" "length (amtorTextstring p) \<le> 70"
  shows "amtorText c (amtorText CHR ''N'' p)
    = p\<lparr>messageState := NOTHING, amtorTextstring := last_70 (amtorTextstring p @ [CHR ''N'', visible c])\<rparr>"
proof -
  have "amtorText CHR ''N'' p = p\<lparr>messageState := STATE_NNNN, amtorTextstring := last_70 (amtorTextstring p @ ''N'')\<rparr>"
    using assms by (simp add: amtorText_def amtor_addText visible_def)
  then show ?thesis using assms(1) by (simp add: amtorText_def amtor_addText)
qed

lemma all_text_inside:
  assumes "\<not> showAlways p" "messageState p = STATE_ZCZC" "length (amtorTextstring p) \<le> 70" "\<not> sublist ''NNNN'' cs"
  shows "all_text cs p = p\<lparr>amtorTextstring := last_70 (amtorTextstring p @ map visible cs), messageState := n_state (n_run cs)\<rparr>"
  using assms(4)
proof (induction cs rule: rev_induct)
  case Nil
  show ?case using assms by (simp add: last_70_short n_state_def)
next
  case (snoc c cs)
  have cs: "\<not> sublist ''NNNN'' cs" using snoc.prems sublist_appendI [of "''NNNN''"] by (meson sublist_append)
  have n: "n_run cs < 4" "n_run (cs @ [c]) < 4" using n_run_below cs snoc.prems by blast+
  then have k: "n_run cs = 0 \<or> n_run cs = 1 \<or> n_run cs = 2 \<or> n_run cs = 3 \<and> c \<noteq> CHR ''N''" by (auto split: if_splits)
  show ?case
    using k assms(1) by (elim disjE) (simp_all add: snoc.IH [OF cs] amtorText_filter amtor_addText n_state_def)
qed

text \<open>
  What is to be seen of a text, from the text alone. A message is what follows a header ZCZC up to its first NNNN, and
  one character more. A text that is not at a header loses the characters it has in common with the header and the
  one behind them, even where a header starts with that one.
\<close>

definition message_end :: "string \<Rightarrow> nat" where
  "message_end cs =
     (case find (\<lambda>k. prefix ''NNNN'' (drop k cs)) [0 ..< length cs] of
        None \<Rightarrow> length cs
      | Some k \<Rightarrow> min (length cs) (k + 5))"

function official :: "string \<Rightarrow> string" where
  "official cs =
     (if cs = [] then []
      else if prefix ''ZCZC'' cs
      then let n = 4 + message_end (drop 4 cs) in take n cs @ official (drop n cs)
      else official (drop (1 + length (longest_common_prefix cs ''ZCZC'')) cs))"
  by auto
termination by (relation "measure length") auto

declare official.simps [simp del]

lemma official_Nil [simp]: "official [] = []"
  by (simp add: official.simps)

lemma official_message:
  "official (''ZCZC'' @ ds) = ''ZCZC'' @ take (message_end ds) ds @ official (drop (message_end ds) ds)"
  by (subst official.simps) (simp add: numeral_nat Let_def)

lemma official_other:
  "cs \<noteq> [] \<Longrightarrow> \<not> prefix ''ZCZC'' cs \<Longrightarrow> official cs = official (drop (1 + length (longest_common_prefix cs ''ZCZC'')) cs)"
  by (subst official.simps) simp

lemma first_end:
  assumes "find (\<lambda>k. prefix ''NNNN'' (drop k cs)) [0 ..< length cs] = Some k"
  obtains us vs where "cs = us @ ''NNNN'' @ vs" "length us = k" "\<not> sublist ''NNNN'' (us @ ''NNN'')"
proof -
  from assms have k: "k < length cs" "prefix ''NNNN'' (drop k cs)" "\<And>j. j < k \<Longrightarrow> \<not> prefix ''NNNN'' (drop j cs)"
    by (auto simp: find_Some_iff)
  then obtain vs where vs: "drop k cs = ''NNNN'' @ vs" by (auto simp: prefix_def)
  have cs: "cs = take k cs @ ''NNNN'' @ vs" by (metis append_take_drop_id vs)
  have "\<not> sublist ''NNNN'' (take k cs @ ''NNN'')"
  proof
    assume "sublist ''NNNN'' (take k cs @ ''NNN'')"
    then obtain ps ss where ps: "take k cs @ ''NNN'' = ps @ ''NNNN'' @ ss" by (auto simp: sublist_def)
    then have "length (take k cs @ ''NNN'') = length (ps @ ''NNNN'' @ ss)" by simp
    then have l: "length ps < k" using k(1) by simp
    have "cs = (take k cs @ ''NNN'') @ ''N'' @ vs" using cs by simp
    also have "\<dots> = ps @ ''NNNN'' @ ss @ ''N'' @ vs" unfolding ps by simp
    finally have "prefix ''NNNN'' (drop (length ps) cs)" by (metis append_eq_conv_conj prefixI)
    with k(3) l show False by blast
  qed
  with cs k(1) show thesis by (intro that [of "take k cs" vs]) simp_all
qed

lemma no_end: "find (\<lambda>k. prefix ''NNNN'' (drop k cs)) [0 ..< length cs] = None \<Longrightarrow> \<not> sublist ''NNNN'' cs"
proof
  assume n: "find (\<lambda>k. prefix ''NNNN'' (drop k cs)) [0 ..< length cs] = None" and "sublist ''NNNN'' cs"
  then obtain us vs where "cs = us @ ''NNNN'' @ vs" by (auto simp: sublist_def)
  then have "length us < length cs" "prefix ''NNNN'' (drop (length us) cs)" by simp_all
  with n show False by (auto simp: find_None_iff)
qed

text \<open>Inside of a message everything is shown up to its end, and then the decoder waits again.\<close>

lemma all_text_message:
  assumes "\<not> showAlways p" "messageState p = STATE_ZCZC" "length (amtorTextstring p) \<le> 70"
  shows "\<exists>q. all_text cs p = all_text (drop (message_end cs) cs) q
    \<and> amtorTextstring q = last_70 (amtorTextstring p @ map visible (take (message_end cs) cs)) \<and> \<not> showAlways q
    \<and> (drop (message_end cs) cs \<noteq> [] \<longrightarrow> messageState q = NOTHING)"
proof (cases "find (\<lambda>k. prefix ''NNNN'' (drop k cs)) [0 ..< length cs]")
  case None
  then show ?thesis using all_text_inside [OF assms no_end] assms(1) by (simp add: message_end_def)
next
  case (Some k)
  then obtain us vs where cs: "cs = us @ ''NNNN'' @ vs" "length us = k" "\<not> sublist ''NNNN'' (us @ ''NNN'')"
    by (rule first_end)
  have m: "message_end cs = min (length cs) (k + 5)" using Some by (simp add: message_end_def)
  let ?r = "p\<lparr>amtorTextstring := last_70 (amtorTextstring p @ map visible (us @ ''NNN'')), messageState := STATE_NNN\<rparr>"
  have "n_run (((us @ [CHR ''N'']) @ [CHR ''N'']) @ [CHR ''N'']) = Suc (Suc (Suc (n_run us)))"
    by (simp only: n_run_simps refl if_True)
  then have "n_run (us @ ''NNN'') = 3" using n_run_below [OF cs(3)] by simp
  then have r: "all_text (us @ ''NNN'') p = ?r"
    using all_text_inside [OF assms cs(3)] by (simp add: n_state_def)
  have r': "\<not> showAlways ?r" "messageState ?r = STATE_NNN" "length (amtorTextstring ?r) \<le> 70"
    using assms(1) by simp_all
  have N: "visible CHR ''N'' = CHR ''N''" by (simp add: visible_def)
  show ?thesis
  proof (cases vs)
    case Nil
    have "all_text cs p = amtorText CHR ''N'' (all_text (us @ ''NNN'') p)" by (simp add: cs(1) Nil)
    also note r
    also have "amtorText CHR ''N'' ?r = amtor_addText CHR ''N'' (?r\<lparr>messageState := STATE_NNNN\<rparr>)" using r' by (simp add: amtorText_filter)
    finally have "all_text cs p = p\<lparr>messageState := STATE_NNNN, amtorTextstring := last_70 (amtorTextstring p @ map visible cs)\<rparr>"
      using N by (simp add: cs(1) Nil amtor_addText)
    moreover have "message_end cs = length cs" using cs(2) by (simp add: m) (simp add: cs(1) Nil)
    ultimately show ?thesis using assms(1) by simp
  next
    case (Cons c ws)
    have "all_text cs p = all_text ws (amtorText c (amtorText CHR ''N'' (all_text (us @ ''NNN'') p)))"
      by (simp add: cs(1) Cons)
    also note r
    also note amtor_end [OF r', of c]
    finally have "all_text cs p = all_text ws (p\<lparr>messageState := NOTHING,
        amtorTextstring := last_70 (amtorTextstring p @ map visible (us @ ''NNNN'' @ [c]))\<rparr>)"
      using N by simp
    moreover have "message_end cs = k + 5" using cs(2) by (simp add: m) (simp add: cs(1) Cons)
    moreover have "drop (k + 5) cs = ws" "take (k + 5) cs = us @ ''NNNN'' @ [c]" using cs(2) by (simp_all add: cs(1) Cons)
    ultimately show ?thesis using assms(1) by auto
  qed
qed

text \<open>Where no header is, nothing is shown and the decoder waits again.\<close>

lemma header_steps:
  assumes "\<not> showAlways p"
  shows "amtorText c (p\<lparr>messageState := STATE_Z\<rparr>) = p\<lparr>messageState := (if c = CHR ''C'' then STATE_ZC else NOTHING)\<rparr>"
    "amtorText c (p\<lparr>messageState := STATE_ZC\<rparr>) = p\<lparr>messageState := (if c = CHR ''Z'' then STATE_ZCZ else NOTHING)\<rparr>"
    "c \<noteq> CHR ''C'' \<Longrightarrow> amtorText c (p\<lparr>messageState := STATE_ZCZ\<rparr>) = p\<lparr>messageState := NOTHING\<rparr>"
  using assms by (simp_all add: amtorText_def)

lemma all_text_outside:
  fixes cs :: string
  defines "n \<equiv> 1 + length (longest_common_prefix cs ''ZCZC'')"
  assumes "\<not> showAlways p" "messageState p = NOTHING" "\<not> prefix ''ZCZC'' cs"
  shows "\<exists>q. all_text cs p = all_text (drop n cs) q \<and> amtorTextstring q = amtorTextstring p \<and> \<not> showAlways q
    \<and> (drop n cs \<noteq> [] \<longrightarrow> messageState q = NOTHING)"
proof -
  note w = header_steps [OF assms(2)]
  have p: "p\<lparr>messageState := NOTHING\<rparr> = p" using assms(3) by (cases p) simp
  have at_Z: ?thesis if cs: "cs = CHR ''Z'' # ds" for ds
  proof -
    have Z: "amtorText CHR ''Z'' p = p\<lparr>messageState := STATE_Z\<rparr>" using assms(2,3) by (simp add: amtorText_def)
    consider "ds = []" | c es where "ds = c # es" "c \<noteq> CHR ''C''" | "ds = ''C''"
      | c es where "ds = CHR ''C'' # c # es" "c \<noteq> CHR ''Z''" | "ds = ''CZ''"
      | c es where "ds = CHR ''C'' # CHR ''Z'' # c # es" "c \<noteq> CHR ''C''"
      using assms(4) unfolding cs by (cases ds; cases "tl ds"; cases "tl (tl ds)") auto
    then show ?thesis by cases (use assms(2,3) in \<open>auto simp: n_def cs Z w p\<close>)
  qed
  show ?thesis
  proof (cases cs)
    case (Cons c ds)
    show ?thesis
    proof (cases "c = CHR ''Z''")
      case False
      then have "amtorText c p = p" using assms(2,3) by (simp add: amtorText_def)
      then show ?thesis using False assms(2,3) by (auto simp: n_def Cons)
    qed (use at_Z Cons in simp)
  qed (use assms(2,3) in auto)
qed

text \<open>
  C20. When only official messages are wanted, then of a text of any kind exactly the messages are shown: each from its
  header ZCZC up to its first NNNN and one character more, which the code shows too, and nothing of what is between
  them. A text that breaks off in a message is shown so far. A beginning of a header that is broken off by some
  character takes that character with it, so that a header is missed where it starts with that one, as in ZZCZC.
\<close>

theorem amtor_official_messages:
  assumes "\<not> showAlways p" "messageState p = NOTHING" "length (amtorTextstring p) \<le> 70"
  shows "amtorTextstring (foldl (\<lambda>p c. amtorText c p) p cs) = last_70 (amtorTextstring p @ map visible (official cs))"
  using assms
proof (induction cs arbitrary: p rule: length_induct)
  case (1 cs)
  have IH: "amtorTextstring (all_text ds q) = last_70 (amtorTextstring q @ map visible (official ds))"
    if "length ds < length cs" "\<not> showAlways q" "length (amtorTextstring q) \<le> 70" "ds \<noteq> [] \<longrightarrow> messageState q = NOTHING" for ds q
    using that 1(1) by (cases "ds = []") (simp_all add: last_70_short)
  consider "cs = []" | ds where "cs = ''ZCZC'' @ ds" | "cs \<noteq> []" "\<not> prefix ''ZCZC'' cs" by (auto simp: prefix_def)
  then show ?case
  proof cases
    case (2 ds)
    let ?p = "p\<lparr>messageState := STATE_ZCZC, amtorTextstring := last_70 (amtorTextstring p @ ''ZCZC'')\<rparr>"
    have "all_text cs p = all_text ds ?p" using amtor_header [OF 1(2-4)] by (simp add: 2)
    moreover obtain q where q: "all_text ds ?p = all_text (drop (message_end ds) ds) q"
      "amtorTextstring q = last_70 (amtorTextstring ?p @ map visible (take (message_end ds) ds))" "\<not> showAlways q"
      "drop (message_end ds) ds \<noteq> [] \<longrightarrow> messageState q = NOTHING"
      using all_text_message [of ?p ds] 1(2) by auto
    moreover note IH [OF _ q(3) _ q(4)]
    moreover have "map visible ''ZCZC'' = ''ZCZC''" by (simp add: visible_def)
    ultimately show ?thesis by (simp add: 2 official_message [simplified])
  next
    case 3
    then show ?thesis
      using all_text_outside [OF 1(2,3) 3(2)] IH 1(4) by (auto simp: official_other [OF 3] last_70_short)
  qed (use 1(4) in \<open>simp add: last_70_short\<close>)
qed

theorem amtor_official_messages_witness:
  "let p = example_amtor False True
   in amtorTextstring (foldl (\<lambda>p c. amtorText c p) p ''ZULU ZCZA ZCZC PA12 NNN GALE NNNN ZZCZC LOST NNNN ZCZC B'')
      = ''ZCZC PA12 NNN GALE NNNN ZCZC B''"
proof -
  let ?p = "example_amtor False True" and ?cs = "''ZULU ZCZA ZCZC PA12 NNN GALE NNNN ZZCZC LOST NNNN ZCZC B''"
  have "amtorTextstring (foldl (\<lambda>p c. amtorText c p) ?p ?cs) = last_70 (amtorTextstring ?p @ map visible (official ?cs))"
    by (rule amtor_official_messages) (simp_all add: example_amtor_def new_amtor_defs)
  moreover have "official ?cs = ''ZCZC PA12 NNN GALE NNNN ZCZC B''"
    by (simp add: official.simps message_end_def upt_rec numeral_nat)
  ultimately show ?thesis by (simp only: Let_def) (simp add: example_amtor_def new_amtor_defs last_70_def visible_def)
qed

section \<open>Errors\<close>

lemma once_mismatch: "HandleChar 0x78 p = amtorText CHR '' '' p"
  by (simp add: HandleChar_def ccir_entries CCIR_476_ITA4_def)

text \<open>
  C40. With strict error handling two different copies of a character are to be shown as an \<open>x\<close>: the code passes the
  letter \<open>x\<close> on as if it were a word, and that word is the phasing signal, for which a space is shown. The case for
  errors in \<open>HandleChar\<close>, the value \<open>-1\<close>, never occurs.
\<close>

theorem amtor_strict_error_blank:
  assumes "queue_ok p" "window p = x # xs" "x \<notin> passed_over" "x \<noteq> xs ! 4"
    and "amtorFecError p" "showAlways p" "length (amtorTextstring p) \<le> 70"
  shows "amtorTextstring (addBytetoMessage v p) = last_70 (amtorTextstring p @ '' '')"
  using addBytetoMessage_step(1) [OF assms(1,2), of v] assms(3-7)
  by (auto simp: once_mismatch amtorText_shown visible_def)

theorem amtor_strict_error_blank_witness:
  "let p = (example_amtor True False)\<lparr>amtorQueue := [0x71, BETA, BETA, BETA, BETA, 0x27, BETA, BETA, BETA, BETA], amtorQP := 0\<rparr>
   in amtorTextstring (addBytetoMessage ALPHA p) = '' ''"
proof -
  let ?p = "(example_amtor True False)\<lparr>amtorQueue := [0x71, BETA, BETA, BETA, BETA, 0x27, BETA, BETA, BETA, BETA], amtorQP := 0\<rparr>"
  have "amtorTextstring (addBytetoMessage ALPHA ?p) = last_70 (amtorTextstring ?p @ '' '')"
    by (rule amtor_strict_error_blank [where x = "0x71" and xs = "[BETA, BETA, BETA, BETA, 0x27]"])
      (simp_all add: queue_ok_def window_def upt_6 passed_over_def example_amtor_def new_amtor_defs)
  then show ?thesis by (simp add: Let_def example_amtor_def new_amtor_defs last_70_def)
qed

text \<open>
  Every word with a single wrong bit is recognised, as it has not four bits set. But nothing is passed on for it:
  the decoder drops its first bit and takes the rest as the beginning of the next word, so it has lost the alignment
  of the words, and with it the second copy that could have corrected the error.
\<close>

definition flip_bit :: "nat \<Rightarrow> nat list \<Rightarrow> nat list" where
  "flip_bit i xs = xs[i := 1 - xs ! i]"

lemma validate_count: "validate w n \<longleftrightarrow> length (filter (bit w) [0 ..< 7]) = n"
proof -
  have "foldl (\<lambda>(w, No1) i. (drop_bit 1 w, if w AND 1 \<noteq> 0 then No1 + 1 else No1)) (w, 0) [0 ..< m :: nat]
      = (drop_bit m w, length (filter (bit w) [0 ..< m]))" for m
    by (induction m) (simp_all add: and_one_eq bit_iff_odd_drop_bit drop_bit_drop_bit mod_2_eq_odd)
  then show ?thesis unfolding validate_def by simp
qed

lemma bit_word_reg: "j < length xs \<Longrightarrow> length xs \<le> 16 \<Longrightarrow> bit (word_reg xs) j \<longleftrightarrow> odd (rev xs ! j)"
proof (induction xs arbitrary: j rule: rev_induct)
  case (snoc x xs)
  have r: "word_reg (xs @ [x]) = push_bit 1 (word_reg xs) OR (of_nat x AND 1)" by (simp add: word_reg_def)
  show ?case
  proof (cases j)
    case 0
    then show ?thesis by (simp only: r bit_or_iff bit_and_iff bit_push_bit_iff) (simp add: bit_0)
  next
    case (Suc m)
    then show ?thesis using snoc.IH [of m] snoc.prems
      by (simp only: r bit_or_iff bit_and_iff bit_push_bit_iff) (auto simp: bit_1_iff)
  qed
qed simp

lemma validate_word_reg:
  assumes "length xs = 7"
  shows "validate (word_reg xs) n \<longleftrightarrow> length (filter odd xs) = n"
proof -
  have "filter (bit (word_reg xs)) [0 ..< 7] = filter (\<lambda>j. odd (rev xs ! j)) [0 ..< length (rev xs)]"
    using assms by (intro filter_cong) (simp_all add: bit_word_reg)
  also have "length \<dots> = length (filter odd (rev xs))"
    by (simp only: length_filter_conv_card) (rule arg_cong [where f = card], auto)
  finally show ?thesis by (simp add: validate_count rev_filter [symmetric])
qed

lemma filter_flip:
  assumes "i < length xs" "P y \<noteq> P (xs ! i)"
  shows "length (filter P xs) \<noteq> length (filter P (xs[i := y]))"
  using assms by (induction xs arbitrary: i) (auto split: nat.splits)

lemma flipped_words:
  assumes "k \<in> ccir_words" "i < 7"
  shows "\<not> validate (word_reg (flip_bit i (word_bits k))) 4"
proof -
  let ?w = "word_bits k"
  have l: "length ?w = 7" "length (flip_bit i ?w) = 7" by (simp_all add: word_bits_def flip_bit_def)
  have "?w ! i = 0 \<or> ?w ! i = 1" using assms(2) by (simp add: word_bits_def) arith
  then have o: "odd (1 - ?w ! i) \<noteq> odd (?w ! i)" by auto
  have "length (filter odd ?w) \<noteq> length (filter odd (flip_bit i ?w))"
    unfolding flip_bit_def by (rule filter_flip) (use assms(2) l(1) o in simp_all)
  then show ?thesis using ccir_words_good [OF assms(1)] l by (simp add: validate_word_reg)
qed

lemma addfullBit_invalid:
  "amtorBitCount p = 6 \<Longrightarrow> \<not> validate (push_bit 1 (amtorShiftReg p) OR (of_nat x AND 1)) 4 \<Longrightarrow> addfullBit x p =
     p\<lparr>amtorBitCount := 6, amtorShiftReg := (push_bit 1 (amtorShiftReg p) OR (of_nat x AND 1)) AND 0x3F\<rparr>"
  by (simp add: addfullBit_def Let_def)

theorem amtor_bit_error_slips:
  assumes "amtorBitCount p = 0" "amtorShiftReg p = 0" "k \<in> ccir_words" "i < 7"
  shows "foldl (\<lambda>p x. addfullBit x p) p (flip_bit i (word_bits k))
    = p\<lparr>amtorBitCount := 6, amtorShiftReg := word_reg (flip_bit i (word_bits k)) AND 0x3F\<rparr>"
proof -
  let ?w = "flip_bit i (word_bits k)"
  have l: "length ?w = 7" by (simp add: flip_bit_def word_bits_def)
  then obtain xs x where w: "?w = xs @ [x]" "length xs = 6" by (cases ?w rule: rev_exhaust) simp_all
  have "full_bits xs p = p\<lparr>amtorBitCount := 6, amtorShiftReg := word_reg xs\<rparr>"
    using full_bits_shift [of xs p] w(2) assms(1,2) by (simp add: word_reg_def)
  moreover have "word_reg ?w = push_bit 1 (word_reg xs) OR (of_nat x AND 1)" by (simp add: w(1) word_reg_def)
  ultimately show ?thesis
    using flipped_words [OF assms(3,4)] by (simp only: w(1) foldl_append foldl.simps, subst addfullBit_invalid) simp_all
qed

theorem amtor_bit_error_slips_witness:
  "foldl (\<lambda>p x. addfullBit x p) (example_amtor True False) (flip_bit 3 (word_bits 0x71))
    = (example_amtor True False)\<lparr>amtorBitCount := 6, amtorShiftReg := 0x39\<rparr>"
proof -
  have "foldl (\<lambda>p x. addfullBit x p) (example_amtor True False) (flip_bit 3 (word_bits 0x71))
    = (example_amtor True False)\<lparr>amtorBitCount := 6, amtorShiftReg := word_reg (flip_bit 3 (word_bits 0x71)) AND 0x3F\<rparr>"
    by (rule amtor_bit_error_slips)
      (simp_all add: example_amtor_def new_amtor_defs ccir_words_def ccir_sent_def ccir_entries CCIR_476_ITA4_def)
  moreover have "word_reg (flip_bit 3 (word_bits 0x71)) AND 0x3F = 0x39" by code_simp
  ultimately show ?thesis by simp
qed

end
