(* ===== verification/Ft8Ldpc.thy ===== *)
theory Ft8Ldpc
  imports Complex_Main Prelude "HOL-Library.Multiset"
begin

text \<open>
  The error correction of FT8, \<open>decoders/ft8-decoder/ldpc.cpp\<close>: a parity check code of 174 bits and 83 checks, decoded
  by passing messages between bits and checks. The received bits are likelihoods over any linearly ordered field, so
  sums and products are exact; the library functions \<open>tanh\<close> and \<open>atanh\<close> are parameters, and what is relied on is
  that \<open>tanh\<close> keeps the sign and stays between -1 and 1, and that \<open>atanh\<close> keeps the sign between -1 and 1. The
  witness takes the hyperbolic tangent of the reals and its inverse.

  Two comments in the file say the opposite of what the code does, and the model follows the code. Lines 29 to 34
  call the input the log likelihood of zero, \<open>log (P (x = 0) / P (x = 1))\<close>; the code sets a bit to 1 when the sum is
  positive, so positive means 1, which is also what its caller delivers (\<open>decodeTone\<close> subtracts the strength of the
  tones with a bit 0 from that of the tones with a bit 1). Line 327 says that \<open>ok == 87\<close> means success; the code stores
  the least number of failed checks in \<open>ok\<close>, so that success is 0, which is what its caller tests for.
  The second decoder of the class, \<open>bp_decode\<close>, whose call is commented out, is not modelled.
\<close>

section \<open>The tables\<close>

text \<open>The bits of every check and the checks of every bit, counted from 1; an entry 0 fills a row up.\<close>

definition kFTX_LDPC_Nm :: "int list list" where
  "kFTX_LDPC_Nm = [
    [4, 31, 59, 91, 92, 96, 153], [5, 32, 60, 93, 115, 146, 0], [6, 24, 61, 94, 122, 151, 0],
    [7, 33, 62, 95, 96, 143, 0], [8, 25, 63, 83, 93, 96, 148], [6, 32, 64, 97, 126, 138, 0],
    [5, 34, 65, 78, 98, 107, 154], [9, 35, 66, 99, 139, 146, 0], [10, 36, 67, 100, 107, 126, 0],
    [11, 37, 67, 87, 101, 139, 158], [12, 38, 68, 102, 105, 155, 0], [13, 39, 69, 103, 149, 162, 0],
    [8, 40, 70, 82, 104, 114, 145], [14, 41, 71, 88, 102, 123, 156], [15, 42, 59, 106, 123, 159, 0],
    [1, 33, 72, 106, 107, 157, 0], [16, 43, 73, 108, 141, 160, 0], [17, 37, 74, 81, 109, 131, 154],
    [11, 44, 75, 110, 121, 166, 0], [45, 55, 64, 111, 130, 161, 173], [8, 46, 71, 112, 119, 166, 0],
    [18, 36, 76, 89, 113, 114, 143], [19, 38, 77, 104, 116, 163, 0], [20, 47, 70, 92, 138, 165, 0],
    [2, 48, 74, 113, 128, 160, 0], [21, 45, 78, 83, 117, 121, 151], [22, 47, 58, 118, 127, 164, 0],
    [16, 39, 62, 112, 134, 158, 0], [23, 43, 79, 120, 131, 145, 0], [19, 35, 59, 73, 110, 125, 161],
    [20, 36, 63, 94, 136, 161, 0], [14, 31, 79, 98, 132, 164, 0], [3, 44, 80, 124, 127, 169, 0],
    [19, 46, 81, 117, 135, 167, 0], [7, 49, 58, 90, 100, 105, 168], [12, 50, 61, 118, 119, 144, 0],
    [13, 51, 64, 114, 118, 157, 0], [24, 52, 76, 129, 148, 149, 0], [25, 53, 69, 90, 101, 130, 156],
    [20, 46, 65, 80, 120, 140, 170], [21, 54, 77, 100, 140, 171, 0], [35, 82, 133, 142, 171, 174, 0],
    [14, 30, 83, 113, 125, 170, 0], [4, 29, 68, 120, 134, 173, 0], [1, 4, 52, 57, 86, 136, 152],
    [26, 51, 56, 91, 122, 137, 168], [52, 84, 110, 115, 145, 168, 0], [7, 50, 81, 99, 132, 173, 0],
    [23, 55, 67, 95, 172, 174, 0], [26, 41, 77, 109, 141, 148, 0], [2, 27, 41, 61, 62, 115, 133],
    [27, 40, 56, 124, 125, 126, 0], [18, 49, 55, 124, 141, 167, 0], [6, 33, 85, 108, 116, 156, 0],
    [28, 48, 70, 85, 105, 129, 158], [9, 54, 63, 131, 147, 155, 0], [22, 53, 68, 109, 121, 174, 0],
    [3, 13, 48, 78, 95, 123, 0], [31, 69, 133, 150, 155, 169, 0], [12, 43, 66, 89, 97, 135, 159],
    [5, 39, 75, 102, 136, 167, 0], [2, 54, 86, 101, 135, 164, 0], [15, 56, 87, 108, 119, 171, 0],
    [10, 44, 82, 91, 111, 144, 149], [23, 34, 71, 94, 127, 153, 0], [11, 49, 88, 92, 142, 157, 0],
    [29, 34, 87, 97, 147, 162, 0], [30, 50, 60, 86, 137, 142, 162], [10, 53, 66, 84, 112, 128, 165],
    [22, 57, 85, 93, 140, 159, 0], [28, 32, 72, 103, 132, 166, 0], [28, 29, 84, 88, 117, 143, 150],
    [1, 26, 45, 80, 128, 147, 0], [17, 27, 89, 103, 116, 153, 0], [51, 57, 98, 163, 165, 172, 0],
    [21, 37, 73, 138, 152, 169, 0], [16, 47, 76, 130, 137, 154, 0], [3, 24, 30, 72, 104, 139, 0],
    [9, 40, 90, 106, 134, 151, 0], [15, 58, 60, 74, 111, 150, 163], [18, 42, 79, 144, 146, 152, 0],
    [25, 38, 65, 99, 122, 160, 0], [17, 42, 75, 129, 170, 172, 0]]"

definition kFTX_LDPC_Mn :: "int list list" where
  "kFTX_LDPC_Mn = [
    [16, 45, 73], [25, 51, 62], [33, 58, 78], [1, 44, 45], [2, 7, 61], [3, 6, 54], [4, 35, 48], [5, 13, 21],
    [8, 56, 79], [9, 64, 69], [10, 19, 66], [11, 36, 60], [12, 37, 58], [14, 32, 43], [15, 63, 80], [17, 28, 77],
    [18, 74, 83], [22, 53, 81], [23, 30, 34], [24, 31, 40], [26, 41, 76], [27, 57, 70], [29, 49, 65], [3, 38, 78],
    [5, 39, 82], [46, 50, 73], [51, 52, 74], [55, 71, 72], [44, 67, 72], [43, 68, 78], [1, 32, 59], [2, 6, 71],
    [4, 16, 54], [7, 65, 67], [8, 30, 42], [9, 22, 31], [10, 18, 76], [11, 23, 82], [12, 28, 61], [13, 52, 79],
    [14, 50, 51], [15, 81, 83], [17, 29, 60], [19, 33, 64], [20, 26, 73], [21, 34, 40], [24, 27, 77], [25, 55, 58],
    [35, 53, 66], [36, 48, 68], [37, 46, 75], [38, 45, 47], [39, 57, 69], [41, 56, 62], [20, 49, 53], [46, 52, 63],
    [45, 70, 75], [27, 35, 80], [1, 15, 30], [2, 68, 80], [3, 36, 51], [4, 28, 51], [5, 31, 56], [6, 20, 37],
    [7, 40, 82], [8, 60, 69], [9, 10, 49], [11, 44, 57], [12, 39, 59], [13, 24, 55], [14, 21, 65], [16, 71, 78],
    [17, 30, 76], [18, 25, 80], [19, 61, 83], [22, 38, 77], [23, 41, 50], [7, 26, 58], [29, 32, 81], [33, 40, 73],
    [18, 34, 48], [13, 42, 64], [5, 26, 43], [47, 69, 72], [54, 55, 70], [45, 62, 68], [10, 63, 67], [14, 66, 72],
    [22, 60, 74], [35, 39, 79], [1, 46, 64], [1, 24, 66], [2, 5, 70], [3, 31, 65], [4, 49, 58], [1, 4, 5],
    [6, 60, 67], [7, 32, 75], [8, 48, 82], [9, 35, 41], [10, 39, 62], [11, 14, 61], [12, 71, 74], [13, 23, 78],
    [11, 35, 55], [15, 16, 79], [7, 9, 16], [17, 54, 63], [18, 50, 57], [19, 30, 47], [20, 64, 80], [21, 28, 69],
    [22, 25, 43], [13, 22, 37], [2, 47, 51], [23, 54, 74], [26, 34, 72], [27, 36, 37], [21, 36, 63], [29, 40, 44],
    [19, 26, 57], [3, 46, 82], [14, 15, 58], [33, 52, 53], [30, 43, 52], [6, 9, 52], [27, 33, 65], [25, 69, 73],
    [38, 55, 83], [20, 39, 77], [18, 29, 56], [32, 48, 71], [42, 51, 59], [28, 44, 79], [34, 60, 62], [31, 45, 61],
    [46, 68, 77], [6, 24, 76], [8, 10, 78], [40, 41, 70], [17, 50, 53], [42, 66, 68], [4, 22, 72], [36, 64, 81],
    [13, 29, 47], [2, 8, 81], [56, 67, 73], [5, 38, 50], [12, 38, 64], [59, 72, 80], [3, 26, 79], [45, 76, 81],
    [1, 65, 74], [7, 18, 77], [11, 56, 59], [14, 39, 54], [16, 37, 66], [10, 28, 55], [15, 60, 70], [17, 25, 82],
    [20, 30, 31], [12, 67, 68], [23, 75, 80], [27, 32, 62], [24, 69, 75], [19, 21, 71], [34, 53, 61], [35, 46, 47],
    [33, 59, 76], [40, 43, 83], [41, 42, 63], [49, 75, 83], [20, 44, 48], [42, 49, 57]]"

definition kFTX_LDPC_Num_rows :: "nat list" where
  "kFTX_LDPC_Num_rows = [
    7, 6, 6, 6, 7, 6, 7, 6, 6, 7, 6, 6, 7, 7, 6, 6, 6, 7, 6, 7, 6, 7, 6, 6, 6, 7, 6, 6, 6, 7, 6, 6, 6, 6, 7, 6, 6, 6,
    7, 7, 6, 6, 6, 6, 7, 7, 6, 6, 6, 6, 7, 6, 6, 6, 7, 6, 6, 6, 6, 7, 6, 6, 6, 7, 6, 6, 6, 7, 7, 6, 6, 7, 6, 6, 6, 6,
    6, 6, 6, 7, 6, 6, 6]"

section \<open>The decoder\<close>

text \<open>The places of the bits of check \<open>j\<close>, and the check that has bit \<open>i\<close> as its bit number \<open>k\<close>.\<close>

definition check_bits :: "nat \<Rightarrow> nat list" where
  "check_bits j = map (\<lambda>k. nat (k - 1)) (take (kFTX_LDPC_Num_rows ! j) (kFTX_LDPC_Nm ! j))"

definition bit_check :: "nat \<Rightarrow> nat \<Rightarrow> nat" where
  "bit_check i k = nat (kFTX_LDPC_Mn ! i ! k - 1)"

definition ldpc_check :: "u8 list \<Rightarrow> nat" where
  "ldpc_check codeword =
     foldl (\<lambda>errors m. if foldl (\<lambda>x i. x XOR codeword ! i) 0 (check_bits m) \<noteq> 0 then errors + 1 else errors) 0 [0 ..< 83]"

text \<open>What check \<open>j\<close> says of bit \<open>i1\<close>, from what it knows of its other bits.\<close>

definition check_says :: "('f::linordered_field \<Rightarrow> 'f) \<Rightarrow> ('f \<Rightarrow> 'f) \<Rightarrow> 'f list \<Rightarrow> nat \<Rightarrow> nat \<Rightarrow> 'f" where
  "check_says th ath m j i1 =
     - 2 * ath (foldl (\<lambda>a i2. if i2 \<noteq> i1 then a * th (- m ! i2 / 2) else a) 1 (check_bits j))"

definition check_round :: "('f::linordered_field \<Rightarrow> 'f) \<Rightarrow> ('f \<Rightarrow> 'f) \<Rightarrow> 'f list list \<Rightarrow> 'f list list \<Rightarrow> 'f list list" where
  "check_round th ath m e =
     map (\<lambda>j. foldl (\<lambda>r i1. r[i1 := check_says th ath (m ! j) j i1]) (e ! j) (check_bits j)) [0 ..< 83]"

definition guess :: "'f::linordered_field list \<Rightarrow> 'f list list \<Rightarrow> u8 list" where
  "guess codeword e =
     map (\<lambda>i. if 0 < foldl (\<lambda>l k. l + e ! bit_check i k ! i) (codeword ! i) [0 ..< 3] then 1 else 0) [0 ..< 174]"

definition bit_says :: "'f::linordered_field list \<Rightarrow> 'f list list \<Rightarrow> nat \<Rightarrow> nat \<Rightarrow> 'f" where
  "bit_says codeword e i k1 =
     foldl (\<lambda>l k2. if k1 \<noteq> k2 then l + e ! bit_check i k2 ! i else l) (codeword ! i) [0 ..< 3]"

definition bit_round :: "'f::linordered_field list \<Rightarrow> 'f list list \<Rightarrow> 'f list list \<Rightarrow> 'f list list" where
  "bit_round codeword e m =
     foldl (\<lambda>m i. foldl (\<lambda>m k1. m[bit_check i k1 := (m ! bit_check i k1)[i := bit_says codeword e i k1]]) m [0 ..< 3])
       m [0 ..< 174]"

text \<open>The iterations that are left; the results are the bits and the least number of failed checks.\<close>

primrec ldpc_loop ::
  "('f::linordered_field \<Rightarrow> 'f) \<Rightarrow> ('f \<Rightarrow> 'f) \<Rightarrow> 'f list \<Rightarrow> nat \<Rightarrow> 'f list list \<Rightarrow> 'f list list \<Rightarrow> u8 list \<Rightarrow> nat \<Rightarrow> u8 list \<times> nat" where
  "ldpc_loop th ath codeword 0 m e plain min_errors = (plain, min_errors)"
| "ldpc_loop th ath codeword (Suc n) m e plain min_errors =
     (let e = check_round th ath m e;
          plain = guess codeword e;
          errors = ldpc_check plain
      in if errors < min_errors \<and> errors = 0 then (plain, 0)
         else ldpc_loop th ath codeword n (bit_round codeword e m) e plain (min errors min_errors))"

definition ldpc_decode ::
  "('f::linordered_field \<Rightarrow> 'f) \<Rightarrow> ('f \<Rightarrow> 'f) \<Rightarrow> 'f list \<Rightarrow> nat \<Rightarrow> u8 list \<Rightarrow> u8 list \<times> nat" where
  "ldpc_decode th ath codeword max_iters plain =
     ldpc_loop th ath codeword max_iters (replicate 83 codeword) (replicate 83 (replicate 174 0)) plain 83"

section \<open>The tables fit\<close>

text \<open>Bit \<open>i\<close> and check \<open>j\<close>, both counted from 1, as one number.\<close>

definition incidence :: "int \<Rightarrow> int \<Rightarrow> int" where
  "incidence i j = 128 * i + j"

definition check_incidences :: "int list" where
  "check_incidences = concat (map (\<lambda>(j, n, row). map (\<lambda>i. incidence i j) (take n row))
     (zip [1 .. 83] (zip kFTX_LDPC_Num_rows kFTX_LDPC_Nm)))"

definition bit_incidences :: "int list" where
  "bit_incidences = concat (map (\<lambda>(i, row). map (incidence i) row) (zip [1 .. 174] kFTX_LDPC_Mn))"

lemma incidences_agree: "sort check_incidences = bit_incidences"
  by code_simp

lemma table_lengths: "length kFTX_LDPC_Nm = 83" "length kFTX_LDPC_Mn = 174" "length kFTX_LDPC_Num_rows = 83"
  by (simp_all add: kFTX_LDPC_Nm_def kFTX_LDPC_Mn_def kFTX_LDPC_Num_rows_def)

lemma check_table_range:
  "list_all (\<lambda>(n, row). distinct (take n row) \<and> list_all (\<lambda>i. 1 \<le> i \<and> i \<le> 174) (take n row)) (zip kFTX_LDPC_Num_rows kFTX_LDPC_Nm)"
  by code_simp

lemma check_row_lengths: "list_all (\<lambda>(n, row). 2 \<le> length (take n row)) (zip kFTX_LDPC_Num_rows kFTX_LDPC_Nm)"
  by code_simp

lemma bit_table_range: "list_all (\<lambda>row. length row = 3 \<and> list_all (\<lambda>k. 1 \<le> k \<and> k \<le> 83) row) kFTX_LDPC_Mn"
  by code_simp

lemma check_bits_fit:
  assumes "j < 83" shows "distinct (check_bits j)" "i \<in> set (check_bits j) \<Longrightarrow> i < 174"
proof -
  let ?t = "take (kFTX_LDPC_Num_rows ! j) (kFTX_LDPC_Nm ! j)"
  have "(kFTX_LDPC_Num_rows ! j, kFTX_LDPC_Nm ! j) \<in> set (zip kFTX_LDPC_Num_rows kFTX_LDPC_Nm)"
    using assms by (force simp: set_zip table_lengths)
  then have t: "distinct ?t" "\<forall>i \<in> set ?t. 1 \<le> i \<and> i \<le> 174"
    using check_table_range by (auto simp: list_all_iff)
  have "inj_on (\<lambda>k. nat (k - 1)) (set ?t)"
  proof (rule inj_onI)
    fix x y assume xy: "x \<in> set ?t" "y \<in> set ?t" "nat (x - 1) = nat (y - 1)"
    then have "1 \<le> x" "1 \<le> y" using t(2) by blast+
    then show "x = y" using xy(3) by (simp add: eq_nat_nat_iff)
  qed
  then show "distinct (check_bits j)" using t(1) by (simp add: check_bits_def distinct_map)
  show "i < 174" if "i \<in> set (check_bits j)" using that t(2) by (auto simp: check_bits_def)
qed

text \<open>Every check has another bit to say something from.\<close>

lemma check_others:
  assumes "j < 83" shows "filter (\<lambda>i2. i2 \<noteq> i) (check_bits j) \<noteq> []"
proof
  assume "filter (\<lambda>i2. i2 \<noteq> i) (check_bits j) = []"
  then have "set (check_bits j) \<subseteq> {i}" by (auto simp: filter_empty_conv)
  then have "card (set (check_bits j)) \<le> card {i}" by (intro card_mono) simp_all
  moreover have "card (set (check_bits j)) = length (check_bits j)"
    by (rule distinct_card [OF check_bits_fit(1) [OF assms]])
  moreover have "(kFTX_LDPC_Num_rows ! j, kFTX_LDPC_Nm ! j) \<in> set (zip kFTX_LDPC_Num_rows kFTX_LDPC_Nm)"
    using assms by (force simp: set_zip table_lengths)
  then have "2 \<le> length (check_bits j)"
    using check_row_lengths unfolding list_all_iff check_bits_def by fastforce
  ultimately show False by simp
qed

lemma bit_check_fit:
  assumes "i < 174" "k < 3"
  shows "bit_check i k < 83" "i \<in> set (check_bits (bit_check i k))"
proof -
  define c where "c = kFTX_LDPC_Mn ! i ! k"
  have "kFTX_LDPC_Mn ! i \<in> set kFTX_LDPC_Mn" using assms(1) by (simp add: table_lengths)
  with bit_table_range have row: "length (kFTX_LDPC_Mn ! i) = 3" "\<forall>k \<in> set (kFTX_LDPC_Mn ! i). 1 \<le> k \<and> k \<le> 83"
    unfolding list_all_iff by blast+
  then have c: "c \<in> set (kFTX_LDPC_Mn ! i)" "1 \<le> c" "c \<le> 83" using assms(2) by (simp_all add: c_def)
  then show "bit_check i k < 83" by (simp add: bit_check_def c_def)
  have "(int i + 1, kFTX_LDPC_Mn ! i) \<in> set (zip [1 .. 174] kFTX_LDPC_Mn)"
    using assms(1) by (force simp: set_zip table_lengths)
  then have "incidence (int i + 1) c \<in> set bit_incidences" using c(1) by (force simp: bit_incidences_def)
  then have "incidence (int i + 1) c \<in> set check_incidences" by (simp add: incidences_agree [symmetric])
  then obtain j n r x where z: "(j, n, r) \<in> set (zip [1 .. 83] (zip kFTX_LDPC_Num_rows kFTX_LDPC_Nm))"
    and x: "x \<in> set (take n r)" "incidence (int i + 1) c = incidence x j"
    by (auto simp: check_incidences_def)
  from z obtain m where m: "m < 83" "j = 1 + int m" "n = kFTX_LDPC_Num_rows ! m" "r = kFTX_LDPC_Nm ! m"
    by (auto simp: set_zip table_lengths)
  then have "128 * (int i + 1) + c = 128 * x + j" "1 \<le> j" "j \<le> 83" using x(2) by (simp_all add: incidence_def)
  moreover have "(128 * y + z) mod 128 = z" if "1 \<le> z" "z \<le> 83" for y z :: int using that by simp
  note this [of c "int i + 1"] this [of j x]
  ultimately have "c = j" using c(2,3) by simp
  moreover from this \<open>128 * (int i + 1) + c = 128 * x + j\<close> have "x = int i + 1" by simp
  ultimately have "c = j" "x = int i + 1" .
  then have "bit_check i k = m" using m(2) c_def by (simp add: bit_check_def)
  then show "i \<in> set (check_bits (bit_check i k))"
    using x(1) \<open>x = int i + 1\<close> m(3,4) by (force simp: check_bits_def)
qed

section \<open>Signs\<close>

text \<open>The sign a bit has in the likelihoods; a parity check is a product of signs.\<close>

definition bit_sign :: "u8 \<Rightarrow> 'f::linordered_field" where
  "bit_sign x = (if x = 1 then - 1 else 1)"

lemma bit_sign_square [simp]: "bit_sign x * bit_sign x = 1" "bit_sign x * (bit_sign x * y) = y"
  by (simp_all add: bit_sign_def)

lemma bit_sign_xor: "is_bit x \<Longrightarrow> is_bit y \<Longrightarrow> bit_sign (x XOR y) = bit_sign x * bit_sign y"
  by (auto simp: bit_sign_def is_bit_def)

lemma bit_sign_check:
  assumes "\<forall>i \<in> set is. is_bit (c ! i)" "is_bit x"
  shows "bit_sign (foldl (\<lambda>x i. x XOR c ! i) x is) = bit_sign x * prod_list (map (\<lambda>i. bit_sign (c ! i)) is)"
  using assms by (induction "is" arbitrary: x) (simp_all add: bit_sign_xor onebit mult.assoc)

lemma ldpc_check_0:
  "ldpc_check c = 0 \<longleftrightarrow> (\<forall>j < 83. foldl (\<lambda>x i. x XOR c ! i) 0 (check_bits j) = 0)"
proof -
  have "foldl (\<lambda>errors m. if P m then errors + 1 else errors) n ms = n + length (filter P ms)" for P n and ms :: "nat list"
    by (induction ms arbitrary: n) simp_all
  then show ?thesis by (auto simp: ldpc_check_def filter_empty_conv)
qed

lemma check_sign:
  assumes "ldpc_check c = 0" "bits c" "length c = 174" "j < 83" "i \<in> set (check_bits j)"
  shows "prod_list (map (\<lambda>i2. bit_sign (c ! i2)) (filter (\<lambda>i2. i2 \<noteq> i) (check_bits j))) = (bit_sign (c ! i) :: 'f::linordered_field)"
proof -
  let ?p = "\<lambda>is. prod_list (map (\<lambda>i2. bit_sign (c ! i2)) is) :: 'f"
  have b: "\<forall>i \<in> set (check_bits j). is_bit (c ! i)"
    using assms(2-4) check_bits_fit(2) by (auto simp: bits_nth)
  have "bit_sign (foldl (\<lambda>x i. x XOR c ! i) 0 (check_bits j)) = (bit_sign 0 :: 'f) * ?p (check_bits j)"
    by (rule bit_sign_check [OF b]) simp
  then have "?p (check_bits j) = 1" using assms(1,4) by (simp add: ldpc_check_0 bit_sign_def [of 0])
  moreover obtain us vs where uv: "check_bits j = us @ i # vs" using assms(5) by (meson split_list)
  moreover have "i \<notin> set us" "i \<notin> set vs" using check_bits_fit(1) [OF assms(4)] by (simp_all add: uv)
  then have "filter (\<lambda>i2. i2 \<noteq> i) us = us" "filter (\<lambda>i2. i2 \<noteq> i) vs = vs" by (auto intro!: filter_True)
  then have "filter (\<lambda>i2. i2 \<noteq> i) (check_bits j) = us @ vs" by (simp add: uv)
  ultimately have "bit_sign (c ! i) * ?p (filter (\<lambda>i2. i2 \<noteq> i) (check_bits j)) = 1" by (simp add: ac_simps)
  then have "bit_sign (c ! i) * (bit_sign (c ! i) * ?p (filter (\<lambda>i2. i2 \<noteq> i) (check_bits j))) = bit_sign (c ! i)" by simp
  then show ?thesis by simp
qed

section \<open>The first guess\<close>

text \<open>
  The likelihoods spell the bits of \<open>c\<close>, a positive one for 1 and a negative one for 0, except for the bits in \<open>E\<close>,
  of which nothing is known.
\<close>

definition spells :: "'f::linordered_field list \<Rightarrow> u8 list \<Rightarrow> nat set \<Rightarrow> bool" where
  "spells codeword c E \<longleftrightarrow> length codeword = 174
     \<and> (\<forall>i < 174. sgn (codeword ! i) = (if i \<in> E then 0 else - bit_sign (c ! i)))"

lemma foldl_product:
  "foldl (\<lambda>a i2. if i2 \<noteq> i then a * g i2 else a) (x :: 'f::linordered_field) is = x * prod_list (map g (filter (\<lambda>i2. i2 \<noteq> i) is))"
  by (induction "is" arbitrary: x) (simp_all add: mult.assoc)

lemma sgn_prod_list: "sgn (prod_list xs :: 'f::linordered_field) = prod_list (map sgn xs)"
  by (induction xs) (simp_all add: sgn_mult)

lemma prod_list_below_1:
  fixes xs :: "'f::linordered_field list"
  assumes "xs \<noteq> []" "\<forall>x \<in> set xs. \<bar>x\<bar> < 1"
  shows "\<bar>prod_list xs\<bar> < 1"
  using assms
proof (induction xs rule: list_nonempty_induct)
  case (cons x xs)
  then have "\<bar>x\<bar> < 1" "\<bar>prod_list xs\<bar> < 1" by simp_all
  then have "\<bar>x\<bar> * \<bar>prod_list xs\<bar> < 1 * 1" by (intro mult_strict_mono') simp_all
  then show ?case by (simp add: abs_mult)
qed simp

lemma check_says_sign:
  fixes th ath :: "'f::linordered_field \<Rightarrow> 'f"
  assumes signs: "\<And>x. sgn (th x) = sgn x" "\<And>x. \<bar>th x\<bar> < 1" "\<And>x. \<bar>x\<bar> < 1 \<Longrightarrow> sgn (ath x) = sgn x"
    and c: "ldpc_check c = 0" "bits c" "length c = 174" and ji: "j < 83" "i \<in> set (check_bits j)"
    and m: "spells m c E"
  shows "sgn (check_says th ath m j i)
    = (if set (check_bits j) \<inter> E \<subseteq> {i} then - bit_sign (c ! i) else 0)"
proof -
  let ?o = "filter (\<lambda>i2. i2 \<noteq> i) (check_bits j)"
  have t: "sgn (th (- m ! i2 / 2)) = (if i2 \<in> E then 0 else bit_sign (c ! i2))" if "i2 \<in> set (check_bits j)" for i2
    using m check_bits_fit(2) [OF ji(1) that] by (simp add: signs(1) spells_def sgn_divide bit_sign_def)
  have "sgn (prod_list (map (\<lambda>i2. th (- m ! i2 / 2)) ?o))
      = prod_list (map (\<lambda>i2. if i2 \<in> E then 0 else bit_sign (c ! i2)) ?o)"
    unfolding sgn_prod_list map_map comp_def by (rule arg_cong [where f = prod_list], rule map_cong) (use t in auto)
  also have "\<dots> = (if set (check_bits j) \<inter> E \<subseteq> {i} then bit_sign (c ! i) else 0)"
  proof (cases "set (check_bits j) \<inter> E \<subseteq> {i}")
    case True
    then have "map (\<lambda>i2. if i2 \<in> E then 0 else bit_sign (c ! i2) :: 'f) ?o = map (\<lambda>i2. bit_sign (c ! i2)) ?o" by auto
    then show ?thesis using True check_sign [OF c ji] by (simp only: if_True)
  next
    case False
    then obtain i2 where "i2 \<in> set ?o" "i2 \<in> E" by auto
    then have "0 \<in> set (map (\<lambda>i2. if i2 \<in> E then 0 else bit_sign (c ! i2) :: 'f) ?o)" by force
    then show ?thesis using False by (simp add: prod_list_zero_iff)
  qed
  finally have "sgn (prod_list (map (\<lambda>i2. th (- m ! i2 / 2)) ?o))
    = (if set (check_bits j) \<inter> E \<subseteq> {i} then bit_sign (c ! i) else 0)" .
  moreover have "\<bar>prod_list (map (\<lambda>i2. th (- m ! i2 / 2)) ?o)\<bar> < 1"
    by (rule prod_list_below_1) (use signs(2) check_others [OF ji(1)] in auto)
  ultimately show ?thesis by (simp add: check_says_def foldl_product sgn_mult signs(3))
qed

section \<open>Decoding\<close>

lemma nth_foldl_update:
  "i < length r \<Longrightarrow> foldl (\<lambda>r k. r[k := f k]) r is ! i = (if i \<in> set is then f i else r ! i)"
  by (induction "is" arbitrary: r) (auto simp: nth_list_update)

lemma first_round_sign:
  fixes th ath :: "'f::linordered_field \<Rightarrow> 'f"
  assumes "\<And>x. sgn (th x) = sgn x" "\<And>x. \<bar>th x\<bar> < 1" "\<And>x. \<bar>x\<bar> < 1 \<Longrightarrow> sgn (ath x) = sgn x"
    and "ldpc_check c = 0" "bits c" "length c = 174" "spells m c E" "i < 174" "k < 3"
  shows "sgn (check_round th ath (replicate 83 m) (replicate 83 (replicate 174 0)) ! bit_check i k ! i)
    = (if set (check_bits (bit_check i k)) \<inter> E \<subseteq> {i} then - bit_sign (c ! i) else 0)"
proof -
  note f = bit_check_fit [OF assms(8,9)]
  show ?thesis
    using check_says_sign [OF assms(1-6) f assms(7)] f(1)
    by (simp add: check_round_def nth_foldl_update f(2) assms(8))
qed

lemma sgn_sum:
  fixes x :: "'f::linordered_field"
  assumes "s = 1 \<or> s = - 1" "\<forall>y \<in> set ys. sgn y = s \<or> y = 0" "sgn x = s \<or> x = 0" "sgn x = s \<or> (\<exists>y \<in> set ys. sgn y = s)"
  shows "sgn (foldl (+) x ys) = s"
  using assms
proof (induction ys arbitrary: x)
  case (Cons y ys)
  have "sgn (x + y) = s \<or> x + y = 0" "sgn x = s \<or> sgn y = s \<Longrightarrow> sgn (x + y) = s"
    using Cons.prems by (auto simp: sgn_if split: if_splits)
  then show ?case using Cons.prems by (simp, intro Cons.IH) auto
qed auto

lemma first_guess:
  fixes th ath :: "'f::linordered_field \<Rightarrow> 'f"
  assumes signs: "\<And>x. sgn (th x) = sgn x" "\<And>x. \<bar>th x\<bar> < 1" "\<And>x. \<bar>x\<bar> < 1 \<Longrightarrow> sgn (ath x) = sgn x"
    and c: "ldpc_check c = 0" "bits c" "length c = 174" and m: "spells m c E"
    and E: "\<And>i. i \<in> E \<Longrightarrow> \<exists>k < 3. set (check_bits (bit_check i k)) \<inter> E \<subseteq> {i}"
  shows "guess m (check_round th ath (replicate 83 m) (replicate 83 (replicate 174 0))) = c" (is "guess m ?e = c")
proof (rule nth_equalityI)
  show "length (guess m ?e) = length c" by (simp add: guess_def c(3))
next
  fix i assume "i < length (guess m ?e)"
  then have i: "i < 174" by (simp add: guess_def)
  let ?s = "- bit_sign (c ! i) :: 'f" and ?ys = "map (\<lambda>k. ?e ! bit_check i k ! i) [0 ..< 3]"
  have e: "sgn (?e ! bit_check i k ! i) = (if set (check_bits (bit_check i k)) \<inter> E \<subseteq> {i} then ?s else 0)" if "k < 3" for k
    by (rule first_round_sign [OF signs c m i that])
  then have e0: "sgn (?e ! bit_check i k ! i) = ?s \<or> ?e ! bit_check i k ! i = 0" if "k < 3" for k
    using that by (metis sgn_eq_0_iff)
  have "sgn (foldl (+) (m ! i) ?ys) = ?s"
  proof (rule sgn_sum)
    show "?s = 1 \<or> ?s = - 1" by (simp add: bit_sign_def)
    show "\<forall>y \<in> set ?ys. sgn y = ?s \<or> y = 0" using e0 by auto
    have "sgn (m ! i) = (if i \<in> E then 0 else ?s)" using m i by (simp add: spells_def)
    then show "sgn (m ! i) = ?s \<or> m ! i = 0" by (metis sgn_eq_0_iff)
    show "sgn (m ! i) = ?s \<or> (\<exists>y \<in> set ?ys. sgn y = ?s)"
    proof (cases "i \<in> E")
      case True
      from E [OF True] obtain k where "k < 3" "set (check_bits (bit_check i k)) \<inter> E \<subseteq> {i}" by blast
      then have "sgn (?e ! bit_check i k ! i) = ?s" "?e ! bit_check i k ! i \<in> set ?ys" using e by auto
      then show ?thesis by blast
    qed (use m i in \<open>auto simp: spells_def\<close>)
  qed
  moreover have "is_bit (c ! i)" using c i by (simp add: bits_nth)
  ultimately have "(if 0 < foldl (+) (m ! i) ?ys then 1 else 0) = c ! i"
    by (auto simp: is_bit_def bit_sign_def sgn_if split: if_splits)
  then show "guess m ?e ! i = c ! i" using i by (simp add: guess_def foldl_map)
qed

text \<open>
  C9. Received bits that are certain enough need one iteration, and the parity checks fill in what was not received:
  when the likelihoods spell a code word except for some bits that are not known at all, and every such bit is in one
  check that has no other of them, the decoder returns the code word and reports no failed check. A positive
  likelihood stands for a bit 1, as in the code and against the comment in lines 29 to 34 of \<open>ldpc.cpp\<close>. Of the
  library functions only the signs and the range of \<open>tanh\<close> matter.
\<close>

theorem ldpc_fills_erasures:
  fixes th ath :: "'f::linordered_field \<Rightarrow> 'f"
  assumes "\<And>x. sgn (th x) = sgn x" "\<And>x. \<bar>th x\<bar> < 1" "\<And>x. \<bar>x\<bar> < 1 \<Longrightarrow> sgn (ath x) = sgn x"
    and "ldpc_check c = 0" "bits c" "length c = 174" and "spells codeword c E"
    and "\<And>i. i \<in> E \<Longrightarrow> \<exists>k < 3. set (check_bits (bit_check i k)) \<inter> E \<subseteq> {i}"
    and "0 < max_iters"
  shows "ldpc_decode th ath codeword max_iters plain = (c, 0)"
proof -
  obtain n where "max_iters = Suc n" using assms(9) by (cases max_iters) simp_all
  then show ?thesis by (simp add: ldpc_decode_def first_guess [OF assms(1-8)] assms(4))
qed

text \<open>The functions of the real numbers do what is relied on.\<close>

lemma sgn_tanh: "sgn (tanh x) = sgn (x :: real)"
  by (simp add: sgn_if)

lemma sgn_artanh:
  assumes "\<bar>x :: real\<bar> < 1" shows "sgn (artanh x) = sgn x"
proof -
  have "(0 < artanh x) = (0 < x)" "(artanh x = 0) = (x = 0)"
    using assms by (auto simp: artanh_def field_simps)
  then show ?thesis by (simp add: sgn_if)
qed

theorem ldpc_fills_erasures_witness:
  "ldpc_decode tanh artanh (0 # replicate 173 (- 1 :: real)) 10 [] = (replicate 174 0, 0)"
proof (rule ldpc_fills_erasures [where E = "{0}"])
  show "ldpc_check (replicate 174 0) = 0"
  proof -
    have "foldl (\<lambda>x i. x XOR replicate 174 0 ! i) 0 is = (0 :: u8)" if "\<forall>i \<in> set is. i < 174" for "is"
      using that by (induction "is") simp_all
    then show ?thesis unfolding ldpc_check_0 using check_bits_fit(2) by blast
  qed
  show "bits (replicate 174 0)" by (simp add: bits_replicate)
  show "spells (0 # replicate 173 (- 1)) (replicate 174 0) {0}"
    by (auto simp: spells_def bit_sign_def nth_Cons split: nat.split)
  show "\<exists>k < 3. set (check_bits (bit_check i k)) \<inter> {0} \<subseteq> {i}" if "i \<in> {0}" for i
    using that by (intro exI [of _ 0]) simp
  show "\<bar>tanh x\<bar> < 1" for x :: real
    using tanh_real_lt_1 [of x] tanh_real_gt_neg1 [of x] by simp
  show "sgn (artanh x) = sgn x" if "\<bar>x\<bar> < 1" for x :: real
    by (rule sgn_artanh [OF that])
qed (rule sgn_tanh, simp_all)

text \<open>
  C19. What the decoder reports can be trusted: after at least one iteration it reports 0 exactly when the bits it
  returns pass all the checks, and otherwise the least number of failed checks of all its guesses, which the last one
  does not beat. So 0 is what its caller can take for success; the value 87 that the comment in line 327 of \<open>ldpc.cpp\<close>
  promises for it is never reported, as there are only 83 checks.
\<close>

theorem ldpc_decode_sound:
  assumes "0 < max_iters"
  shows "let (bits, errors) = ldpc_decode th ath codeword max_iters plain
    in (errors = 0 \<longleftrightarrow> ldpc_check bits = 0) \<and> errors \<le> ldpc_check bits \<and> ldpc_check bits \<le> 83"
proof -
  have le: "ldpc_check c \<le> 83" for c
  proof -
    have "foldl (\<lambda>errors m. if P m then errors + 1 else errors) n ms \<le> n + length ms" for P n and ms :: "nat list"
      by (induction ms arbitrary: n) (simp_all, metis Suc_leD le_SucI add_Suc)
    from this [of _ 0 "[0 ..< 83]"] show ?thesis by (simp add: ldpc_check_def)
  qed
  have "0 < min_errors \<Longrightarrow> n = 0 \<longrightarrow> ldpc_check plain \<noteq> 0 \<and> min_errors \<le> ldpc_check plain \<Longrightarrow>
      let (bits, errors) = ldpc_loop th ath codeword n m e plain min_errors
      in (errors = 0 \<longleftrightarrow> ldpc_check bits = 0) \<and> errors \<le> ldpc_check bits" for n m e plain min_errors
  proof (induction n arbitrary: m e plain min_errors)
    case (Suc n)
    let ?e = "check_round th ath m e"
    let ?plain = "guess codeword ?e"
    let ?errors = "ldpc_check ?plain"
    show ?case
    proof (cases "?errors = 0")
      case False
      then have "let (bits, errors) = ldpc_loop th ath codeword n (bit_round codeword ?e m) ?e ?plain (min ?errors min_errors)
          in (errors = 0 \<longleftrightarrow> ldpc_check bits = 0) \<and> errors \<le> ldpc_check bits"
        by (intro Suc.IH) (use Suc.prems in simp_all)
      then show ?thesis using False by (simp add: Let_def)
    qed (use Suc.prems in \<open>simp add: Let_def\<close>)
  qed simp
  then show ?thesis using assms le by (fastforce simp: ldpc_decode_def)
qed

theorem ldpc_decode_sound_witness:
  "let (bits, errors) = ldpc_decode (\<lambda>x. x) (\<lambda>x. x) (replicate 174 (1 :: rat)) 3 []
    in (errors = 0 \<longleftrightarrow> ldpc_check bits = 0) \<and> errors \<le> ldpc_check bits \<and> ldpc_check bits \<le> 83"
  by (rule ldpc_decode_sound) simp

end
