(* ===== verification/Ft8Checks.thy ===== *)
theory Ft8Checks
  imports Complex_Main Prelude
begin

text \<open>
  What the FT8 decoder does with a decoded block before it shows its message: the CRC
  (\<open>decoders/ft8-decoder/ft8-processor.cpp\<close>) and the cache of the messages shown before
  (\<open>decoders/ft8-decoder/dl-cache.h\<close>).
\<close>

section \<open>The CRC\<close>

definition ft8_polynome :: "u8 list" where
  "ft8_polynome = [1, 0, 0, 1, 1, 1, 0, 1, 0, 1, 0, 1, 1, 1]"

definition ft8_crc_step :: "u8 list \<Rightarrow> u8 \<Rightarrow> u8 list" where
  "ft8_crc_step b x =
     (if b ! 0 XOR x = 1 then map2 (XOR) (tl b @ [0]) ft8_polynome else tl b @ [0])"

text \<open>The check bits are inverted, as bytes; the sum is an \<open>int16_t\<close>. The bits are changed in the caller's array.\<close>

definition check_crc_bits :: "u8 list \<Rightarrow> nat \<Rightarrow> bool \<times> u8 list" where
  "check_crc_bits inp nrBits =
     (let inp = take (nrBits - 14) inp @ map NOT (take 14 (drop (nrBits - 14) inp)) @ drop nrBits inp;
          b = foldl ft8_crc_step (replicate 14 0) (take nrBits inp);
          Sum = foldl (\<lambda>s x. to_int16 (s + uint x)) 0 b
      in (Sum = 0, inp))"

lemma ft8_crc_step_bits:
  assumes "bits b" "length b = 14" "is_bit x"
  shows "bits (ft8_crc_step b x)" "length (ft8_crc_step b x) = 14"
proof -
  have "bits ft8_polynome" "length ft8_polynome = 14" by (simp_all add: ft8_polynome_def)
  then show "bits (ft8_crc_step b x)" "length (ft8_crc_step b x) = 14"
    using assms by (simp_all add: ft8_crc_step_def bits_map2_xor bits_tl)
qed

lemma ft8_crc_bits:
  assumes "bits xs" "bits b" "length b = 14"
  shows "bits (foldl ft8_crc_step b xs)" "length (foldl ft8_crc_step b xs) = 14"
  using assms by (induction xs arbitrary: b) (simp_all add: ft8_crc_step_bits)

lemma ft8_crc_step_inverted:
  assumes "bits b" "length b = 14" "is_bit y"
  shows "ft8_crc_step b (NOT y) = tl b @ [0]"
proof -
  have "is_bit (b ! 0)" using assms(1,2) by (simp add: bits_nth)
  then have "b ! 0 XOR NOT y \<noteq> 1" using assms(3) by (auto simp: is_bit_def)
  then show ?thesis by (simp add: ft8_crc_step_def)
qed

lemma ft8_crc_inverted:
  assumes "bits ys" "bits b" "length b = 14" "length ys \<le> 14"
  shows "foldl ft8_crc_step b (map NOT ys) = drop (length ys) b @ replicate (length ys) 0"
  using assms
proof (induction ys rule: rev_induct)
  case (snoc y ys)
  let ?b = "drop (length ys) b @ replicate (length ys) 0"
  have "foldl ft8_crc_step b (map NOT ys) = ?b" using snoc by simp
  moreover have "bits ?b" "length ?b = 14" using snoc.prems by (simp_all add: bits_drop bits_replicate)
  moreover have "tl ?b = drop (Suc (length ys)) b @ replicate (length ys) 0" using snoc.prems
    by (subst tl_append2) (simp_all add: drop_Suc tl_drop)
  ultimately show ?case using snoc.prems by (simp add: ft8_crc_step_inverted replicate_append_same)
qed simp

text \<open>
  C11. The CRC of FT8 accepts everything. The check bits are inverted as bytes, which gives 255 and 254 for the bits 0
  and 1; a register bit and such a byte never add up to 1, so the last 14 steps only shift zeros in, and what
  is left of the register is zero whatever the bits were.
\<close>

theorem ft8_crc_accepts_all:
  assumes "bits inp" "14 \<le> nrBits" "nrBits \<le> length inp"
  shows "fst (check_crc_bits inp nrBits)"
proof -
  define n where "n = nrBits - 14"
  let ?ys = "take 14 (drop n inp)"
  have n: "nrBits = n + 14" using assms(2) by (simp add: n_def)
  have t: "take nrBits (take n inp @ map NOT ?ys @ drop nrBits inp) = take n inp @ map NOT ?ys"
    using assms(3) by (auto simp: n min_def)
  note r = ft8_crc_bits [OF bits_take [OF assms(1)] bits_replicate, of 0 14 n]
  have "foldl ft8_crc_step (replicate 14 0) (take n inp @ map NOT ?ys) = replicate 14 0"
    using ft8_crc_inverted [OF bits_take [OF bits_drop [OF assms(1)]] r] assms(3) r(2) by (simp add: n)
  moreover have "foldl (\<lambda>s x. to_int16 (s + uint x)) 0 (replicate k (0 :: u8)) = 0" for k
    by (induction k) (simp_all add: to_int16_def)
  ultimately show ?thesis by (simp only: check_crc_bits_def Let_def n_def [symmetric] t fst_conv)
qed

theorem ft8_crc_accepts_all_witness: "fst (check_crc_bits (replicate 80 1 @ replicate 94 0) 96)"
  by (rule ft8_crc_accepts_all) (simp_all add: onebit)

section \<open>The cache of messages\<close>

record 'f cache_element =
  strength :: 'f
  frequency :: 'f
  theMessage :: string

text \<open>An array of 32 elements, used in turn; \<open>p\<close> is the oldest one.\<close>

definition dl_find :: "'f cache_element list \<Rightarrow> nat \<Rightarrow> string \<Rightarrow> nat option" where
  "dl_find cache p s = find (\<lambda>i. theMessage (cache ! (i AND 31)) = s) [p ..< p + 32]"

definition dl_shift :: "nat \<Rightarrow> nat \<Rightarrow> 'f cache_element list \<Rightarrow> 'f cache_element list" where
  "dl_shift p i cache = foldl (\<lambda>c j. c[j AND 31 := c ! ((j + 1) AND 31)]) cache [i ..< p + 31]"

definition dl_update ::
  "'f::linorder \<Rightarrow> 'f \<Rightarrow> string \<Rightarrow> 'f cache_element list \<times> nat \<Rightarrow> bool \<times> 'f cache_element list \<times> nat" where
  "dl_update str freq s = (\<lambda>(cache, p).
     (let new = \<lparr>strength = str, frequency = freq, theMessage = s\<rparr>
      in case dl_find cache p s of
           Some i \<Rightarrow>
             (True, if strength (cache ! (i AND 31)) < str then (dl_shift p i cache)[(p + 31) AND 31 := new] else cache, p)
         | None \<Rightarrow> (False, cache[p := new], (p + 1) AND 31)))"

text \<open>The elements by age, the oldest first, and what an update is meant to do with them.\<close>

definition by_age :: "'f cache_element list \<times> nat \<Rightarrow> 'f cache_element list" where
  "by_age = (\<lambda>(cache, p). map (\<lambda>k. cache ! ((p + k) mod 32)) [0 ..< 32])"

definition lru_update ::
  "'f::linorder cache_element \<Rightarrow> 'f cache_element list \<Rightarrow> bool \<times> 'f cache_element list" where
  "lru_update new xs =
     (case find (\<lambda>k. theMessage (xs ! k) = theMessage new) [0 ..< length xs] of
        Some k \<Rightarrow> (True, if strength (xs ! k) < strength new then take k xs @ drop (Suc k) xs @ [new] else xs)
      | None \<Rightarrow> (False, tl xs @ [new]))"

lemma and_31: "(n :: nat) AND 31 = n mod 32"
  using take_bit_eq_mask [of 5 n] by (simp add: take_bit_eq_mod mask_eq_exp_minus_1)

lemma mod_32_inj:
  assumes "x mod 32 = y mod 32" "p \<le> x" "x < p + 32" "p \<le> y" "y < p + (32 :: nat)"
  shows "x = y"
proof -
  have le: "a \<le> b" if "a mod 32 = b mod 32" "a < b + 32" for a b :: nat
  proof (rule ccontr)
    assume "\<not> a \<le> b"
    moreover from this have "32 dvd a - b" using that(1) by (simp add: mod_eq_dvd_iff_nat)
    ultimately show False using that(2) dvd_imp_le [of 32 "a - b"] by linarith
  qed
  show ?thesis using le [of x y] le [of y x] assms by linarith
qed

lemma length_by_age [simp]: "length (by_age cp) = 32"
  by (simp add: by_age_def split_def)

lemma by_age_nth: "k < 32 \<Longrightarrow> by_age (cache, p) ! k = cache ! ((p + k) mod 32)"
  by (simp add: by_age_def)

text \<open>The shift moves every element from place \<open>i\<close> on one place down.\<close>

lemma length_dl_shift [simp]: "length (dl_shift p i cache) = length cache"
proof -
  have "length (foldl (\<lambda>c j. c[j AND 31 := c ! ((j + 1) AND 31)]) cache js) = length cache" for js
    by (induction js arbitrary: cache) simp_all
  then show ?thesis by (simp add: dl_shift_def)
qed

lemma dl_shift_nth:
  assumes "length cache = 32" "p \<le> i" "p \<le> x" "x < p + 32"
  shows "dl_shift p i cache ! (x mod 32) = (if i \<le> x \<and> x < p + 31 then cache ! ((x + 1) mod 32) else cache ! (x mod 32))"
proof -
  let ?f = "\<lambda>m. foldl (\<lambda>c j. c[j AND 31 := c ! ((j + 1) AND 31)]) cache [i ..< m]"
  have l: "length (?f m) = 32" for m
  proof -
    have "length (foldl (\<lambda>c j. c[j AND 31 := c ! ((j + 1) AND 31)]) c js) = length c" for c :: "'a cache_element list" and js
      by (induction js arbitrary: c) simp_all
    then show ?thesis by (simp add: assms(1))
  qed
  have "m \<le> p + 31 \<Longrightarrow> p \<le> x \<Longrightarrow> x < p + 32 \<Longrightarrow>
      ?f m ! (x mod 32) = (if i \<le> x \<and> x < m then cache ! ((x + 1) mod 32) else cache ! (x mod 32))" for m x
  proof (induction m arbitrary: x)
    case (Suc m)
    show ?case
    proof (cases "i \<le> m")
      case True
      have "?f (Suc m) = (?f m)[m mod 32 := ?f m ! ((m + 1) mod 32)]" using True by (simp add: and_31)
      moreover have "?f m ! ((m + 1) mod 32) = cache ! ((m + 1) mod 32)"
        using Suc.IH [of "m + 1"] Suc.prems True assms(2) by simp
      moreover have "m mod 32 = x mod 32 \<longleftrightarrow> m = x"
        using mod_32_inj [of m x p] Suc.prems True assms(2) by auto
      ultimately show ?thesis using Suc.IH [of x] Suc.prems True l [of m]
        by (auto simp: nth_list_update less_Suc_eq)
    next
      case False
      then have "\<not> (i \<le> x \<and> x < Suc m)" by linarith
      then show ?thesis using False by auto
    qed
  qed simp
  then show ?thesis using assms(3,4) by (simp add: dl_shift_def)
qed

lemma find_map: "find P (map f xs) = map_option f (find (\<lambda>x. P (f x)) xs)"
  by (induction xs) simp_all

lemma dl_find_by_age:
  "dl_find cache p s = map_option (\<lambda>k. p + k) (find (\<lambda>k. theMessage (by_age (cache, p) ! k) = s) [0 ..< 32])"
proof -
  have "[p ..< p + 32] = map (\<lambda>k. p + k) [0 ..< 32]" using map_add_upt [of p 32] by (simp add: add.commute)
  moreover have "find (\<lambda>k. theMessage (cache ! ((p + k) mod 32)) = s) [0 ..< 32]
      = find (\<lambda>k. theMessage (by_age (cache, p) ! k) = s) [0 ..< 32]"
    by (rule find_cong) (auto simp: by_age_nth)
  ultimately show ?thesis by (simp only: dl_find_def find_map and_31)
qed

lemma by_age_append:
  assumes "length cache = 32" "p < 32"
  shows "by_age (cache[p := new], (p + 1) mod 32) = tl (by_age (cache, p)) @ [new]"
proof (rule nth_equalityI)
  fix k assume "k < length (by_age (cache[p := new], (p + 1) mod 32))"
  then have k: "k < 32" by simp
  have "((p + 1) mod 32 + k) mod 32 = (p + (k + 1)) mod 32" by (simp add: mod_simps)
  then have l: "by_age (cache[p := new], (p + 1) mod 32) ! k = cache[p := new] ! ((p + (k + 1)) mod 32)"
    using k by (simp add: by_age_nth)
  show "by_age (cache[p := new], (p + 1) mod 32) ! k = (tl (by_age (cache, p)) @ [new]) ! k"
  proof (cases "k = 31")
    case True
    then show ?thesis using l assms by (simp add: nth_append)
  next
    case False
    then have "(p + (k + 1)) mod 32 \<noteq> p" using mod_32_inj [of "p + (k + 1)" p p] k assms(2) by auto
    then show ?thesis using l False k by (simp add: nth_append nth_tl by_age_nth)
  qed
qed simp

lemma by_age_renew:
  assumes "length cache = 32" "k < 32"
  shows "by_age ((dl_shift p (p + k) cache)[(p + 31) mod 32 := new], p)
    = take k (by_age (cache, p)) @ drop (Suc k) (by_age (cache, p)) @ [new]"
proof (rule nth_equalityI)
  fix j assume "j < length (by_age ((dl_shift p (p + k) cache)[(p + 31) mod 32 := new], p))"
  then have j: "j < 32" by simp
  have "(p + 31) mod 32 = (p + j) mod 32 \<longleftrightarrow> j = 31" using mod_32_inj [of "p + 31" "p + j" p] j by auto
  then show "by_age ((dl_shift p (p + k) cache)[(p + 31) mod 32 := new], p) ! j
      = (take k (by_age (cache, p)) @ drop (Suc k) (by_age (cache, p)) @ [new]) ! j"
    using dl_shift_nth [OF assms(1), of p "p + k" "p + j"] j assms
    by (auto simp: by_age_nth nth_append nth_list_update)
qed (use assms in simp)

text \<open>
  C21. The cache of the messages shown is a list by recency. An update tells whether the message is known: an unknown
  one replaces the oldest message, a known one that is stronger now becomes the newest, and a known one that is not
  changes nothing; the order of all the others stays.
\<close>

theorem dl_cache_recency:
  assumes "length cache = 32" "p < 32"
  shows "let (known, cache', p') = dl_update str freq s (cache, p)
    in (known, by_age (cache', p')) = lru_update \<lparr>strength = str, frequency = freq, theMessage = s\<rparr> (by_age (cache, p))
       \<and> length cache' = 32 \<and> p' < 32"
proof (cases "find (\<lambda>k. theMessage (by_age (cache, p) ! k) = s) [0 ..< 32]")
  case None
  then show ?thesis using by_age_append [OF assms] assms
    by (simp add: dl_update_def lru_update_def dl_find_by_age and_31)
next
  case (Some k)
  then have k: "k < 32" by (auto simp: find_Some_iff)
  have "cache ! ((p + k) mod 32) = by_age (cache, p) ! k" using k by (simp add: by_age_nth)
  then show ?thesis using by_age_renew [OF assms(1) k] assms Some
    by (simp add: dl_update_def lru_update_def dl_find_by_age and_31)
qed

theorem dl_cache_recency_witness:
  "let (known, cache', p') = dl_update (7 :: rat) 900 ''CQ PA0JAN'' (replicate 32 \<lparr>strength = 0, frequency = 0, theMessage = []\<rparr>, 0)
   in \<not> known \<and> last (by_age (cache', p')) = \<lparr>strength = 7, frequency = 900, theMessage = ''CQ PA0JAN''\<rparr>"
proof -
  let ?c = "replicate 32 \<lparr>strength = 0 :: rat, frequency = 0, theMessage = []\<rparr>"
  have a: "by_age (?c, 0) = ?c" by (rule nth_equalityI) (simp_all add: by_age_nth)
  have f: "find (\<lambda>k. theMessage (?c ! k) = ''CQ PA0JAN'') [0 ..< 32] = None" by (simp add: find_None_iff)
  show ?thesis
    using dl_cache_recency [of ?c 0 "7 :: rat" 900 "''CQ PA0JAN''"] f
    by (auto simp: a lru_update_def Let_def split: prod.splits)
qed

end
