(* ===== verification/Spec2Isabelle.thy ===== *)
theory Spec2Isabelle
  imports Prelude FloatArith BitField RingBuf DrmBasics DrmCrc DrmPrbs DrmMapper DrmDeinterleaver Trellis
    DrmViterbi DrmConvCode DrmPuncture DrmDepuncture DrmStreamer DrmState DrmMscStreamer DrmMetrics DrmMsc
    DrmFac DrmSdc DrmReference ByteCrc DrmMessage DrmXheaac DrmAac DrmBackend Amtor Ft8Ldpc Ft8Checks
begin

text \<open>
  Verification library of swradio-8, a short wave receiver whose decoders turn radio samples into text and sound.
  Modelled are the digital parts of its decoders: all of the digital radio (DRM) receiver behind the equalizer, in
  \<open>src/decoders/drm-decoder\<close>; the AMTOR decoder behind the discriminator, in \<open>src/decoders/amtor-decoder\<close>; the error
  correction and the checks of the FT8 decoder, in \<open>src/decoders/ft8-decoder\<close>; and the ring buffer in \<open>src/various\<close> through which
  all threads pass their samples.

  \<^bold>\<open>The DRM receiver.\<close> The equalizer delivers frames of cells; three frames are a superframe. Some cells are pilots and
  references, some carry the fast access channel (FAC: the parameters of the frame and its services), some, in the
  first frame, the service description channel (SDC), and all others the main service channel (MSC). The theories
  follow a cell through the code:

  \<^item> \<open>DrmBasics\<close> (\<open>basics.cpp\<close>, \<open>fac/fac-tables.cpp\<close>) and \<open>DrmReference\<close> (\<open>equalizer/referenceframe.cpp\<close>, tables of
    \<open>drm-decoder.cpp\<close>): the frame, its pilots and references, and which cells belong to which channel.
  \<^item> \<open>DrmMetrics\<close> (\<open>support/qam*-metrics.cpp\<close>): from a cell to soft bits. \<open>DrmDeinterleaver\<close> and \<open>DrmMapper\<close>
    (\<open>support/deinterleaver.cpp\<close>, \<open>support/mapper.cpp\<close>): cell and bit interleaving.
  \<^item> \<open>DrmPuncture\<close>, \<open>DrmDepuncture\<close> (\<open>parameters/puncture-tables.cpp\<close>, \<open>support/protlevels.cpp\<close>), \<open>DrmViterbi\<close> and
    \<open>DrmConvCode\<close> (\<open>support/viterbi-drm.cpp\<close>): the punctured convolutional code. \<open>Trellis\<close> is the locale of the
    Viterbi argument, interpreted on the decoder's own costs.
  \<^item> \<open>DrmStreamer\<close> (\<open>sdc/sdc-streamer.cpp\<close>), \<open>DrmMscStreamer\<close> (\<open>msc/msc-streamer.cpp\<close>) and \<open>DrmMsc\<close>
    (\<open>msc/msc-handler-qam16.cpp\<close>, \<open>msc/msc-handler-qam64.cpp\<close>): one protection level, and the multilevel decoders that
    encode a decoded level again to demodulate the next one.
  \<^item> \<open>DrmPrbs\<close> (\<open>support/prbs.cpp\<close>), \<open>DrmCrc\<close> (\<open>support/checkcrc.cpp\<close>) and \<open>ByteCrc\<close> (the byte-wise routines of the
    audio and message processors): energy dispersal and check sums.
  \<^item> \<open>DrmState\<close> (\<open>parameters/state-descriptor\<close>), \<open>DrmFac\<close> (\<open>fac/fac-processor.cpp\<close>) and \<open>DrmSdc\<close>
    (\<open>sdc/sdc-processor.cpp\<close>): the state of the receiver and the two channels that fill it in.
  \<^item> \<open>DrmMessage\<close>, \<open>DrmAac\<close>, \<open>DrmXheaac\<close> (\<open>data/\<close>): text messages and the two audio framings, up to the access units
    given to the audio library and the samples it returns.
  \<^item> \<open>DrmBackend\<close> (\<open>msc/msc-processor.cpp\<close>, \<open>msc/backend-controller.cpp\<close>, \<open>data/data-processor.cpp\<close>, the loop of
    \<open>drm-decoder.cpp\<close>): the composition of all these, cell by cell and frame by frame, with the synchronisation.

  \<^bold>\<open>Shared theories.\<close> \<open>Prelude\<close> has the C types, bit vectors and list lemmas; \<open>BitField\<close> numbers written as bits;
  \<open>FloatArith\<close> IEEE rounding, for the sizes the code computes in \<open>float\<close>; \<open>RingBuf\<close> (\<open>various/ringbuffer.h\<close>) the
  buffer, with a locale of bounded queues interpreted on it and a step relation of its two threads.

  \<^bold>\<open>AMTOR\<close> (\<open>Amtor\<close>): bit clock, words of seven bits, the two copies of every character, shifts, and the filter for
  official messages. \<^bold>\<open>FT8\<close> (\<open>Ft8Ldpc\<close>): the parity check code and its iterative decoder;
  \<open>Ft8Checks\<close>: the CRC and the cache of the messages shown.

  \<^bold>\<open>Correspondence.\<close> A record is the state of a class with the field names of the source, a
  definition is a function of the source of the same name or a loop of it, and a name with the name of its decoder in
  front is one that several classes have. Arrays are lists, and a read or write outside an array has no result
  (\<open>None\<close>), except for the cells of a frame, whose array the code makes as large as the loops that read
  it run. Bits are kept as the code keeps them, one to a byte. Soft bits and costs are elements of any linearly
  ordered field, so that nothing rests on rounding; where the code computes sizes in \<open>float\<close> or wraps
  integers around, so does the model. Where a 16-bit index or size would overflow before a loop ends, the code leaves
  its arrays, and the model has no result: for the dispersal of more than 32767 bits (\<open>doPRBS\<close>), a code
  word of the Viterbi decoder (\<open>viterbi_fits\<close>), the encoded length of an SDC block
  (\<open>counters_fit\<close>), a part of an MSC level (\<open>part_fits\<close>) and the bits of a QAM-64 multiplex.
  Where a result always exists (the 72 bits of the FAC) it is taken out of the option, and a lemma states that it
  exists. Memory that nobody has set is an argument. Signals to the widgets are lists of what was sent.

  \<^bold>\<open>What is shown.\<close> Round trips: a block sent with the parameters of the standard is received as
  it was sent, for the FAC, the SDC, both MSC handlers, text messages, audio frames and AMTOR texts. Optimality of the
  Viterbi decoder; detection by the check sums; permutations and delays of the interleavers; refinement of the
  cell-wise back end to whole multiplexes and of the ring buffer to a queue, for one thread and for two; invariants
  and ranges of the state; when the main loop takes part in a superframe and when it gives a signal up; erasures the
  FT8 code fills in; which part of an AMTOR text the filter for official messages shows, against a specification on
  whole texts (\<open>official\<close>). Where the code does not do what it means to, a theorem says what it does.
  Where a comment says something else than the code, the model follows the code: in \<open>ldpc.cpp\<close> a positive
  likelihood means a bit 1 and the result 0 means success, whatever lines 29 to 34 and 327 say.

  \<^bold>\<open>Bounds and fuel.\<close> No function runs on fuel: loops are structural or have a measure, and the
  main loop runs over the frames the equalizer delivers (the number 36 that is thrown when it delivers none is left
  out). The FT8 decoder has its own number of iterations. The round trip of the SDC is shown for tables of up to 4096
  cells (the longest of the system has 607), those of the MSC handlers for multiplexes of up to 8192 cells; a QAM-64
  frame longer than 32767 bits has no result, as said above.

  \<^bold>\<open>Not modelled.\<close> The equalizer, the synchronisation, the filters, the FFT, the resampling and
  the discriminators are floating point signal processing whose claims are about spectra, not about values; the
  equalizer's output is a parameter. The FDK audio library is vendored and a parameter (\<open>aac_decoder\<close>,
  with whether it could be opened at all). Of the other decoders, CW, PSK, RTTY, fax, AM and SSB are demodulators;
  ACARS is third-party code; of FT8 the tone detection is signal processing, and the thread behind it, the formats of
  its messages and the reporting are left out. Devices, sound output, scopes and the main window are input and output.
\<close>

end
